(* ===== verification/Prelude.thy ===== *)
theory Prelude
  imports Main "HOL-Library.Word" "HOL-Library.Sublist"
begin

text \<open>
  What every component of the server shares: the C types and the functions of the C
  library that the sources call, and the generic lemmas about them.

  \<^item> A byte is a \<^typ>\<open>char\<close>, a run of bytes (\<^verbatim>\<open>const char *\<close> with a length, or an array) is
    a \<^typ>\<open>string\<close>. A \<^verbatim>\<open>size_t\<close> that the code computes with is a \<open>64 word\<close>; an offset into a
    buffer, which the code keeps within the buffer, is a \<^typ>\<open>nat\<close>.
  \<^item> A \<^verbatim>\<open>char[n]\<close> array is a list of length \<open>n\<close>. Its reading as a C string is \<open>c_str\<close>, the bytes
    before the first NUL. \<open>memcpy_at\<close> writes into an array; a write that ran over the end of
    the array would make the list longer, so that the length of the list is what memory
    safety is stated about.
  \<^item> The C library is used in the C locale (no \<^verbatim>\<open>setlocale\<close> anywhere in the sources), so
    \<^verbatim>\<open>tolower\<close>, \<^verbatim>\<open>isdigit\<close> and \<^verbatim>\<open>isalnum\<close> are the ASCII ones.
\<close>

section \<open>Types and fact collections\<close>

type_synonym size_t = "64 word"

type_synonym fd = int

abbreviation NUL :: char where "NUL \<equiv> CHR 0x00"
abbreviation CR :: char where "CR \<equiv> CHR 0x0D"
abbreviation LF :: char where "LF \<equiv> CHR 0x0A"
abbreviation TAB :: char where "TAB \<equiv> CHR 0x09"
abbreviation DQUOTE :: char where "DQUOTE \<equiv> CHR 0x22"
abbreviation BACKSLASH :: char where "BACKSLASH \<equiv> CHR 0x5C"

abbreviation crlf :: string where "crlf \<equiv> [CR, LF]"

text \<open>
  \<open>c_mem\<close>: reading and writing C arrays; \<open>frame\<close>: the fields an operation leaves alone;
  \<open>wf\<close>: preservation of the components' invariants.
\<close>

named_theorems c_mem
named_theorems frame
named_theorems wf

section \<open>Characters\<close>

definition byte :: "char \<Rightarrow> nat" where
  "byte c = of_char c"

definition tolower :: "char \<Rightarrow> char" where
  "tolower c = (if 65 \<le> byte c \<and> byte c \<le> 90 then char_of (byte c + 32) else c)"

definition isdigit :: "char \<Rightarrow> bool" where
  "isdigit c \<longleftrightarrow> 48 \<le> byte c \<and> byte c \<le> 57"

definition isalnum :: "char \<Rightarrow> bool" where
  "isalnum c \<longleftrightarrow> isdigit c \<or> (65 \<le> byte c \<and> byte c \<le> 90) \<or> (97 \<le> byte c \<and> byte c \<le> 122)"

lemma byte_less [simp]: "byte c < 256"
  by (simp add: byte_def)

lemma byte_inject [simp]: "byte c = byte d \<longleftrightarrow> c = d"
  by (simp add: byte_def)

lemma char_of_byte [simp]: "char_of (byte c) = c"
  by (simp add: byte_def)

lemma byte_char_of [simp]: "byte (char_of (n :: nat)) = n mod 256"
  by (simp add: byte_def)

lemma isdigit_not_special [simp]:
  "\<not> isdigit NUL" "\<not> isdigit (CHR ''-'')" "\<not> isdigit (CHR '','')" "\<not> isdigit (CHR '' '')"
  "\<not> isdigit TAB" "\<not> isdigit CR" "\<not> isdigit LF" "\<not> isdigit (CHR ''%'')"
  by (simp_all add: isdigit_def byte_def)

section \<open>C strings and arrays\<close>

definition c_str :: "string \<Rightarrow> string" where
  "c_str a = takeWhile (\<lambda>c. c \<noteq> NUL) a"

definition memcpy_at :: "string \<Rightarrow> nat \<Rightarrow> string \<Rightarrow> string" where
  "memcpy_at dest off src = take off dest @ src @ drop (off + length src) dest"

definition zeroed :: "nat \<Rightarrow> string" where
  "zeroed n = replicate n NUL"

fun memchr :: "char \<Rightarrow> string \<Rightarrow> nat option" where
  "memchr c [] = None"
| "memchr c (x # xs) = (if x = c then Some 0 else map_option Suc (memchr c xs))"

lemma c_str_simps [simp]:
  "c_str [] = []"
  "c_str (x # xs) = (if x = NUL then [] else x # c_str xs)"
  by (simp_all add: c_str_def)

lemma NUL_notin_c_str [simp]: "NUL \<notin> set (c_str a)"
  by (auto simp: c_str_def dest: set_takeWhileD)

lemma c_str_ident [simp]: "NUL \<notin> set s \<Longrightarrow> c_str s = s"
  by (induction s) auto

lemma c_str_append_NUL [simp]: "c_str (s @ NUL # rest) = c_str s"
  by (induction s) auto

lemma set_c_str: "set (c_str s) \<subseteq> set s"
  by (auto simp: c_str_def dest: set_takeWhileD)

lemma length_c_str_le: "length (c_str s) \<le> length s"
  by (simp add: c_str_def length_takeWhile_le)

lemma length_c_str_less [c_mem]: "NUL \<in> set s \<Longrightarrow> length (c_str s) < length s"
  by (induction s) auto

lemma length_zeroed [simp]: "length (zeroed n) = n"
  by (simp add: zeroed_def)

lemma c_str_zeroed [simp]: "c_str (zeroed n) = []"
  by (cases n) (simp_all add: zeroed_def)

lemma NUL_in_zeroed [simp]: "NUL \<in> set (zeroed n) \<longleftrightarrow> 0 < n"
  by (simp add: zeroed_def)

lemma length_memcpy_at [c_mem]:
  "off + length src \<le> length dest \<Longrightarrow> length (memcpy_at dest off src) = length dest"
  by (simp add: memcpy_at_def)

lemma take_memcpy_at [c_mem]:
  "off + length src \<le> length dest \<Longrightarrow>
   take (off + length src) (memcpy_at dest off src) = take off dest @ src"
  by (simp add: memcpy_at_def)

lemma memchr_None [simp]: "memchr c s = None \<longleftrightarrow> c \<notin> set s"
  by (induction s) auto

lemma memchr_SomeD:
  "memchr c s = Some n \<Longrightarrow>
   n < length s \<and> s ! n = c \<and> c \<notin> set (take n s) \<and> s = take n s @ c # drop (Suc n) s"
proof (induction s arbitrary: n)
  case Nil
  then show ?case by simp
next
  case (Cons x xs)
  show ?case
  proof (cases "x = c")
    case True
    with Cons.prems show ?thesis by simp
  next
    case False
    with Cons.prems obtain m where m: "memchr c xs = Some m" and n: "n = Suc m"
      by auto
    from Cons.IH [OF m] False n show ?thesis by auto
  qed
qed

lemma memchr_append [simp]: "c \<notin> set s \<Longrightarrow> memchr c (s @ c # t) = Some (length s)"
  by (induction s) auto

lemma memchr_append_notin: "c \<notin> set s \<Longrightarrow> memchr c (s @ t) = map_option ((+) (length s)) (memchr c t)"
  by (cases "memchr c t"; induction s) (auto simp del: memchr_None)

section \<open>Decimal numbers\<close>

text \<open>What \<^verbatim>\<open>%zu\<close> prints, and the value of a run of decimal digits.\<close>

fun to_dec :: "nat \<Rightarrow> string" where
  "to_dec n = (if n < 10 then [char_of (48 + n)] else to_dec (n div 10) @ [char_of (48 + n mod 10)])"

declare to_dec.simps [simp del]

text \<open>What \<^verbatim>\<open>%d\<close> prints.\<close>

definition printf_d :: "int \<Rightarrow> string" where
  "printf_d i = (if i < 0 then CHR ''-'' # to_dec (nat (- i)) else to_dec (nat i))"

definition digit_value :: "char \<Rightarrow> nat" where
  "digit_value c = byte c - 48"

definition dec_value :: "string \<Rightarrow> nat" where
  "dec_value s = foldl (\<lambda>v c. 10 * v + digit_value c) 0 s"

lemma dec_value_Nil [simp]: "dec_value [] = 0"
  by (simp add: dec_value_def)

lemma dec_value_snoc [simp]: "dec_value (s @ [c]) = 10 * dec_value s + digit_value c"
  by (simp add: dec_value_def)

lemma digit_char [simp]:
  "n < 10 \<Longrightarrow> isdigit (char_of (48 + n))" "n < 10 \<Longrightarrow> digit_value (char_of (48 + n)) = n"
  by (simp_all add: isdigit_def digit_value_def)

lemma digit_value_less: "isdigit c \<Longrightarrow> digit_value c < 10"
  unfolding isdigit_def digit_value_def by linarith

lemma to_dec_nonempty [simp]: "to_dec n \<noteq> []"
  by (subst to_dec.simps) simp

lemma to_dec_digits [simp]: "list_all isdigit (to_dec n)"
  by (induction n rule: to_dec.induct) (subst to_dec.simps, simp)

lemma dec_value_to_dec [simp]: "dec_value (to_dec n) = n"
proof (induction n rule: to_dec.induct)
  case (1 n)
  show ?case
  proof (cases "n < 10")
    case True
    then show ?thesis
      using dec_value_snoc [of "[]" "char_of (48 + n)"] by (simp add: to_dec.simps [of n])
  next
    case False
    with 1 show ?thesis by (simp add: to_dec.simps [of n])
  qed
qed

lemma to_dec_inject [simp]: "to_dec m = to_dec n \<longleftrightarrow> m = n"
  by (metis dec_value_to_dec)

lemma length_to_dec_le: "n < 10 ^ k \<Longrightarrow> 0 < k \<Longrightarrow> length (to_dec n) \<le> k"
proof (induction n arbitrary: k rule: to_dec.induct)
  case (1 n)
  show ?case
  proof (cases "n < 10")
    case True
    with 1 show ?thesis by (simp add: to_dec.simps [of n])
  next
    case False
    with 1(2,3) obtain j where k: "k = Suc j" "0 < j"
      by (cases k; cases "k - 1") auto
    with 1(2) have "n div 10 < 10 ^ j" by auto
    with 1(1) False k show ?thesis by (simp add: to_dec.simps [of n])
  qed
qed

lemma length_to_dec_size_t: "length (to_dec (unat (x :: size_t))) \<le> 20"
proof (rule length_to_dec_le)
  have "unat x < 2 ^ 64" using unsigned_less [of x, where 'a = nat] by simp
  also have "(2 :: nat) ^ 64 < 10 ^ 20" by simp
  finally show "unat x < 10 ^ 20" .
qed simp

section \<open>Machine words\<close>

text \<open>Counting up below a \<^verbatim>\<open>size_t\<close> bound does not wrap.\<close>

lemma unat_Suc_below:
  assumes "unat (i :: size_t) < unat (c :: size_t)"
  shows "unat (i + 1) = Suc (unat i)"
proof -
  have "unat i + 1 < 2 ^ 64" using assms unsigned_less [of c, where 'a = nat] by simp
  then show ?thesis by (simp add: unat_word_ariths)
qed

section \<open>Step relations\<close>

text \<open>When the runs from a state are bounded, one of them ends.\<close>

lemma bounded_run_ends:
  assumes "\<And>m t. (R ^^ m) s t \<Longrightarrow> m \<le> k"
  shows "\<exists>m t. (R ^^ m) s t \<and> (\<forall>u. \<not> R t u)"
proof (rule ccontr)
  assume a: "\<not> (\<exists>m t. (R ^^ m) s t \<and> (\<forall>u. \<not> R t u))"
  have "\<exists>t. (R ^^ m) s t" for m
  proof (induction m)
    case (Suc m)
    then obtain t where t: "(R ^^ m) s t" by blast
    with a obtain u where "R t u" by blast
    with t show ?case by (auto intro: relcomppI)
  qed auto
  then obtain t where "(R ^^ Suc k) s t" by blast
  with assms [OF this] show False by simp
qed

end
