(* ===== verification/Http.thy ===== *)
theory Http
  imports Prelude
begin

text \<open>
  \<^verbatim>\<open>src/http.c\<close> and \<^verbatim>\<open>include/http.h\<close>: the request parser.

  The parsed request \<open>http_request\<close> has the fields of \<^verbatim>\<open>http_request_t\<close>; its four character
  arrays are lists of the arrays' lengths, its \<^verbatim>\<open>int\<close> flags are truth values, and its two range
  numbers are \<^verbatim>\<open>size_t\<close> words. Each function of the file is one definition under the same name
  (\<open>req_method\<close> and \<open>req_version\<close> stand for the fields \<^verbatim>\<open>method\<close> and \<^verbatim>\<open>version\<close>). A pair of
  pointers into the same buffer is the list of the bytes between them, a pointer that may be
  NULL the option of an offset. The guards against NULL arguments, which no caller passes,
  have no counterpart: a list is always there.
\<close>

section \<open>Data\<close>

definition HTTP_METHOD_TEXT_MAX :: nat where "HTTP_METHOD_TEXT_MAX = 16"
definition HTTP_PATH_MAX :: nat where "HTTP_PATH_MAX = 1024"
definition HTTP_VERSION_TEXT_MAX :: nat where "HTTP_VERSION_TEXT_MAX = 16"
definition HTTP_CONNECTION_TEXT_MAX :: nat where "HTTP_CONNECTION_TEXT_MAX = 32"

lemmas http_sizes = HTTP_METHOD_TEXT_MAX_def HTTP_PATH_MAX_def HTTP_VERSION_TEXT_MAX_def
  HTTP_CONNECTION_TEXT_MAX_def

datatype http_method = HTTP_METHOD_GET | HTTP_METHOD_HEAD | HTTP_METHOD_UNSUPPORTED

datatype http_version = HTTP_VERSION_10 | HTTP_VERSION_11 | HTTP_VERSION_UNKNOWN

datatype http_parse_result = HTTP_PARSE_OK | HTTP_PARSE_BAD_REQUEST

record http_request =
  method_text :: string
  path :: string
  version_text :: string
  connection :: string
  req_method :: http_method
  req_version :: http_version
  keep_alive_requested :: bool
  has_range :: bool
  range_is_suffix :: bool
  range_end_provided :: bool
  range_start :: size_t
  range_end :: size_t

text \<open>The request after \<^verbatim>\<open>memset(request, 0, sizeof(*request))\<close>: enumerators 0 are the first ones.\<close>

definition zero_request :: http_request where
  "zero_request =
     \<lparr>method_text = zeroed HTTP_METHOD_TEXT_MAX, path = zeroed HTTP_PATH_MAX,
      version_text = zeroed HTTP_VERSION_TEXT_MAX, connection = zeroed HTTP_CONNECTION_TEXT_MAX,
      req_method = HTTP_METHOD_GET, req_version = HTTP_VERSION_10,
      keep_alive_requested = False, has_range = False, range_is_suffix = False,
      range_end_provided = False, range_start = 0, range_end = 0\<rparr>"

section \<open>Character and token helpers\<close>

definition copy_bounded :: "string \<Rightarrow> string \<Rightarrow> string" where
  "copy_bounded dest src =
     (let copy_len = (if length src \<ge> length dest then length dest - 1 else length src)
      in (memcpy_at dest 0 (take copy_len src))[copy_len := NUL])"

fun ascii_case_equal :: "string \<Rightarrow> string \<Rightarrow> bool" where
  "ascii_case_equal (l # left) (r # right) =
     (if tolower l \<noteq> tolower r then False else ascii_case_equal left right)"
| "ascii_case_equal left right \<longleftrightarrow> left = [] \<and> right = []"

fun case_equal_loop :: "string \<Rightarrow> string \<Rightarrow> bool" where
  "case_equal_loop (t # text) (e # expected) =
     (if tolower t \<noteq> tolower e then False else case_equal_loop text expected)"
| "case_equal_loop text expected = True"

definition ascii_case_equal_bounded :: "string \<Rightarrow> string \<Rightarrow> bool" where
  "ascii_case_equal_bounded text expected =
     (if length text \<noteq> length expected then False else case_equal_loop text expected)"

fun find_crlf :: "string \<Rightarrow> nat option" where
  "find_crlf (a # b # text) =
     (if a = CR \<and> b = LF then Some 0 else map_option Suc (find_crlf (b # text)))"
| "find_crlf text = None"

fun skip_spaces :: "string \<Rightarrow> string" where
  "skip_spaces (c # text) = (if c = CHR '' '' \<or> c = TAB then skip_spaces text else c # text)"
| "skip_spaces [] = []"

definition is_trailing_space :: "char \<Rightarrow> bool" where
  "is_trailing_space c \<longleftrightarrow> c = CHR '' '' \<or> c = TAB \<or> c = CR \<or> c = LF"

definition trim_trailing_span :: "string \<Rightarrow> string" where
  "trim_trailing_span text = rev (dropWhile is_trailing_space (rev text))"

definition SIZE_MAX :: size_t where "SIZE_MAX = - 1"

fun parse_digits :: "size_t \<Rightarrow> string \<Rightarrow> size_t option" where
  "parse_digits parsed [] = Some parsed"
| "parse_digits parsed (c # cursor) =
     (if \<not> isdigit c then None
      else if parsed > (SIZE_MAX - of_nat (digit_value c)) div 10 then None
      else parse_digits (parsed * 10 + of_nat (digit_value c)) cursor)"

definition parse_size_token :: "string \<Rightarrow> size_t option" where
  "parse_size_token text = (if text = [] then None else parse_digits 0 text)"

section \<open>Headers\<close>

definition bytes_unit :: string where "bytes_unit = ''bytes=''"

definition parse_range_header :: "string \<Rightarrow> http_request \<Rightarrow> http_request" where
  "parse_range_header value request =
     (let span = skip_spaces (trim_trailing_span value) in
      if length span < length bytes_unit \<or>
         \<not> ascii_case_equal_bounded (take (length bytes_unit) span) bytes_unit then request
      else
        let range_spec = drop (length bytes_unit) span in
        if range_spec = [] then request
        else if memchr (CHR '','') range_spec \<noteq> None then request
        else (case memchr (CHR ''-'') range_spec of
            None \<Rightarrow> request
          | Some dash \<Rightarrow>
              let after_dash = drop (dash + 1) range_spec in
              if dash = 0 then
                (case parse_size_token after_dash of
                   None \<Rightarrow> request
                 | Some parsed \<Rightarrow>
                     if parsed = 0 then request
                     else request\<lparr>has_range := True, range_is_suffix := True, range_start := parsed\<rparr>)
              else
                (case parse_size_token (take dash range_spec) of
                   None \<Rightarrow> request
                 | Some parsed \<Rightarrow>
                     let request = request\<lparr>has_range := True, range_start := parsed\<rparr> in
                     if after_dash = [] then request
                     else
                       (case parse_size_token after_dash of
                          None \<Rightarrow> request\<lparr>has_range := False\<rparr>
                        | Some parsed \<Rightarrow>
                            request\<lparr>range_end_provided := True, range_end := parsed\<rparr>))))"

definition parse_header_line :: "string \<Rightarrow> http_request \<Rightarrow> http_request" where
  "parse_header_line line request =
     (case memchr (CHR '':'') line of
        None \<Rightarrow> request
      | Some colon \<Rightarrow>
          let name = take colon line;
              value = trim_trailing_span (skip_spaces (drop (colon + 1) line))
          in if ascii_case_equal_bounded name ''Connection''
             then request\<lparr>connection := copy_bounded (connection request) value\<rparr>
             else if ascii_case_equal_bounded name ''Range''
             then parse_range_header value request
             else request)"

function parse_headers :: "string \<Rightarrow> http_request \<Rightarrow> http_request" where
  "parse_headers headers request =
     (case find_crlf headers of
        None \<Rightarrow> request
      | Some line_len \<Rightarrow>
          if line_len = 0 then request
          else parse_headers (drop (line_len + 2) headers)
                 (parse_header_line (take line_len headers) request))"
  by pat_completeness auto
termination
  by (relation "measure (\<lambda>(headers, request). length headers)") (auto split: list.splits, case_tac headers, auto)

declare parse_headers.simps [simp del]

section \<open>The request line\<close>

definition parse_method :: "string \<Rightarrow> http_method" where
  "parse_method text =
     (if c_str text = ''GET'' then HTTP_METHOD_GET
      else if c_str text = ''HEAD'' then HTTP_METHOD_HEAD
      else HTTP_METHOD_UNSUPPORTED)"

definition parse_version :: "string \<Rightarrow> http_version" where
  "parse_version text =
     (if c_str text = ''HTTP/1.0'' then HTTP_VERSION_10
      else if c_str text = ''HTTP/1.1'' then HTTP_VERSION_11
      else HTTP_VERSION_UNKNOWN)"

text \<open>
  The end of \<^verbatim>\<open>http_parse_request\<close>: the header lines, then the keep-alive decision. HTTP/1.1
  keeps the connection unless the client says \<^verbatim>\<open>close\<close>, HTTP/1.0 closes it unless the client
  says \<^verbatim>\<open>keep-alive\<close>.
\<close>

definition finish_request :: "string \<Rightarrow> http_request \<Rightarrow> http_request" where
  "finish_request headers request =
     (let request = parse_headers headers request in
      request\<lparr>keep_alive_requested :=
        (if req_version request = HTTP_VERSION_11
         then \<not> ascii_case_equal (c_str (connection request)) ''close''
         else ascii_case_equal (c_str (connection request)) ''keep-alive'')\<rparr>)"

definition http_parse_request :: "string \<Rightarrow> http_request \<Rightarrow> http_parse_result \<times> http_request" where
  "http_parse_request raw request =
     (if raw = [] then (HTTP_PARSE_BAD_REQUEST, request)
      else
        let request = zero_request in
        case find_crlf raw of
          None \<Rightarrow> (HTTP_PARSE_BAD_REQUEST, request)
        | Some request_line_len \<Rightarrow>
            let request_line = take request_line_len raw in
            case memchr (CHR '' '') request_line of
              None \<Rightarrow> (HTTP_PARSE_BAD_REQUEST, request)
            | Some first_space \<Rightarrow>
                let target_on = drop (first_space + 1) request_line in
                case memchr (CHR '' '') target_on of
                  None \<Rightarrow> (HTTP_PARSE_BAD_REQUEST, request)
                | Some target_len \<Rightarrow>
                    let version = drop (target_len + 1) target_on;
                        target = take target_len target_on;
                        path_len = (case memchr (CHR ''?'') target of
                                      None \<Rightarrow> target_len | Some query_start \<Rightarrow> query_start)
                    in
                    if target_len = 0 then (HTTP_PARSE_BAD_REQUEST, request)
                    else if first_space = 0 \<or> version = [] then (HTTP_PARSE_BAD_REQUEST, request)
                    else if path_len = 0 then (HTTP_PARSE_BAD_REQUEST, request)
                    else
                      let request = request\<lparr>
                            method_text := copy_bounded (method_text request) (take first_space raw),
                            path := copy_bounded (path request) (take path_len target),
                            version_text := copy_bounded (version_text request) version\<rparr>;
                          request = request\<lparr>req_method := parse_method (method_text request),
                            req_version := parse_version (version_text request)\<rparr>
                      in
                      if req_version request = HTTP_VERSION_UNKNOWN
                      then (HTTP_PARSE_BAD_REQUEST, request)
                      else (HTTP_PARSE_OK, finish_request (drop (request_line_len + 2) raw) request))"

definition http_should_keep_alive :: "http_request option \<Rightarrow> bool" where
  "http_should_keep_alive request =
     (case request of None \<Rightarrow> False | Some r \<Rightarrow> keep_alive_requested r)"

definition http_status_text :: "int \<Rightarrow> string" where
  "http_status_text status_code =
     (if status_code = 200 then ''OK''
      else if status_code = 206 then ''Partial Content''
      else if status_code = 400 then ''Bad Request''
      else if status_code = 403 then ''Forbidden''
      else if status_code = 404 then ''Not Found''
      else if status_code = 416 then ''Range Not Satisfiable''
      else if status_code = 500 then ''Internal Server Error''
      else if status_code = 501 then ''Not Implemented''
      else if status_code = 503 then ''Service Unavailable''
      else ''Unknown'')"

section \<open>Lemmas: bounded copies and comparisons\<close>

lemma length_copy_bounded [simp]: "dest \<noteq> [] \<Longrightarrow> length (copy_bounded dest src) = length dest"
  by (auto simp: copy_bounded_def Let_def length_memcpy_at)

lemma copy_bounded_decomp:
  assumes "dest \<noteq> []"
  shows "\<exists>rest. copy_bounded dest src = take (length dest - 1) src @ NUL # rest"
proof -
  define n where "n = (if length src \<ge> length dest then length dest - 1 else length src)"
  have n: "n < length dest" "take n src = take (length dest - 1) src" "length (take n src) = n"
    using assms by (auto simp: n_def)
  obtain d ds where d: "drop n dest = d # ds" using n(1) by (cases "drop n dest") auto
  have "copy_bounded dest src = (take n src @ drop n dest)[n := NUL]"
    using n(3) by (simp add: copy_bounded_def n_def memcpy_at_def Let_def)
  also have "\<dots> = take n src @ NUL # ds"
    using n(3) d by (simp add: list_update_append)
  finally show ?thesis using n(2) by auto
qed

lemma c_str_copy_bounded [simp]:
  "dest \<noteq> [] \<Longrightarrow> c_str (copy_bounded dest src) = c_str (take (length dest - 1) src)"
  using copy_bounded_decomp [of dest src] by auto

lemma NUL_in_copy_bounded [simp]: "dest \<noteq> [] \<Longrightarrow> NUL \<in> set (copy_bounded dest src)"
  using copy_bounded_decomp [of dest src] by auto

lemma ascii_case_equal_iff: "ascii_case_equal left right \<longleftrightarrow> map tolower left = map tolower right"
  by (induction left right rule: ascii_case_equal.induct) auto

lemma case_equal_loop_iff:
  "length bs = length expected \<Longrightarrow>
   case_equal_loop bs expected \<longleftrightarrow> map tolower bs = map tolower expected"
  by (induction bs expected rule: case_equal_loop.induct) auto

lemma ascii_case_equal_bounded_iff:
  "ascii_case_equal_bounded bs expected \<longleftrightarrow> map tolower bs = map tolower expected"
  by (auto simp: ascii_case_equal_bounded_def case_equal_loop_iff dest: map_eq_imp_length_eq)

section \<open>Lemmas: the end of a line\<close>

definition has_crlf :: "string \<Rightarrow> bool" where
  "has_crlf bs \<longleftrightarrow> sublist crlf bs"

lemma has_crlf_Cons: "has_crlf (a # b # bs) \<longleftrightarrow> (a = CR \<and> b = LF) \<or> has_crlf (b # bs)"
  by (auto simp: has_crlf_def sublist_Cons_right)

lemma has_crlf_short [simp]: "\<not> has_crlf []" "\<not> has_crlf [c]"
  by (auto simp: has_crlf_def sublist_Cons_right)

lemma no_CR_no_crlf: "CR \<notin> set bs \<Longrightarrow> \<not> has_crlf bs"
  by (auto simp: has_crlf_def sublist_def)

lemma no_CR_no_crlf_snoc: "CR \<notin> set bs \<Longrightarrow> \<not> has_crlf (bs @ [CR])"
proof (induction bs)
  case (Cons b bs)
  then show ?case by (cases "bs @ [CR]") (auto simp: has_crlf_Cons)
qed simp

lemma find_crlf_None: "find_crlf bs = None \<longleftrightarrow> \<not> has_crlf bs"
  by (induction bs rule: find_crlf.induct) (auto simp: has_crlf_Cons)

lemma find_crlf_Some_iff:
  "find_crlf bs = Some n \<longleftrightarrow>
   (\<exists>rest. bs = take n bs @ crlf @ rest \<and> n \<le> length bs \<and> \<not> has_crlf (take n bs @ [CR]))"
proof (induction bs arbitrary: n rule: find_crlf.induct)
  case (1 a b bs)
  show ?case
  proof (cases "a = CR \<and> b = LF")
    case True
    then show ?thesis
      by (cases n; cases "n - 1") (auto simp: has_crlf_Cons)
  next
    case False
    then have step: "find_crlf (a # b # bs) = Some n \<longleftrightarrow> (\<exists>m. n = Suc m \<and> find_crlf (b # bs) = Some m)"
      by auto
    have "\<not> has_crlf (a # take m (b # bs) @ [CR]) \<longleftrightarrow> \<not> has_crlf (take m (b # bs) @ [CR])" for m
      using False by (cases m) (auto simp: has_crlf_Cons)
    with step 1 [OF False] False show ?thesis
      by (cases n) auto
  qed
qed (auto simp: take_Cons split: nat.splits)

lemma find_crlf_SomeD:
  assumes "find_crlf bs = Some n"
  shows "bs = take n bs @ crlf @ drop (n + 2) bs" "n + 2 \<le> length bs"
    "\<not> has_crlf (take n bs @ [CR])"
proof -
  from assms obtain rest where r: "bs = take n bs @ crlf @ rest" "n \<le> length bs"
    and c: "\<not> has_crlf (take n bs @ [CR])"
    by (auto simp: find_crlf_Some_iff)
  from r have l: "length (take n bs) = n" by simp
  have "drop (n + 2) bs = drop (n + 2) (take n bs @ crlf @ rest)" using r(1) by simp
  also have "\<dots> = rest" using l by simp
  finally show "bs = take n bs @ crlf @ drop (n + 2) bs" using r(1) by simp
  have "length bs = n + 2 + length rest" using arg_cong [OF r(1), of length] l by simp
  then show "n + 2 \<le> length bs" by simp
  show "\<not> has_crlf (take n bs @ [CR])" by (rule c)
qed

lemma find_crlf_append: "\<not> has_crlf (line @ [CR]) \<Longrightarrow> find_crlf (line @ crlf @ rest) = Some (length line)"
  by (subst find_crlf_Some_iff) auto

section \<open>Lemmas: numbers\<close>

definition dec_from :: "nat \<Rightarrow> string \<Rightarrow> nat" where
  "dec_from v s = foldl (\<lambda>v c. 10 * v + digit_value c) v s"

lemma dec_from_simps [simp]:
  "dec_from v [] = v"
  "dec_from v (c # s) = dec_from (10 * v + digit_value c) s"
  by (simp_all add: dec_from_def)

lemma dec_from_0 [simp]: "dec_from 0 s = dec_value s"
  by (simp add: dec_from_def dec_value_def)

lemma dec_from_ge: "v \<le> dec_from v s"
proof (induction s arbitrary: v)
  case (Cons c s)
  have "v \<le> 10 * v + digit_value c" by simp
  also have "\<dots> \<le> dec_from (10 * v + digit_value c) s" by (rule Cons.IH)
  finally show ?case by simp
qed simp

lemma div_10_less_iff: "d < N \<Longrightarrow> (N - 1 - d) div 10 < p \<longleftrightarrow> N \<le> p * 10 + d" for d N p :: nat
  by (subst div_less_iff_less_mult) auto

lemma overflow_check_iff:
  assumes "d < 10"
  shows "p > (SIZE_MAX - of_nat d) div 10 \<longleftrightarrow> 2 ^ 64 \<le> unat p * 10 + d"
proof -
  have d: "unat (of_nat d :: size_t) = d"
    using assms by (simp add: unat_of_nat)
  have "unat (SIZE_MAX - of_nat d) = 2 ^ 64 - 1 - d"
    using assms by (subst unat_sub) (simp_all add: SIZE_MAX_def d unsigned_minus_1_eq_mask mask_eq_exp_minus_1 word_le_nat_alt)
  then have "unat ((SIZE_MAX - of_nat d) div 10) = (2 ^ 64 - 1 - d) div 10"
    by (simp add: unat_div_distrib)
  then have "p > (SIZE_MAX - of_nat d) div 10 \<longleftrightarrow> (2 ^ 64 - 1 - d) div 10 < unat p"
    by (simp add: word_less_nat_alt)
  also have "\<dots> \<longleftrightarrow> 2 ^ 64 \<le> unat p * 10 + d"
    using assms by (intro div_10_less_iff) simp
  finally show ?thesis .
qed

lemma unat_next_digit:
  assumes "unat p * 10 + d < 2 ^ 64"
  shows "unat (p * 10 + of_nat d :: size_t) = unat p * 10 + d"
proof -
  have "unat (p * 10 + of_nat d :: size_t) = unat (of_nat (unat p * 10 + d) :: size_t)"
    by simp
  also have "\<dots> = unat p * 10 + d"
    using assms by (subst unat_of_nat) simp
  finally show ?thesis .
qed

lemma parse_digits_Some_iff:
  "parse_digits p s = Some v \<longleftrightarrow>
   list_all isdigit s \<and> dec_from (unat p) s < 2 ^ 64 \<and> unat v = dec_from (unat p) s"
proof (induction s arbitrary: p)
  case Nil
  show ?case using unsigned_less [of p, where 'a = nat] by (auto simp: word_unat_eq_iff)
next
  case (Cons c s)
  show ?case
  proof (cases "isdigit c")
    case False
    then show ?thesis by simp
  next
    case True
    note d = digit_value_less [OF True]
    show ?thesis
    proof (cases "2 ^ 64 \<le> unat p * 10 + digit_value c")
      case True
      moreover have "unat p * 10 + digit_value c \<le> dec_from (unat p) (c # s)"
        using dec_from_ge [of "10 * unat p + digit_value c" s] by (simp add: mult.commute)
      ultimately show ?thesis using overflow_check_iff [OF d, of p] by auto
    next
      case False
      then show ?thesis using \<open>isdigit c\<close> overflow_check_iff [OF d, of p] Cons.IH
        by (simp add: unat_next_digit mult.commute)
    qed
  qed
qed

lemma parse_size_token_Some_iff:
  "parse_size_token s = Some v \<longleftrightarrow>
   s \<noteq> [] \<and> list_all isdigit s \<and> dec_value s < 2 ^ 64 \<and> unat v = dec_value s"
  by (simp add: parse_size_token_def parse_digits_Some_iff)

lemma parse_size_token_to_dec [simp]: "parse_size_token (to_dec (unat v)) = Some v"
  using unsigned_less [of v, where 'a = nat] by (simp add: parse_size_token_Some_iff)

section \<open>Lemmas: the Range header\<close>

lemma skip_spaces_decomp: "\<exists>pre. s = pre @ skip_spaces s \<and> set pre \<subseteq> {CHR '' '', TAB}"
proof (induction s rule: skip_spaces.induct)
  case (1 c s)
  show ?case
  proof (cases "c = CHR '' '' \<or> c = TAB")
    case True
    with 1 obtain pre where "s = pre @ skip_spaces s" "set pre \<subseteq> {CHR '' '', TAB}" by blast
    with True show ?thesis by (intro exI [of _ "c # pre"]) auto
  next
    case False
    then show ?thesis by (intro exI [of _ "[]"]) auto
  qed
qed simp

lemma skip_spaces_append:
  "set pre \<subseteq> {CHR '' '', TAB} \<Longrightarrow> s = [] \<or> hd s \<notin> {CHR '' '', TAB} \<Longrightarrow> skip_spaces (pre @ s) = s"
  by (induction pre) (cases s; auto)+

lemma trim_trailing_span_decomp:
  "\<exists>post. s = trim_trailing_span s @ post \<and> (\<forall>c \<in> set post. is_trailing_space c)"
proof (intro exI conjI)
  show "s = trim_trailing_span s @ rev (takeWhile is_trailing_space (rev s))"
    by (metis rev_append rev_rev_ident takeWhile_dropWhile_id trim_trailing_span_def)
qed (auto dest: set_takeWhileD)

lemma trim_trailing_span_append:
  assumes "\<forall>c \<in> set post. is_trailing_space c" "s = [] \<or> \<not> is_trailing_space (last s)"
  shows "trim_trailing_span (s @ post) = s"
proof -
  have "dropWhile is_trailing_space (rev post @ rev s) = dropWhile is_trailing_space (rev s)"
    using assms(1) by (intro dropWhile_append2) auto
  also have "\<dots> = rev s"
    using assms(2) by (cases s rule: rev_cases) auto
  finally show ?thesis by (simp add: trim_trailing_span_def)
qed

text \<open>
  The byte ranges the parser understands, as an abstract grammar: optional blanks around
  the unit \<^verbatim>\<open>bytes=\<close> (in any case) and one range, a suffix, an open or a closed one.
\<close>

datatype range_spec = Suffix size_t | From size_t | FromTo size_t size_t

definition denotes_num :: "string \<Rightarrow> size_t \<Rightarrow> bool" where
  "denotes_num s n \<longleftrightarrow> s \<noteq> [] \<and> list_all isdigit s \<and> dec_value s = unat n"

fun range_body :: "string \<Rightarrow> range_spec \<Rightarrow> bool" where
  "range_body s (Suffix n) \<longleftrightarrow> (\<exists>ds. s = CHR ''-'' # ds \<and> denotes_num ds n \<and> n \<noteq> 0)"
| "range_body s (From n) \<longleftrightarrow> (\<exists>ds. s = ds @ ''-'' \<and> denotes_num ds n)"
| "range_body s (FromTo m n) \<longleftrightarrow>
     (\<exists>ds es. s = ds @ CHR ''-'' # es \<and> denotes_num ds m \<and> denotes_num es n)"

definition range_value :: "string \<Rightarrow> range_spec \<Rightarrow> bool" where
  "range_value s spec \<longleftrightarrow>
     (\<exists>pre unit body post. s = pre @ unit @ body @ post \<and> set pre \<subseteq> {CHR '' '', TAB} \<and>
        (\<forall>c \<in> set post. is_trailing_space c) \<and> map tolower unit = bytes_unit \<and> range_body body spec)"

fun apply_range :: "range_spec \<Rightarrow> http_request \<Rightarrow> http_request" where
  "apply_range (Suffix n) r = r\<lparr>has_range := True, range_is_suffix := True, range_start := n\<rparr>"
| "apply_range (From n) r = r\<lparr>has_range := True, range_start := n\<rparr>"
| "apply_range (FromTo m n) r =
     r\<lparr>has_range := True, range_start := m, range_end_provided := True, range_end := n\<rparr>"

lemma denotes_num_iff: "denotes_num s n \<longleftrightarrow> parse_size_token s = Some n"
  using unsigned_less [of n, where 'a = nat]
  by (auto simp: denotes_num_def parse_size_token_Some_iff)

lemma denotes_num_chars:
  assumes "denotes_num s n"
  shows "CHR ''-'' \<notin> set s \<and> CHR '','' \<notin> set s \<and> s \<noteq> [] \<and> \<not> is_trailing_space (last s)"
proof -
  from assms have d: "s \<noteq> []" "list_all isdigit s" by (auto simp: denotes_num_def)
  then have "isdigit (last s)" by (auto simp: list_all_iff)
  then have "\<not> is_trailing_space (last s)"
    by (auto simp: is_trailing_space_def)
  with d show ?thesis by (auto simp: list_all_iff dest: bspec)
qed

lemma range_body_chars:
  assumes "range_body body spec"
  shows "body \<noteq> []" "CHR '','' \<notin> set body" "\<not> is_trailing_space (last body)"
  using assms
  by (cases spec; auto dest!: denotes_num_chars simp: is_trailing_space_def)+

lemma length_bytes_unit [simp]: "length bytes_unit = 6"
  by (simp add: bytes_unit_def)

lemma tolower_bytes_unit [simp]: "map tolower bytes_unit = bytes_unit"
  by (simp add: bytes_unit_def tolower_def byte_def)

lemma bytes_unitD:
  assumes "map tolower unit = bytes_unit"
  shows "length unit = 6" "unit \<noteq> []" "hd unit \<notin> {CHR '' '', TAB}"
proof -
  from arg_cong [OF assms, of length] show l: "length unit = 6" by simp
  then show "unit \<noteq> []" by auto
  with assms have "tolower (hd unit) = CHR ''b''" by (cases unit) (auto simp: bytes_unit_def)
  then show "hd unit \<notin> {CHR '' '', TAB}" by (auto simp: tolower_def byte_def)
qed

text \<open>The parser on the bytes after the unit.\<close>

lemma parse_range_header_body:
  assumes "skip_spaces (trim_trailing_span value) = unit @ body" "map tolower unit = bytes_unit"
  shows "parse_range_header value r =
    (if body = [] then r
     else if CHR '','' \<in> set body then r
     else case memchr (CHR ''-'') body of
         None \<Rightarrow> r
       | Some dash \<Rightarrow>
           if dash = 0 then
             (case parse_size_token (drop (dash + 1) body) of
                None \<Rightarrow> r
              | Some n \<Rightarrow> if n = 0 then r else apply_range (Suffix n) r)
           else
             (case parse_size_token (take dash body) of
                None \<Rightarrow> r
              | Some m \<Rightarrow>
                  if drop (dash + 1) body = [] then apply_range (From m) r
                  else (case parse_size_token (drop (dash + 1) body) of
                      None \<Rightarrow> r\<lparr>range_start := m, has_range := False\<rparr>
                    | Some n \<Rightarrow> apply_range (FromTo m n) r)))"
  using assms bytes_unitD(1) [OF assms(2)]
  by (simp add: parse_range_header_def ascii_case_equal_bounded_iff Let_def cong: option.case_cong if_cong)

lemma parse_range_header_other:
  assumes "\<nexists>unit body. skip_spaces (trim_trailing_span value) = unit @ body \<and> map tolower unit = bytes_unit"
  shows "parse_range_header value r = r"
proof -
  define span where "span = skip_spaces (trim_trailing_span value)"
  have "map tolower (take 6 span) \<noteq> bytes_unit"
    using assms append_take_drop_id [of 6 span] span_def by metis
  then show ?thesis
    by (simp add: parse_range_header_def span_def [symmetric] ascii_case_equal_bounded_iff Let_def)
qed

lemma parse_range_header_complete:
  assumes "range_value value spec"
  shows "parse_range_header value r = apply_range spec r"
proof -
  from assms obtain pre unit body post where v: "value = pre @ unit @ body @ post"
    and pre: "set pre \<subseteq> {CHR '' '', TAB}" and post: "\<forall>c \<in> set post. is_trailing_space c"
    and unit: "map tolower unit = bytes_unit" and body: "range_body body spec"
    by (auto simp: range_value_def)
  note chars = range_body_chars [OF body]
  have "trim_trailing_span value = pre @ unit @ body"
    using trim_trailing_span_append [OF post, of "pre @ unit @ body"] chars v by simp
  then have "skip_spaces (trim_trailing_span value) = unit @ body"
    using skip_spaces_append [OF pre, of "unit @ body"] bytes_unitD [OF unit] by simp
  note p = parse_range_header_body [OF this unit, of r]
  show ?thesis
  proof (cases spec)
    case (Suffix n)
    with body p chars show ?thesis by (auto simp: denotes_num_iff)
  next
    case (From n)
    with body obtain ds where ds: "body = ds @ ''-''" "denotes_num ds n" by auto
    with p chars From denotes_num_chars [OF ds(2)] show ?thesis by (auto simp: denotes_num_iff)
  next
    case (FromTo m n)
    with body obtain ds es where ds: "body = ds @ CHR ''-'' # es" "denotes_num ds m" "denotes_num es n"
      by auto
    with p chars FromTo denotes_num_chars [OF ds(2)] denotes_num_chars [OF ds(3)]
    show ?thesis by (auto simp: denotes_num_iff)
  qed
qed

lemma range_value_spanI:
  assumes "skip_spaces (trim_trailing_span value) = unit @ body" "map tolower unit = bytes_unit"
    "range_body body spec"
  shows "range_value value spec"
proof -
  obtain post where post: "value = trim_trailing_span value @ post" "\<forall>c \<in> set post. is_trailing_space c"
    using trim_trailing_span_decomp by blast
  obtain pre where pre: "trim_trailing_span value = pre @ skip_spaces (trim_trailing_span value)"
    "set pre \<subseteq> {CHR '' '', TAB}"
    using skip_spaces_decomp by blast
  have "value = pre @ unit @ body @ post"
    using post(1) pre(1) assms(1) by (metis append.assoc)
  with pre(2) post(2) assms(2,3) show ?thesis
    unfolding range_value_def by blast
qed

lemma range_body_intros:
  "memchr (CHR ''-'') body = Some 0 \<Longrightarrow> parse_size_token (drop (Suc 0) body) = Some n \<Longrightarrow> n \<noteq> 0 \<Longrightarrow>
     range_body body (Suffix n)"
  "memchr (CHR ''-'') body = Some d \<Longrightarrow> parse_size_token (take d body) = Some m \<Longrightarrow> length body \<le> Suc d \<Longrightarrow>
     range_body body (From m)"
  "memchr (CHR ''-'') body = Some d \<Longrightarrow> parse_size_token (take d body) = Some m \<Longrightarrow>
     parse_size_token (drop (Suc d) body) = Some n \<Longrightarrow> range_body body (FromTo m n)"
proof -
  assume "memchr (CHR ''-'') body = Some 0" "parse_size_token (drop (Suc 0) body) = Some n" "n \<noteq> 0"
  moreover from this(1) have "body = CHR ''-'' # drop (Suc 0) body"
    by (auto dest: memchr_SomeD)
  ultimately show "range_body body (Suffix n)"
    unfolding range_body.simps denotes_num_iff by blast
next
  assume d: "memchr (CHR ''-'') body = Some d" "parse_size_token (take d body) = Some m" "length body \<le> Suc d"
  from memchr_SomeD [OF d(1)] d(3) have "body = take d body @ ''-''" by auto
  with d(2) show "range_body body (From m)"
    unfolding range_body.simps denotes_num_iff by blast
next
  assume d: "memchr (CHR ''-'') body = Some d" "parse_size_token (take d body) = Some m"
    "parse_size_token (drop (Suc d) body) = Some n"
  from memchr_SomeD [OF d(1)] have "body = take d body @ CHR ''-'' # drop (Suc d) body" by auto
  with d(2,3) show "range_body body (FromTo m n)"
    unfolding range_body.simps denotes_num_iff by blast
qed

lemma parse_range_header_sound:
  assumes "\<not> has_range r" "has_range (parse_range_header value r)"
  shows "\<exists>spec. range_value value spec"
proof (cases "\<exists>unit body. skip_spaces (trim_trailing_span value) = unit @ body \<and> map tolower unit = bytes_unit")
  case False
  with assms show ?thesis by (simp add: parse_range_header_other)
next
  case True
  then obtain unit body where u: "skip_spaces (trim_trailing_span value) = unit @ body"
    "map tolower unit = bytes_unit" by blast
  have "\<exists>spec. range_body body spec"
    using assms unfolding parse_range_header_body [OF u]
    by (auto split: if_splits option.splits simp del: memchr_None range_body.simps
        dest: range_body_intros)
  with range_value_spanI [OF u] show ?thesis by blast
qed

section \<open>Lemmas: header lines\<close>

text \<open>The header lines of a block, up to the first empty line or an unfinished one.\<close>

function header_lines :: "string \<Rightarrow> string list" where
  "header_lines s =
     (case find_crlf s of
        None \<Rightarrow> []
      | Some n \<Rightarrow> if n = 0 then [] else take n s # header_lines (drop (n + 2) s))"
  by pat_completeness auto
termination
  by (relation "measure length") (auto dest: find_crlf_SomeD(2))

declare header_lines.simps [simp del]

lemma parse_headers_fold: "parse_headers s r = fold parse_header_line (header_lines s) r"
proof (induction s r rule: parse_headers.induct)
  case (1 s r)
  then show ?case
    by (subst parse_headers.simps, subst header_lines.simps) (simp split: option.split)
qed

lemma header_lines_simps [simp]:
  "header_lines (crlf @ rest) = []"
  "line \<noteq> [] \<Longrightarrow> \<not> has_crlf (line @ [CR]) \<Longrightarrow>
   header_lines (line @ crlf @ rest) = line # header_lines rest"
  by (subst header_lines.simps, simp) (subst header_lines.simps, simp add: find_crlf_append del: append_Cons)

text \<open>The fields a header line may change, and the arrays' shape.\<close>

definition wf_request :: "http_request \<Rightarrow> bool" where
  "wf_request r \<longleftrightarrow>
     length (method_text r) = HTTP_METHOD_TEXT_MAX \<and> NUL \<in> set (method_text r) \<and>
     length (path r) = HTTP_PATH_MAX \<and> NUL \<in> set (path r) \<and>
     length (version_text r) = HTTP_VERSION_TEXT_MAX \<and> NUL \<in> set (version_text r) \<and>
     length (connection r) = HTTP_CONNECTION_TEXT_MAX \<and> NUL \<in> set (connection r)"

definition same_request_line :: "http_request \<Rightarrow> http_request \<Rightarrow> bool" where
  "same_request_line r r' \<longleftrightarrow>
     method_text r = method_text r' \<and> path r = path r' \<and> version_text r = version_text r' \<and>
     req_method r = req_method r' \<and> req_version r = req_version r'"

lemma wf_zero_request [simp, wf]: "wf_request zero_request"
  by (simp add: wf_request_def zero_request_def http_sizes)

lemma parse_range_header_frame [frame]:
  "same_request_line (parse_range_header value r) r"
  "connection (parse_range_header value r) = connection r"
  "keep_alive_requested (parse_range_header value r) = keep_alive_requested r"
  by (auto simp: parse_range_header_def same_request_line_def Let_def split: option.splits)

lemma parse_header_line_frame [frame]: "same_request_line (parse_header_line line r) r"
  using parse_range_header_frame(1)
  by (auto simp: parse_header_line_def Let_def same_request_line_def split: option.splits)

lemma same_request_line_trans:
  "same_request_line a b \<Longrightarrow> same_request_line b c \<Longrightarrow> same_request_line a c"
  by (simp add: same_request_line_def)

lemma fold_header_lines_frame: "same_request_line (fold parse_header_line ls r) r"
proof (induction ls arbitrary: r)
  case Nil
  show ?case by (simp add: same_request_line_def)
next
  case (Cons l ls)
  show ?case using same_request_line_trans [OF Cons.IH parse_header_line_frame] by simp
qed

lemma parse_headers_frame [frame]: "same_request_line (parse_headers s r) r"
  by (simp add: parse_headers_fold fold_header_lines_frame)

lemma wf_request_connection:
  "wf_request r \<Longrightarrow> same_request_line r' r \<Longrightarrow>
   connection r' = connection r \<or> connection r' = copy_bounded (connection r) v \<Longrightarrow> wf_request r'"
  by (auto simp: wf_request_def same_request_line_def http_sizes length_greater_0_conv [symmetric])

lemma parse_header_line_wf [wf]:
  assumes "wf_request r"
  shows "wf_request (parse_header_line line r)"
proof (rule wf_request_connection [OF assms parse_header_line_frame])
  show "connection (parse_header_line line r) = connection r \<or>
    connection (parse_header_line line r) = copy_bounded (connection r)
      (trim_trailing_span (skip_spaces (drop (the (memchr (CHR '':'') line) + 1) line)))"
    by (auto simp: parse_header_line_def Let_def parse_range_header_frame split: option.splits)
qed

lemma parse_headers_wf [wf]: "wf_request r \<Longrightarrow> wf_request (parse_headers s r)"
proof -
  have "wf_request r \<Longrightarrow> wf_request (fold parse_header_line ls r)" for ls
    by (induction ls arbitrary: r) (auto intro: wf)
  then show "wf_request r \<Longrightarrow> wf_request (parse_headers s r)" by (simp add: parse_headers_fold)
qed

lemma finish_request_wf [wf]: "wf_request r \<Longrightarrow> wf_request (finish_request s r)"
  using parse_headers_wf [of r s] by (simp add: finish_request_def Let_def wf_request_def)

lemma finish_request_frame [frame]: "same_request_line (finish_request s r) r"
  using parse_headers_frame [of s r] by (simp add: finish_request_def Let_def same_request_line_def)

section \<open>Lemmas: the request line\<close>

text \<open>
  An accepted request, written out: method, target and version separated by single spaces
  and ended by the first CRLF of the input, then the rest of the head.
\<close>

definition request_parts :: "string \<Rightarrow> string \<Rightarrow> string \<Rightarrow> string \<Rightarrow> string \<Rightarrow> bool" where
  "request_parts raw m t v rest \<longleftrightarrow>
     raw = m @ '' '' @ t @ '' '' @ v @ crlf @ rest \<and>
     \<not> has_crlf (m @ '' '' @ t @ '' '' @ v @ [CR]) \<and>
     CHR '' '' \<notin> set m \<and> CHR '' '' \<notin> set t \<and> m \<noteq> [] \<and> t \<noteq> [] \<and> hd t \<noteq> CHR ''?'' \<and> v \<noteq> []"

definition path_of_target :: "string \<Rightarrow> string" where
  "path_of_target t = takeWhile (\<lambda>c. c \<noteq> CHR ''?'') t"

definition request_line_fields :: "string \<Rightarrow> string \<Rightarrow> string \<Rightarrow> http_request" where
  "request_line_fields m t v =
     zero_request\<lparr>method_text := copy_bounded (method_text zero_request) m,
       path := copy_bounded (path zero_request) (path_of_target t),
       version_text := copy_bounded (version_text zero_request) v,
       req_method := parse_method (copy_bounded (method_text zero_request) m),
       req_version := parse_version (copy_bounded (version_text zero_request) v)\<rparr>"

lemma path_len_eq:
  "take (case memchr (CHR ''?'') t of None \<Rightarrow> length t | Some n \<Rightarrow> n) t = path_of_target t"
proof (cases "memchr (CHR ''?'') t")
  case None
  then have "path_of_target t = t"
    unfolding path_of_target_def by (subst takeWhile_eq_all_conv) auto
  with None show ?thesis by (simp del: memchr_None)
next
  case (Some n)
  note D = memchr_SomeD [OF Some]
  have "takeWhile (\<lambda>c. c \<noteq> CHR ''?'') (take n t @ CHR ''?'' # drop (Suc n) t) = take n t"
    using D by (subst takeWhile_append2) auto
  with D Some show ?thesis by (simp add: path_of_target_def)
qed

lemma path_of_target_Nil: "path_of_target t = [] \<longleftrightarrow> t = [] \<or> hd t = CHR ''?''"
  by (cases t) (auto simp: path_of_target_def)

lemma path_len_zero:
  "(case memchr (CHR ''?'') t of None \<Rightarrow> length t | Some n \<Rightarrow> n) = 0 \<longleftrightarrow> path_of_target t = []"
  by (cases t) (auto simp: path_of_target_def split: option.splits)

lemma http_parse_request_parts:
  assumes "request_parts raw m t v rest"
  shows "http_parse_request raw r0 =
    (let r = request_line_fields m t v in
     if req_version r = HTTP_VERSION_UNKNOWN then (HTTP_PARSE_BAD_REQUEST, r)
     else (HTTP_PARSE_OK, finish_request rest r))"
proof -
  define line where "line = m @ '' '' @ t @ '' '' @ v"
  from assms have raw: "raw = line @ crlf @ rest" and nc: "\<not> has_crlf (line @ [CR])"
    and sp: "CHR '' '' \<notin> set m" "CHR '' '' \<notin> set t" and ne: "m \<noteq> []" "t \<noteq> []" "hd t \<noteq> CHR ''?''" "v \<noteq> []"
    by (auto simp: request_parts_def line_def)
  have crlf_at: "find_crlf raw = Some (length line)" unfolding raw by (rule find_crlf_append [OF nc])
  have l: "take (length line) raw = line" "drop (length line + 2) raw = rest" "raw \<noteq> []"
    by (simp_all add: raw)
  have lm: "take (length m) raw = m" by (simp add: raw line_def)
  have first: "memchr (CHR '' '') line = Some (length m)"
    unfolding line_def using sp(1) by (simp add: memchr_append)
  have target: "drop (length m + 1) line = t @ '' '' @ v" by (simp add: line_def)
  have second: "memchr (CHR '' '') (t @ '' '' @ v) = Some (length t)"
    using sp(2) by (simp add: memchr_append)
  show ?thesis
    using ne l(3) path_of_target_Nil [of t] path_len_zero [of t]
    unfolding http_parse_request_def crlf_at option.case l lm Let_def first target second
    by (simp add: path_len_eq request_line_fields_def)
qed

lemma http_parse_request_OK_parts:
  assumes "fst (http_parse_request raw r0) = HTTP_PARSE_OK"
  shows "\<exists>m t v rest. request_parts raw m t v rest"
proof -
  from assms obtain n where n: "find_crlf raw = Some n"
    by (auto simp: http_parse_request_def Let_def split: option.splits if_splits)
  define line where "line = take n raw"
  from assms n obtain i where i: "memchr (CHR '' '') line = Some i"
    by (auto simp: http_parse_request_def Let_def line_def split: option.splits if_splits)
  define on where "on = drop (i + 1) line"
  from assms n i obtain j where j: "memchr (CHR '' '') on = Some j"
    by (auto simp: http_parse_request_def Let_def line_def on_def split: option.splits if_splits)
  note nD = find_crlf_SomeD [OF n] and iD = memchr_SomeD [OF i] and jD = memchr_SomeD [OF j]
  have lj: "length (take j on) = j" using jD by simp
  have c: "j \<noteq> 0" "i \<noteq> 0" "drop (j + 1) on \<noteq> []" "path_of_target (take j on) \<noteq> []"
    using assms n i j jD path_len_zero [of "take j on", unfolded lj]
    by (auto simp: http_parse_request_def Let_def line_def on_def split: if_splits)
  have line: "line = take i line @ '' '' @ take j on @ '' '' @ drop (j + 1) on"
    using iD jD by (simp add: on_def)
  then have "raw = take i line @ '' '' @ take j on @ '' '' @ drop (j + 1) on @ crlf @ drop (n + 2) raw"
    using nD(1) line_def by (metis append.assoc)
  moreover have "\<not> has_crlf (take i line @ '' '' @ take j on @ '' '' @ drop (j + 1) on @ [CR])"
    using nD(3) line line_def by (metis append.assoc)
  moreover have "take i line \<noteq> []" "take j on \<noteq> []" using c iD jD by auto
  ultimately have "request_parts raw (take i line) (take j on) (drop (j + 1) on) (drop (n + 2) raw)"
    using iD jD c path_of_target_Nil [of "take j on"] by (simp add: request_parts_def)
  then show ?thesis by blast
qed

lemma zero_request_arrays [simp]:
  "length (method_text zero_request) = 16" "length (path zero_request) = 1024"
  "length (version_text zero_request) = 16" "length (connection zero_request) = 32"
  "method_text zero_request \<noteq> []" "path zero_request \<noteq> []" "version_text zero_request \<noteq> []"
  "connection zero_request \<noteq> []"
  by (simp_all add: zero_request_def http_sizes flip: length_greater_0_conv)

lemma zero_request_fields_wf [wf]:
  "wf_request (zero_request\<lparr>method_text := copy_bounded (method_text zero_request) m,
     path := copy_bounded (path zero_request) p, version_text := copy_bounded (version_text zero_request) v,
     req_method := a, req_version := b\<rparr>)"
  using wf_zero_request by (simp add: wf_request_def)

lemma http_parse_request_wf [wf]:
  "raw = [] \<longrightarrow> wf_request r0 \<Longrightarrow> wf_request (snd (http_parse_request raw r0))"
  by (auto simp: http_parse_request_def Let_def split: option.split intro: wf)

section \<open>Lemmas: the Connection header\<close>

definition header_value :: "string \<Rightarrow> string \<Rightarrow> string option" where
  "header_value name line =
     (case memchr (CHR '':'') line of
        None \<Rightarrow> None
      | Some colon \<Rightarrow>
          if map tolower (take colon line) = map tolower name
          then Some (trim_trailing_span (skip_spaces (drop (colon + 1) line))) else None)"

definition connection_options :: "string list \<Rightarrow> string list" where
  "connection_options ls = List.map_filter (header_value ''Connection'') ls"

lemma connection_options_simps [simp]:
  "connection_options [] = []"
  "connection_options (l # ls) =
     (case header_value ''Connection'' l of None \<Rightarrow> [] | Some v \<Rightarrow> [v]) @ connection_options ls"
  by (simp_all add: connection_options_def List.map_filter_def split: option.split)

lemma connection_parse_header_line:
  "connection r \<noteq> [] \<Longrightarrow>
   c_str (connection (parse_header_line l r)) =
     (case header_value ''Connection'' l of None \<Rightarrow> c_str (connection r)
      | Some v \<Rightarrow> c_str (take (length (connection r) - 1) v)) \<and>
   length (connection (parse_header_line l r)) = length (connection r)"
  by (auto simp: parse_header_line_def header_value_def Let_def ascii_case_equal_bounded_iff
      parse_range_header_frame simp del: memchr_None split: option.split)

lemma connection_fold:
  "connection r \<noteq> [] \<Longrightarrow>
   c_str (connection (fold parse_header_line ls r)) =
     (if connection_options ls = [] then c_str (connection r)
      else c_str (take (length (connection r) - 1) (last (connection_options ls))))"
proof (induction ls arbitrary: r)
  case Nil
  show ?case by simp
next
  case (Cons l ls)
  note step = connection_parse_header_line [OF Cons.prems, of l]
  then have ne: "connection (parse_header_line l r) \<noteq> []"
    using Cons.prems by (metis length_0_conv)
  show ?case
    using Cons.IH [OF ne] step by (auto split: option.splits)
qed

text \<open>What the keep-alive decision reads: the last Connection header, cut to the array.\<close>

definition connection_text :: "string list \<Rightarrow> string" where
  "connection_text ls =
     (if connection_options ls = [] then [] else c_str (take 31 (last (connection_options ls))))"

lemma finish_request_keep_alive:
  assumes "wf_request r" "c_str (connection r) = []"
  shows "keep_alive_requested (finish_request s r) \<longleftrightarrow>
    (if req_version r = HTTP_VERSION_11
     then map tolower (connection_text (header_lines s)) \<noteq> ''close''
     else map tolower (connection_text (header_lines s)) = ''keep-alive'')"
proof -
  have c: "connection r \<noteq> []" "length (connection r) = 32"
    using assms(1) by (auto simp: wf_request_def http_sizes)
  have v: "req_version (parse_headers s r) = req_version r"
    using parse_headers_frame [of s r] by (simp add: same_request_line_def)
  have t: "c_str (connection (parse_headers s r)) = connection_text (header_lines s)"
    using connection_fold [OF c(1), of "header_lines s"] assms(2) c(2)
    by (simp add: parse_headers_fold connection_text_def)
  show ?thesis
    by (simp add: finish_request_def Let_def v t ascii_case_equal_iff tolower_def byte_def)
qed

lemma request_line_fields_wf [wf]: "wf_request (request_line_fields m t v)"
  unfolding request_line_fields_def by (rule zero_request_fields_wf)

section \<open>Properties\<close>


text \<open>C14: What an accepted request holds: the method and the path (without its query) as
  C strings cut to their arrays, the decoded method and version, and the keep-alive decision
  taken from the last Connection header by the rule of the version.\<close>

theorem http_parse_request_fields:
  assumes "request_parts raw m t v rest" "fst (http_parse_request raw r0) = HTTP_PARSE_OK"
  shows "let r = snd (http_parse_request raw r0); conn = map tolower (connection_text (header_lines rest)) in
    c_str (path r) = c_str (take 1023 (path_of_target t)) \<and>
    c_str (method_text r) = c_str (take 15 m) \<and>
    req_method r = (if c_str (take 15 m) = ''GET'' then HTTP_METHOD_GET
      else if c_str (take 15 m) = ''HEAD'' then HTTP_METHOD_HEAD else HTTP_METHOD_UNSUPPORTED) \<and>
    req_version r = (if c_str (take 15 v) = ''HTTP/1.0'' then HTTP_VERSION_10 else HTTP_VERSION_11) \<and>
    keep_alive_requested r =
      (if c_str (take 15 v) = ''HTTP/1.0'' then conn = ''keep-alive'' else conn \<noteq> ''close'')"
proof -
  define f where "f = request_line_fields m t v"
  have ok: "req_version f \<noteq> HTTP_VERSION_UNKNOWN"
    using assms(2) unfolding http_parse_request_parts [OF assms(1)] f_def
    by (simp add: Let_def split: if_splits)
  then have r: "snd (http_parse_request raw r0) = finish_request rest f"
    unfolding http_parse_request_parts [OF assms(1)] f_def by (simp add: Let_def)
  have fields: "c_str (path f) = c_str (take 1023 (path_of_target t))"
    "c_str (method_text f) = c_str (take 15 m)"
    "req_method f = (if c_str (take 15 m) = ''GET'' then HTTP_METHOD_GET
      else if c_str (take 15 m) = ''HEAD'' then HTTP_METHOD_HEAD else HTTP_METHOD_UNSUPPORTED)"
    "req_version f = (if c_str (take 15 v) = ''HTTP/1.0'' then HTTP_VERSION_10 else HTTP_VERSION_11)"
    using ok by (simp_all add: f_def request_line_fields_def parse_method_def parse_version_def split: if_splits)
  have "c_str (connection f) = []"
    by (simp add: f_def request_line_fields_def zero_request_def)
  note ka = finish_request_keep_alive [OF request_line_fields_wf [of m t v, folded f_def] this, of rest]
  show ?thesis
    using finish_request_frame [of rest f] fields ka
    by (simp add: r Let_def same_request_line_def)
qed

lemma range_valueI:
  assumes "map tolower unit = bytes_unit" "range_body body spec"
  shows "range_value (unit @ body) spec"
  unfolding range_value_def
  using assms by (intro exI [of _ "[]"] exI [of _ unit] exI [of _ body]) simp

theorem http_parse_request_fields_witness:
  "let r = snd (http_parse_request (''GET /a?q HTTP/1.1'' @ crlf @ ''connection: Close'' @ crlf @ crlf) zero_request)
   in c_str (path r) = ''/a'' \<and> req_method r = HTTP_METHOD_GET \<and> \<not> keep_alive_requested r"
proof -
  define raw where "raw = ''GET /a?q HTTP/1.1'' @ crlf @ ''connection: Close'' @ crlf @ crlf"
  have p: "request_parts raw ''GET'' ''/a?q'' ''HTTP/1.1'' (''connection: Close'' @ crlf @ crlf)"
    by (simp add: request_parts_def raw_def has_crlf_Cons)
  have ok: "fst (http_parse_request raw zero_request) = HTTP_PARSE_OK"
    unfolding raw_def by code_simp
  have conn: "map tolower (connection_text (header_lines (''connection: Close'' @ crlf @ crlf))) = ''close''"
    by code_simp
  show ?thesis
    using http_parse_request_fields [OF p ok] conn
    by (simp add: Let_def raw_def [symmetric] path_of_target_def del: append_Cons)
qed

text \<open>C26: Memory safety of the parser: whatever bytes arrive, the four arrays of the request
  keep their sizes (no copy runs over an end) and stay NUL-terminated, on every return.\<close>

theorem http_parse_request_memory_safe:
  assumes "wf_request r0"
  shows "wf_request (snd (http_parse_request raw r0))"
  using assms by (intro http_parse_request_wf) simp

theorem http_parse_request_memory_safe_witness:
  "wf_request (snd (http_parse_request (''GET /a HTTP/1.0'' @ crlf @ crlf) zero_request))"
  by (rule http_parse_request_memory_safe [OF wf_zero_request])

text \<open>C27: The number parser accepts exactly the nonempty digit strings whose value fits a
  size_t, and returns that value: the check before each step catches every overflow and
  nothing else.\<close>

theorem parse_size_token_exact:
  "parse_size_token s = Some v \<longleftrightarrow>
   s \<noteq> [] \<and> (\<forall>c \<in> set s. isdigit c) \<and> dec_value s < 2 ^ 64 \<and> v = of_nat (dec_value s)"
proof -
  have "dec_value s < 2 ^ 64 \<Longrightarrow> unat v = dec_value s \<longleftrightarrow> v = of_nat (dec_value s)"
    by (simp add: word_unat_eq_iff unat_of_nat)
  then show ?thesis by (auto simp: parse_size_token_Some_iff list_all_iff)
qed

theorem parse_size_token_exact_witness:
  "parse_size_token ''18446744073709551615'' = Some SIZE_MAX \<and> parse_size_token ''18446744073709551616'' = None"
proof -
  have v: "dec_value ''18446744073709551615'' = 18446744073709551615"
    "dec_value ''18446744073709551616'' = 18446744073709551616"
    by (simp_all add: dec_value_def digit_value_def byte_def)
  have d: "\<forall>c \<in> set ''18446744073709551615''. isdigit c" by (simp add: isdigit_def byte_def)
  have "parse_size_token ''18446744073709551615'' = Some SIZE_MAX"
    using d by (subst parse_size_token_exact) (simp add: v SIZE_MAX_def)
  moreover have "parse_size_token ''18446744073709551616'' \<noteq> Some x" for x
    by (subst parse_size_token_exact) (simp add: v)
  ultimately show ?thesis by (cases "parse_size_token ''18446744073709551616''") auto
qed



text \<open>How a client prints the three forms of a range.\<close>

fun render_range :: "range_spec \<Rightarrow> string" where
  "render_range (Suffix n) = bytes_unit @ ''-'' @ to_dec (unat n)"
| "render_range (From n) = bytes_unit @ to_dec (unat n) @ ''-''"
| "render_range (FromTo m n) = bytes_unit @ to_dec (unat m) @ ''-'' @ to_dec (unat n)"

text \<open>The three forms of a range, printed and parsed, come back: for every pair of
  numbers the closed range, the open range and (unless zero) the suffix.\<close>

theorem parse_render_range:
  assumes "spec \<noteq> Suffix 0"
  shows "parse_range_header (render_range spec) r = apply_range spec r"
proof (rule parse_range_header_complete)
  have num: "denotes_num (to_dec (unat n)) n" for n :: size_t
    by (simp add: denotes_num_iff)
  have "range_body (drop 6 (render_range spec)) spec"
    using assms num by (cases spec) auto
  moreover have "render_range spec = bytes_unit @ drop 6 (render_range spec)"
    by (cases spec) simp_all
  ultimately show "range_value (render_range spec) spec"
    by (metis range_valueI tolower_bytes_unit)
qed

theorem parse_render_range_witness:
  "parse_range_header (render_range (FromTo 0 499)) zero_request = apply_range (FromTo 0 499) zero_request"
  by (rule parse_render_range) simp

text \<open>The range fields are not reset between headers: when a suffix header is followed by
  a closed range, the later header overwrites the number and leaves the suffix flag, so the
  request asks for a suffix as long as the later range's first position.\<close>

theorem repeated_range_headers_mix:
  assumes "range_value v1 (Suffix a)" "range_value v2 (FromTo m n)"
  shows "parse_range_header v2 (parse_range_header v1 r) =
    r\<lparr>has_range := True, range_is_suffix := True, range_start := m, range_end_provided := True, range_end := n\<rparr>"
  using assms by (simp add: parse_range_header_complete)

theorem repeated_range_headers_mix_witness:
  "(let r = parse_range_header ''bytes=2-3'' (parse_range_header ''bytes=-5'' zero_request)
    in range_is_suffix r \<and> range_start r = 2)"
proof -
  have num: "denotes_num ''5'' 5" "denotes_num ''2'' 2" "denotes_num ''3'' 3"
    by (simp_all add: denotes_num_def dec_value_def digit_value_def byte_def isdigit_def)
  have b1: "range_body (''-'' @ ''5'') (Suffix 5)" using num(1) by simp
  have b2: "range_body (''2'' @ CHR ''-'' # ''3'') (FromTo 2 3)" using num(2,3) unfolding range_body.simps by blast
  have v: "range_value ''bytes=-5'' (Suffix 5)" "range_value ''bytes=2-3'' (FromTo 2 3)"
    using range_valueI [OF tolower_bytes_unit b1] range_valueI [OF tolower_bytes_unit b2]
    by (simp_all add: bytes_unit_def)
  show ?thesis unfolding repeated_range_headers_mix [OF v] by (simp add: Let_def)
qed

text \<open>
  The method is compared as a C string, so a NUL byte hides the rest of the token: a first
  line whose method token is GET, NUL and junk is served as a GET request.
\<close>

lemma NUL_in_method_is_GET:
  "let (result, r) = http_parse_request (''GET'' @ [NUL] @ ''junk / HTTP/1.1'' @ crlf @ crlf) zero_request
   in result = HTTP_PARSE_OK \<and> req_method r = HTTP_METHOD_GET"
  by code_simp

end
