(* ===== verification/Builder.thy ===== *)
theory Builder
  imports Prelude "HOL-Library.While_Combinator"
begin

text \<open>
  The string builder of \<^verbatim>\<open>src/files.c\<close> (lines 11 to 149): a growing heap buffer, its appends
  and the two escapings written through it.

  \<open>string_builder\<close> has the fields of \<^verbatim>\<open>string_builder_t\<close>; its data is the whole heap block, a
  list as long as the capacity (the empty list for NULL), so that a write past the block
  would show as a longer list. The heap is a list of outcomes for the coming \<^verbatim>\<open>malloc\<close>,
  \<^verbatim>\<open>calloc\<close> and \<^verbatim>\<open>realloc\<close> calls: a theorem that holds for every list holds wherever the
  allocator gives up. Past the end of the list every allocation succeeds.

  The contract of an append is the locale \<open>appender\<close>; the four append functions interpret it.
\<close>

section \<open>The heap\<close>

type_synonym heap = "bool list"

fun allocate :: "heap \<Rightarrow> bool \<times> heap" where
  "allocate [] = (True, [])"
| "allocate (ok # heap) = (ok, heap)"

lemma allocate_Nil_heap: "snd (allocate []) = []"
  by simp

section \<open>The builder\<close>

record string_builder =
  builder_data :: string
  builder_length :: size_t
  builder_capacity :: size_t

definition empty_builder :: string_builder where
  "empty_builder = \<lparr>builder_data = [], builder_length = 0, builder_capacity = 0\<rparr>"

definition builder_destroy :: "string_builder \<Rightarrow> string_builder" where
  "builder_destroy b = b\<lparr>builder_data := [], builder_length := 0, builder_capacity := 0\<rparr>"

text \<open>
  The doubling loop. Its \<^verbatim>\<open>break\<close> leaves the capacity at what is required, which also ends the
  loop by its condition.
\<close>

definition grow_step :: "size_t \<Rightarrow> size_t \<Rightarrow> size_t" where
  "grow_step required capacity =
     (if capacity > (- 1) div 2 then required else capacity * 2)"

definition grow_capacity :: "size_t \<Rightarrow> size_t \<Rightarrow> size_t" where
  "grow_capacity required capacity = while (\<lambda>c. c < required) (grow_step required) capacity"

definition builder_reserve :: "size_t \<Rightarrow> string_builder \<Rightarrow> heap \<Rightarrow> bool \<times> string_builder \<times> heap" where
  "builder_reserve additional b heap =
     (if additional > (- 1) - builder_length b - 1 then (False, b, heap)
      else
        let required = builder_length b + additional + 1 in
        if required \<le> builder_capacity b then (True, b, heap)
        else
          let new_capacity = grow_capacity required
                (if builder_capacity b = 0 then 1024 else builder_capacity b);
              (grown, heap) = allocate heap
          in if \<not> grown then (False, b, heap)
             else (True,
               b\<lparr>builder_data := builder_data b @
                   replicate (unat new_capacity - length (builder_data b)) NUL,
                 builder_capacity := new_capacity\<rparr>, heap))"

definition builder_append_text :: "string \<Rightarrow> string_builder \<Rightarrow> heap \<Rightarrow> bool \<times> string_builder \<times> heap" where
  "builder_append_text s b heap =
     (let len = of_nat (length s) :: size_t;
          (ok, b, heap) = builder_reserve len b heap
      in if \<not> ok then (False, b, heap)
         else
           let data = memcpy_at (builder_data b) (unat (builder_length b)) s;
               new_length = builder_length b + len
           in (True, b\<lparr>builder_data := memcpy_at data (unat new_length) [NUL],
                 builder_length := new_length\<rparr>, heap))"

definition builder_append_char :: "char \<Rightarrow> string_builder \<Rightarrow> heap \<Rightarrow> bool \<times> string_builder \<times> heap" where
  "builder_append_char ch b heap =
     (let (ok, b, heap) = builder_reserve 1 b heap
      in if \<not> ok then (False, b, heap)
         else
           let data = memcpy_at (builder_data b) (unat (builder_length b)) [ch];
               new_length = builder_length b + 1
           in (True, b\<lparr>builder_data := memcpy_at data (unat new_length) [NUL],
                 builder_length := new_length\<rparr>, heap))"

fun builder_append_html_escaped :: "string \<Rightarrow> string_builder \<Rightarrow> heap \<Rightarrow> bool \<times> string_builder \<times> heap" where
  "builder_append_html_escaped [] b heap = (True, b, heap)"
| "builder_append_html_escaped (c # p) b heap =
     (let (ok, b, heap) =
        (if c = CHR ''&'' then builder_append_text ''&amp;'' b heap
         else if c = CHR ''<'' then builder_append_text ''&lt;'' b heap
         else if c = CHR ''>'' then builder_append_text ''&gt;'' b heap
         else if c = DQUOTE then builder_append_text ''&quot;'' b heap
         else builder_append_char c b heap)
      in if \<not> ok then (False, b, heap) else builder_append_html_escaped p b heap)"

definition is_url_unreserved :: "char \<Rightarrow> bool" where
  "is_url_unreserved ch \<longleftrightarrow>
     isalnum ch \<or> ch = CHR ''-'' \<or> ch = CHR ''.'' \<or> ch = CHR ''_'' \<or> ch = CHR ''~''"

definition hex_digits :: string where
  "hex_digits = ''0123456789ABCDEF''"

definition percent_encoded :: "char \<Rightarrow> string" where
  "percent_encoded c =
     [CHR ''%'', hex_digits ! (drop_bit 4 (byte c)), hex_digits ! (and (byte c) 15)]"

fun builder_append_url_escaped :: "string \<Rightarrow> string_builder \<Rightarrow> heap \<Rightarrow> bool \<times> string_builder \<times> heap" where
  "builder_append_url_escaped [] b heap = (True, b, heap)"
| "builder_append_url_escaped (c # p) b heap =
     (let (ok, b, heap) =
        (if is_url_unreserved c then builder_append_char c b heap
         else builder_append_text (percent_encoded c) b heap)
      in if \<not> ok then (False, b, heap) else builder_append_url_escaped p b heap)"

text \<open>A chain \<^verbatim>\<open>!a || !b || ...\<close> of appends: in order, up to the first that fails.\<close>

fun builder_chain ::
  "(string_builder \<Rightarrow> heap \<Rightarrow> bool \<times> string_builder \<times> heap) list \<Rightarrow>
   string_builder \<Rightarrow> heap \<Rightarrow> bool \<times> string_builder \<times> heap" where
  "builder_chain [] b heap = (True, b, heap)"
| "builder_chain (act # acts) b heap =
     (let (ok, b, heap) = act b heap
      in if \<not> ok then (False, b, heap) else builder_chain acts b heap)"

section \<open>The growth loop\<close>

lemma grow_step_less:
  assumes "c < required" "c \<noteq> 0"
  shows "unat c < unat (grow_step required c)" "grow_step required c \<noteq> 0"
    "unat (grow_step required c) \<le> max (unat required) (2 * unat c)"
proof -
  have half: "unat ((- 1 :: size_t) div 2) = 2 ^ 63 - 1"
    by (simp add: unat_div_distrib unsigned_minus_1_eq_mask mask_eq_exp_minus_1)
  have *: "unat c < unat (grow_step required c) \<and> grow_step required c \<noteq> 0 \<and>
     unat (grow_step required c) \<le> max (unat required) (2 * unat c)"
  proof (cases "c > (- 1) div 2")
    case True
    with assms show ?thesis by (auto simp: grow_step_def word_less_nat_alt)
  next
    case False
    then have "unat c \<le> 2 ^ 63 - 1" by (simp add: half word_less_nat_alt not_less)
    then have "unat (c * 2) = unat c * 2" by (subst unat_mult_lem [THEN iffD1]) auto
    moreover have "0 < unat c" using assms(2) by (simp add: unat_gt_0)
    ultimately show ?thesis using False by (auto simp: grow_step_def)
  qed
  then show "unat c < unat (grow_step required c)" "grow_step required c \<noteq> 0"
    "unat (grow_step required c) \<le> max (unat required) (2 * unat c)" by auto
qed

lemma grow_capacity_terminates:
  assumes "c \<noteq> 0"
  shows "\<exists>c'. while_option (\<lambda>c. c < required) (grow_step required) c = Some c'"
proof (rule measure_while_option_Some [where P = "\<lambda>c. c \<noteq> 0" and f = "\<lambda>c. unat required - unat c"])
  fix s :: size_t
  assume "s \<noteq> 0" "s < required"
  with grow_step_less [of s required]
  show "grow_step required s \<noteq> 0 \<and> unat required - unat (grow_step required s) < unat required - unat s"
    by (simp add: word_less_nat_alt)
qed (rule assms)

lemma grow_capacity_ge:
  assumes "c \<noteq> 0"
  shows "required \<le> grow_capacity required c" "c \<le> grow_capacity required c"
proof -
  obtain c' where c': "while_option (\<lambda>c. c < required) (grow_step required) c = Some c'"
    using grow_capacity_terminates [OF assms] by blast
  then have g: "grow_capacity required c = c'" by (simp add: grow_capacity_def while_def)
  show "required \<le> grow_capacity required c"
    using while_option_stop [OF c'] by (simp add: g)
  have "x \<noteq> 0 \<and> unat c \<le> unat x \<Longrightarrow> x < required \<Longrightarrow>
      grow_step required x \<noteq> 0 \<and> unat c \<le> unat (grow_step required x)" for x
    using grow_step_less [of x required] by auto
  then have "c' \<noteq> 0 \<and> unat c \<le> unat c'"
    using assms by (intro while_option_rule [where P = "\<lambda>x. x \<noteq> 0 \<and> unat c \<le> unat x", OF _ c']) auto
  then show "c \<le> grow_capacity required c" by (simp add: g word_le_nat_alt)
qed

section \<open>The invariant and the contract of an append\<close>

text \<open>
  A well-formed builder: the block is as long as the capacity says, and either there is no
  block yet or the text and its terminating NUL lie inside it.
\<close>

definition wf_builder :: "string_builder \<Rightarrow> bool" where
  "wf_builder b \<longleftrightarrow>
     length (builder_data b) = unat (builder_capacity b) \<and>
     (builder_capacity b = 0 \<and> builder_length b = 0 \<or>
      builder_length b < builder_capacity b \<and> builder_data b ! unat (builder_length b) = NUL)"

definition contents :: "string_builder \<Rightarrow> string" where
  "contents b = take (unat (builder_length b)) (builder_data b)"

lemma wf_empty_builder [simp, wf]: "wf_builder empty_builder" "contents empty_builder = []"
  by (simp_all add: wf_builder_def empty_builder_def contents_def)

lemma length_contents: "wf_builder b \<Longrightarrow> length (contents b) = unat (builder_length b)"
  by (auto simp: wf_builder_def contents_def word_less_nat_alt)

lemma wf_builder_length_less: "wf_builder b \<Longrightarrow> unat (builder_length b) < 2 ^ 64 - 1"
  using unsigned_less [of "builder_capacity b", where 'a = nat]
  by (auto simp: wf_builder_def word_less_nat_alt)

text \<open>The overflow test of \<^verbatim>\<open>builder_reserve\<close>, and what a successful reservation gives.\<close>

lemma reserve_check_iff:
  assumes "unat len < 2 ^ 64 - 1"
  shows "additional > (- 1) - len - 1 \<longleftrightarrow> 2 ^ 64 - 1 \<le> unat len + unat (additional :: size_t)"
    "2 ^ 64 - 1 > unat len + unat additional \<Longrightarrow>
     unat (len + additional + 1) = unat len + unat additional + 1"
proof -
  have "unat ((- 1 :: size_t) - len) = 2 ^ 64 - 1 - unat len"
    by (subst unat_sub) (simp_all add: unsigned_minus_1_eq_mask mask_eq_exp_minus_1)
  then have "unat ((- 1 :: size_t) - len - 1) = 2 ^ 64 - 2 - unat len"
    using assms by (subst unat_sub) (simp_all add: word_le_nat_alt)
  then show "additional > (- 1) - len - 1 \<longleftrightarrow> 2 ^ 64 - 1 \<le> unat len + unat additional"
    using assms by (auto simp: word_less_nat_alt)
next
  assume "2 ^ 64 - 1 > unat len + unat additional"
  then have "unat (of_nat (unat len + unat additional + 1) :: size_t) = unat len + unat additional + 1"
    by (subst unat_of_nat) simp
  then show "unat (len + additional + 1) = unat len + unat additional + 1"
    by (simp add: ac_simps)
qed

lemma builder_reserve_cases:
  assumes wf: "wf_builder b" and r: "builder_reserve additional b h = (ok, b', h')"
  shows "\<not> ok \<Longrightarrow> b' = b"
    and "ok \<Longrightarrow> builder_length b' = builder_length b \<and> contents b' = contents b \<and>
      length (builder_data b') = unat (builder_capacity b') \<and>
      unat (builder_length b) + unat additional < unat (builder_capacity b')"
    and "h = [] \<Longrightarrow> h' = [] \<and> (ok \<longleftrightarrow> unat (builder_length b) + unat additional < 2 ^ 64 - 1)"
proof -
  note chk = reserve_check_iff [OF wf_builder_length_less [OF wf], of additional]
  define required where "required = builder_length b + additional + 1"
  define cap where "cap = (if builder_capacity b = 0 then 1024 else builder_capacity b)"
  have "cap \<noteq> 0" by (simp add: cap_def)
  note grow = grow_capacity_ge [OF this, of required]
  have data: "length (builder_data b) = unat (builder_capacity b)"
    using wf by (simp add: wf_builder_def)
  have len: "unat (builder_length b) \<le> length (builder_data b)"
    using wf by (auto simp: wf_builder_def word_less_nat_alt)
  have cap: "unat (builder_capacity b) \<le> unat (grow_capacity required cap)"
    using grow(2) by (auto simp: cap_def word_le_nat_alt split: if_splits)
  show "\<not> ok \<Longrightarrow> b' = b"
    using r by (auto simp: builder_reserve_def Let_def split: if_splits prod.splits)
  show "h = [] \<Longrightarrow> h' = [] \<and> (ok \<longleftrightarrow> unat (builder_length b) + unat additional < 2 ^ 64 - 1)"
    using r chk(1) by (auto simp: builder_reserve_def Let_def split: if_splits prod.splits)
  assume ok
  then have no: "unat (builder_length b) + unat additional < 2 ^ 64 - 1"
    using r chk(1) by (auto simp: builder_reserve_def Let_def split: if_splits prod.splits)
  have req: "unat required = unat (builder_length b) + unat additional + 1"
    unfolding required_def by (rule chk(2) [OF no])
  show "builder_length b' = builder_length b \<and> contents b' = contents b \<and>
      length (builder_data b') = unat (builder_capacity b') \<and>
      unat (builder_length b) + unat additional < unat (builder_capacity b')"
  proof (cases "required \<le> builder_capacity b")
    case True
    then have "b' = b"
      using r \<open>ok\<close> by (auto simp: builder_reserve_def Let_def required_def split: if_splits prod.splits)
    with True data req show ?thesis by (simp add: word_le_nat_alt)
  next
    case False
    then have "b' = b\<lparr>builder_data := builder_data b @
          replicate (unat (grow_capacity required cap) - length (builder_data b)) NUL,
        builder_capacity := grow_capacity required cap\<rparr>"
      using r \<open>ok\<close> by (auto simp: builder_reserve_def Let_def required_def cap_def split: if_splits prod.splits)
    with data len cap grow(1) req show ?thesis by (simp add: contents_def word_le_nat_alt)
  qed
qed

text \<open>
  The contract of an append: the builder stays well-formed; what was there stays; a success
  adds the whole output, a failure at most a part of it; and while the heap gives memory and
  the sizes fit a \<^verbatim>\<open>size_t\<close>, the append succeeds.
\<close>

definition appends :: "(string_builder \<Rightarrow> heap \<Rightarrow> bool \<times> string_builder \<times> heap) \<Rightarrow> string \<Rightarrow> bool" where
  "appends act out \<longleftrightarrow>
     (\<forall>b h ok b' h'. wf_builder b \<longrightarrow> act b h = (ok, b', h') \<longrightarrow>
        wf_builder b' \<and>
        (\<exists>sent. prefix sent out \<and> contents b' = contents b @ sent \<and> (ok \<longrightarrow> sent = out)) \<and>
        (h = [] \<and> length (contents b) + length out < 2 ^ 64 - 1 \<longrightarrow> ok \<and> h' = []))"

lemma appendsI:
  assumes "\<And>b h ok b' h'. wf_builder b \<Longrightarrow> act b h = (ok, b', h') \<Longrightarrow>
      wf_builder b' \<and>
      (\<exists>sent. prefix sent out \<and> contents b' = contents b @ sent \<and> (ok \<longrightarrow> sent = out)) \<and>
      (h = [] \<and> length (contents b) + length out < 2 ^ 64 - 1 \<longrightarrow> ok \<and> h' = [])"
  shows "appends act out"
  using assms unfolding appends_def by blast

lemma appendsD:
  assumes "appends act out" "wf_builder b" "act b h = (ok, b', h')"
  shows "wf_builder b'" "\<exists>sent. prefix sent out \<and> contents b' = contents b @ sent \<and> (ok \<longrightarrow> sent = out)"
    "ok \<Longrightarrow> contents b' = contents b @ out"
    "h = [] \<Longrightarrow> length (contents b) + length out < 2 ^ 64 - 1 \<Longrightarrow> ok \<and> h' = []"
  using assms unfolding appends_def by blast+

lemma appends_skip: "appends (\<lambda>b h. (True, b, h)) []"
  by (auto simp: appends_def)

lemma appends_seq:
  assumes "appends act out" "appends act' out'"
  shows "appends (\<lambda>b h. let (ok, b, h) = act b h in if \<not> ok then (False, b, h) else act' b h) (out @ out')"
proof (rule appendsI)
  fix b h ok b' h'
  assume wf: "wf_builder b"
    and run: "(let (ok, b, h) = act b h in if \<not> ok then (False, b, h) else act' b h) = (ok, b', h')"
  obtain ok1 b1 h1 where one: "act b h = (ok1, b1, h1)" by (metis prod_cases3)
  note D1 = appendsD [OF assms(1) wf one]
  show "wf_builder b' \<and>
      (\<exists>sent. prefix sent (out @ out') \<and> contents b' = contents b @ sent \<and> (ok \<longrightarrow> sent = out @ out')) \<and>
      (h = [] \<and> length (contents b) + length (out @ out') < 2 ^ 64 - 1 \<longrightarrow> ok \<and> h' = [])"
  proof (cases ok1)
    case False
    with run one D1 show ?thesis by (auto intro: prefix_prefix)
  next
    case True
    with run one have two: "act' b1 h1 = (ok, b', h')" by simp
    note D2 = appendsD [OF assms(2) D1(1) two]
    from D1(3) [OF True] D2(2) have "\<exists>sent. prefix sent (out @ out') \<and>
        contents b' = contents b @ sent \<and> (ok \<longrightarrow> sent = out @ out')" by auto
    with D1(3) [OF True] D1(4) D2(1,4) show ?thesis by auto
  qed
qed

lemma appends_chain:
  "list_all2 appends acts outs \<Longrightarrow> appends (builder_chain acts) (concat outs)"
proof (induction acts outs rule: list_all2_induct)
  case Nil
  have "builder_chain [] = (\<lambda>b h. (True, b, h))" by (intro ext) simp
  with appends_skip show ?case by simp
next
  case (Cons act acts out outs)
  have "builder_chain (act # acts) =
      (\<lambda>b h. let (ok, b, h) = act b h in if \<not> ok then (False, b, h) else builder_chain acts b h)"
    by (intro ext) simp
  with appends_seq [OF Cons.hyps(1) Cons.IH] show ?case by simp
qed

text \<open>Writing a text and its NUL into reserved room.\<close>

lemma write_text_wf:
  assumes "length data = unat cap" "unat len + length s < unat cap" "unat (new_len :: size_t) = unat len + length s"
  shows "wf_builder (b\<lparr>builder_data := memcpy_at (memcpy_at data (unat len) s) (unat new_len) [NUL],
       builder_length := new_len, builder_capacity := cap\<rparr>) \<and>
    contents (b\<lparr>builder_data := memcpy_at (memcpy_at data (unat len) s) (unat new_len) [NUL],
       builder_length := new_len, builder_capacity := cap\<rparr>) = take (unat len) data @ s"
  using assms
  by (simp add: wf_builder_def contents_def memcpy_at_def word_less_nat_alt nth_append)

lemma appends_reserved_write:
  assumes "length s < 2 ^ 64"
  shows "appends (\<lambda>b h.
    let (ok, b, h) = builder_reserve (of_nat (length s)) b h
    in if \<not> ok then (False, b, h)
       else (True, b\<lparr>builder_data :=
             memcpy_at (memcpy_at (builder_data b) (unat (builder_length b)) s)
               (unat (builder_length b + of_nat (length s))) [NUL],
           builder_length := builder_length b + of_nat (length s)\<rparr>, h)) s"
proof (rule appendsI)
  fix b h ok b' h'
  assume wf: "wf_builder b" and run: "(let (ok, b, h) = builder_reserve (of_nat (length s)) b h
    in if \<not> ok then (False, b, h)
       else (True, b\<lparr>builder_data :=
             memcpy_at (memcpy_at (builder_data b) (unat (builder_length b)) s)
               (unat (builder_length b + of_nat (length s))) [NUL],
           builder_length := builder_length b + of_nat (length s)\<rparr>, h)) = (ok, b', h')"
  obtain ok1 b1 h1 where one: "builder_reserve (of_nat (length s)) b h = (ok1, b1, h1)"
    by (metis prod_cases3)
  note R = builder_reserve_cases [OF wf one]
  have us: "unat (of_nat (length s) :: size_t) = length s"
    using assms by (simp add: unat_of_nat)
  show "wf_builder b' \<and>
      (\<exists>sent. prefix sent s \<and> contents b' = contents b @ sent \<and> (ok \<longrightarrow> sent = s)) \<and>
      (h = [] \<and> length (contents b) + length s < 2 ^ 64 - 1 \<longrightarrow> ok \<and> h' = [])"
  proof (cases ok1)
    case False
    with run one R(1,3) wf us show ?thesis by (auto simp: length_contents)
  next
    case True
    note r = R(2) [OF True, unfolded us]
    have "unat (of_nat (unat (builder_length b1) + length s) :: size_t) = unat (builder_length b1) + length s"
      using r unsigned_less [of "builder_capacity b1", where 'a = nat] by (subst unat_of_nat) simp
    then have "unat (builder_length b1 + of_nat (length s)) = unat (builder_length b1) + length s" by simp
    from write_text_wf [OF _ _ this, of "builder_data b1" "builder_capacity b1" b1] r
    have "wf_builder b' \<and> contents b' = contents b1 @ s"
      using run one True by (auto simp: contents_def)
    with R(3) r run one True show ?thesis by auto
  qed
qed

section \<open>The interface of the append functions\<close>

locale appender =
  fixes act :: "'a \<Rightarrow> string_builder \<Rightarrow> heap \<Rightarrow> bool \<times> string_builder \<times> heap"
    and render :: "'a \<Rightarrow> string"
    and valid :: "'a \<Rightarrow> bool"
  assumes act_appends: "valid x \<Longrightarrow> appends (act x) (render x)"
begin

lemma items: "list_all valid xs \<Longrightarrow> appends (builder_chain (map act xs)) (concat (map render xs))"
  by (rule appends_chain) (auto simp: list_all2_map1 list_all2_map2 list_all2_same list_all_iff act_appends)

lemma keeps_wf: "valid x \<Longrightarrow> wf_builder b \<Longrightarrow> act x b h = (ok, b', h') \<Longrightarrow> wf_builder b'"
  by (rule appendsD(1) [OF act_appends])

lemma success: "valid x \<Longrightarrow> wf_builder b \<Longrightarrow> act x b h = (True, b', h') \<Longrightarrow>
    contents b' = contents b @ render x"
  by (rule appendsD(3) [OF act_appends]) simp_all

lemma failure: "valid x \<Longrightarrow> wf_builder b \<Longrightarrow> act x b h = (False, b', h') \<Longrightarrow>
    \<exists>sent. prefix sent (render x) \<and> contents b' = contents b @ sent"
  using appendsD(2) [OF act_appends] by blast

lemma enough_memory: "valid x \<Longrightarrow> wf_builder b \<Longrightarrow> length (contents b) + length (render x) < 2 ^ 64 - 1 \<Longrightarrow>
    \<exists>b'. act x b [] = (True, b', []) \<and> contents b' = contents b @ render x"
  by (metis (full_types) appendsD(3,4) [OF act_appends] prod_cases3)

end

definition html_entity :: "char \<Rightarrow> string" where
  "html_entity c =
     (if c = CHR ''&'' then ''&amp;'' else if c = CHR ''<'' then ''&lt;''
      else if c = CHR ''>'' then ''&gt;'' else if c = DQUOTE then ''&quot;'' else [c])"

definition html_escape :: "string \<Rightarrow> string" where
  "html_escape s = concat (map html_entity s)"

definition url_byte :: "char \<Rightarrow> string" where
  "url_byte c = (if is_url_unreserved c then [c] else percent_encoded c)"

definition url_escape :: "string \<Rightarrow> string" where
  "url_escape s = concat (map url_byte s)"

lemma append_text_eq: "builder_append_text s b h =
    (let (ok, b, h) = builder_reserve (of_nat (length s)) b h
     in if \<not> ok then (False, b, h)
        else (True, b\<lparr>builder_data :=
              memcpy_at (memcpy_at (builder_data b) (unat (builder_length b)) s)
                (unat (builder_length b + of_nat (length s))) [NUL],
            builder_length := builder_length b + of_nat (length s)\<rparr>, h))"
  unfolding builder_append_text_def Let_def by (rule refl)

interpretation text_app: appender builder_append_text "\<lambda>s. s" "\<lambda>s. length s < 2 ^ 64"
proof unfold_locales
  fix s :: string assume "length s < 2 ^ 64"
  from appends_reserved_write [OF this] show "appends (builder_append_text s) s"
    unfolding append_text_eq [abs_def] .
qed

lemma append_char_eq: "builder_append_char c = builder_append_text [c]"
  by (intro ext) (simp add: builder_append_char_def builder_append_text_def Let_def)

interpretation char_app: appender builder_append_char "\<lambda>c. [c]" "\<lambda>_. True"
  by unfold_locales (simp add: append_char_eq text_app.act_appends)

lemma append_html_chain: "builder_append_html_escaped s b h = builder_chain (map (\<lambda>c. builder_append_text (html_entity c)) s) b h"
  by (induction s arbitrary: b h) (auto simp: html_entity_def append_char_eq split: prod.split)

lemma length_html_entity: "length (html_entity c) < 2 ^ 64"
  by (simp add: html_entity_def)

interpretation html_app: appender builder_append_html_escaped html_escape "\<lambda>_. True"
proof unfold_locales
  fix s :: string
  have "list_all2 appends (map (\<lambda>c. builder_append_text (html_entity c)) s) (map html_entity s)"
    using length_html_entity
    by (auto simp: list_all2_map1 list_all2_map2 list_all2_same simp del: power_numeral
        intro!: text_app.act_appends)
  from appends_chain [OF this] show "appends (builder_append_html_escaped s) (html_escape s)"
    unfolding append_html_chain [abs_def] html_escape_def .
qed

lemma append_url_chain: "builder_append_url_escaped s b h = builder_chain (map (\<lambda>c. builder_append_text (url_byte c)) s) b h"
  by (induction s arbitrary: b h) (auto simp: url_byte_def append_char_eq split: prod.split)

lemma length_url_byte: "length (url_byte c) < 2 ^ 64"
  by (simp add: url_byte_def percent_encoded_def)

interpretation url_app: appender builder_append_url_escaped url_escape "\<lambda>_. True"
proof unfold_locales
  fix s :: string
  have "list_all2 appends (map (\<lambda>c. builder_append_text (url_byte c)) s) (map url_byte s)"
    using length_url_byte
    by (auto simp: list_all2_map1 list_all2_map2 list_all2_same simp del: power_numeral
        intro!: text_app.act_appends)
  from appends_chain [OF this] show "appends (builder_append_url_escaped s) (url_escape s)"
    unfolding append_url_chain [abs_def] url_escape_def .
qed

section \<open>The HTML escaping read back\<close>

fun html_unescape :: "string \<Rightarrow> string" where
  "html_unescape [] = []"
| "html_unescape (c # s) =
     (if c \<noteq> CHR ''&'' then c # html_unescape s
      else if take 4 s = ''amp;'' then CHR ''&'' # html_unescape (drop 4 s)
      else if take 3 s = ''lt;'' then CHR ''<'' # html_unescape (drop 3 s)
      else if take 3 s = ''gt;'' then CHR ''>'' # html_unescape (drop 3 s)
      else if take 5 s = ''quot;'' then DQUOTE # html_unescape (drop 5 s)
      else c # html_unescape s)"

lemma html_unescape_entity: "html_unescape (html_entity c @ s) = c # html_unescape s"
  by (simp add: html_entity_def)

lemma html_unescape_escape: "html_unescape (html_escape s) = s"
  by (induction s) (simp_all add: html_escape_def html_unescape_entity)

lemma html_entity_safe: "set (html_entity c) \<inter> {CHR ''<'', CHR ''>'', DQUOTE} = {}"
  by (auto simp: html_entity_def)

lemma html_escape_safe: "set (html_escape s) \<inter> {CHR ''<'', CHR ''>'', DQUOTE} = {}"
  using html_entity_safe by (induction s) (auto simp: html_escape_def)

section \<open>Properties\<close>

text \<open>C24: The growth loop of the builder always returns, with a capacity that holds what is
  required and never shrinks: the starting capacity is never 0, and the doubling either
  stays within a size_t or is cut short at the requirement.\<close>

theorem builder_growth_returns:
  assumes "capacity \<noteq> 0"
  shows "\<exists>c. while_option (\<lambda>c. c < required) (grow_step required) capacity = Some c \<and>
    grow_capacity required capacity = c \<and> required \<le> c \<and> capacity \<le> c"
  using grow_capacity_terminates [OF assms, of required] grow_capacity_ge [OF assms, of required]
  by (auto simp: grow_capacity_def while_def)

theorem builder_growth_returns_witness:
  "\<exists>c. while_option (\<lambda>c. c < 5000) (grow_step 5000) 1024 = Some c \<and>
    grow_capacity 5000 1024 = c \<and> 5000 \<le> c \<and> 1024 \<le> c"
  by (rule builder_growth_returns) simp

text \<open>C22: Memory safety and effect of an append, for every text, builder and behaviour of the
  allocator: the text and its terminating NUL stay inside the block, a success adds exactly
  the text, a failure leaves the contents as they were, and with memory available and sizes
  within a size_t it succeeds.\<close>

theorem builder_append_text_spec:
  assumes "wf_builder b" "length s < 2 ^ 64" "builder_append_text s b h = (ok, b', h')"
  shows "wf_builder b' \<and> contents b' = (if ok then contents b @ s else contents b) \<and>
    (h = [] \<and> length (contents b) + length s < 2 ^ 64 - 1 \<longrightarrow> ok)"
proof -
  have "\<not> ok \<Longrightarrow> b' = b"
    using assms(3) builder_reserve_cases(1) [OF assms(1)]
    by (fastforce simp: append_text_eq Let_def split: prod.splits if_splits)
  then show ?thesis
    using text_app.keeps_wf [OF assms(2,1,3)] text_app.success [OF assms(2,1)]
      text_app.enough_memory [OF assms(2,1)] assms(3)
    by (cases ok) auto
qed

theorem builder_append_text_spec_witness:
  "let (ok, b, h) = builder_append_text ''hello'' empty_builder [] in ok \<and> contents b = ''hello''"
proof -
  obtain ok b h where r: "builder_append_text ''hello'' empty_builder [] = (ok, b, h)"
    by (metis prod_cases3)
  from builder_append_text_spec [OF _ _ r] r show ?thesis by simp
qed

text \<open>C23: The HTML escaping, as the builder writes it, is safe and faithful: a successful call
  appends a text without angle brackets and double quotes that reads back, entity by entity,
  as the original.\<close>

theorem html_escaped_safe_and_faithful:
  assumes "wf_builder b" "builder_append_html_escaped s b h = (True, b', h')"
  shows "\<exists>e. contents b' = contents b @ e \<and> set e \<inter> {CHR ''<'', CHR ''>'', DQUOTE} = {} \<and> html_unescape e = s"
  using html_app.success [OF _ assms] html_escape_safe html_unescape_escape by blast

theorem html_escaped_safe_and_faithful_witness:
  "\<exists>b' h' e. builder_append_html_escaped ''<a&b>'' empty_builder [] = (True, b', h') \<and>
    contents b' = e \<and> set e \<inter> {CHR ''<'', CHR ''>'', DQUOTE} = {} \<and> html_unescape e = ''<a&b>''"
proof -
  have "length (html_escape ''<a&b>'') = 15" by (simp add: html_escape_def html_entity_def)
  then obtain b' where r: "builder_append_html_escaped ''<a&b>'' empty_builder [] = (True, b', [])"
    using html_app.enough_memory [where x = "''<a&b>''" and b = empty_builder] by auto
  from html_escaped_safe_and_faithful [OF _ r] r show ?thesis by auto
qed

end
