(* ===== verification/Paths.thy ===== *)
theory Paths
  imports Builder
begin

text \<open>
  The path handling of \<^verbatim>\<open>src/files.c\<close> (lines 207 to 517) and \<^verbatim>\<open>include/files.h\<close>: percent
  decoding, the check for \<^verbatim>\<open>..\<close> segments, the MIME table, and the resolution of a request
  path below the document root.

  The operating system is a parameter, the record \<open>os_view\<close>: what \<^verbatim>\<open>realpath\<close>, \<^verbatim>\<open>stat\<close>,
  \<^verbatim>\<open>opendir\<close>/\<^verbatim>\<open>readdir\<close> and \<^verbatim>\<open>fopen\<close> answer. No relation between the answers is assumed, so the
  theorems also hold when the file system changes between two calls. C strings are lists
  without their NUL.
\<close>

section \<open>Data\<close>

definition FILE_PATH_MAX :: nat where "FILE_PATH_MAX = 4096"

datatype file_result = FILE_RESULT_OK | FILE_RESULT_NOT_FOUND | FILE_RESULT_FORBIDDEN | FILE_RESULT_ERROR

datatype file_kind = FILE_KIND_REGULAR | FILE_KIND_DIRECTORY

record file_info =
  resolved_path :: string
  info_kind :: file_kind
  info_size :: size_t
  mime_type :: string

datatype errno = ENOENT | ENOTDIR | OTHER_ERRNO

datatype st_mode = S_DIR | S_REG | S_OTHER

record file_stat =
  st_mode :: st_mode
  st_size :: int

record os_view =
  os_realpath :: "string \<Rightarrow> errno + string"
  os_stat :: "string \<Rightarrow> errno + file_stat"
  os_readdir :: "string \<Rightarrow> string list option"
  os_fopen :: "string \<Rightarrow> string option"
  os_seekable :: "string \<Rightarrow> bool"
  os_heap :: heap

section \<open>Percent decoding\<close>

definition hex_value :: "char \<Rightarrow> int" where
  "hex_value ch =
     (if byte (CHR ''0'') \<le> byte ch \<and> byte ch \<le> byte (CHR ''9'') then int (byte ch) - int (byte (CHR ''0''))
      else if byte (CHR ''a'') \<le> byte ch \<and> byte ch \<le> byte (CHR ''f'') then int (byte ch) - int (byte (CHR ''a'')) + 10
      else if byte (CHR ''A'') \<le> byte ch \<and> byte ch \<le> byte (CHR ''F'') then int (byte ch) - int (byte (CHR ''A'')) + 10
      else - 1)"

text \<open>
  The byte at an offset from a point inside a C string: its bytes, then its NUL, then what
  follows in memory, of which the code can read one byte (\<open>past\<close>).
\<close>

definition byte_at :: "char \<Rightarrow> string \<Rightarrow> nat \<Rightarrow> char" where
  "byte_at past s i = (if i < length s then s ! i else if i = length s then NUL else past)"

function decode_loop :: "char \<Rightarrow> nat \<Rightarrow> string \<Rightarrow> string \<Rightarrow> file_result \<times> string" where
  "decode_loop past output_size [] out = (FILE_RESULT_OK, out)"
| "decode_loop past output_size (c # input) out =
     (let high = hex_value (byte_at past input 0);
          low = hex_value (byte_at past input 1)
      in if c = CHR ''%'' \<and> (high < 0 \<or> low < 0) then (FILE_RESULT_FORBIDDEN, out)
         else
           let ch = (if c = CHR ''%'' then char_of (nat (or (push_bit 4 high) low))
                     else if c = CHR ''+'' then CHR '' '' else c);
               input = (if c = CHR ''%'' then drop 2 input else input)
           in if ch = NUL \<or> ch = BACKSLASH then (FILE_RESULT_FORBIDDEN, out)
              else if length out + 1 \<ge> output_size then (FILE_RESULT_ERROR, out)
              else decode_loop past output_size input (out @ [ch]))"
  by pat_completeness auto
termination
  by (relation "measure (\<lambda>(past, output_size, input, out). length input)") auto

definition decode_path_past :: "char \<Rightarrow> string \<Rightarrow> nat \<Rightarrow> file_result \<times> string" where
  "decode_path_past past input output_size =
     (if output_size = 0 then (FILE_RESULT_ERROR, []) else decode_loop past output_size input [])"

definition decode_path :: "string \<Rightarrow> nat \<Rightarrow> file_result \<times> string" where
  "decode_path = decode_path_past NUL"

section \<open>Segments and prefixes\<close>

function contains_dot_dot_segment :: "string \<Rightarrow> bool" where
  "contains_dot_dot_segment p =
     (if p = [] then False
      else
        let p = dropWhile (\<lambda>c. c = CHR ''/'') p in
        if byte_at NUL p 0 = CHR ''.'' \<and> byte_at NUL p 1 = CHR ''.'' \<and>
           (byte_at NUL p 2 = CHR ''/'' \<or> byte_at NUL p 2 = NUL)
        then True
        else contains_dot_dot_segment (dropWhile (\<lambda>c. c \<noteq> CHR ''/'') p))"
  by pat_completeness auto
termination
proof (relation "measure length", goal_cases)
  case 1
  show ?case by simp
next
  case (2 p x)
  have "length (dropWhile (\<lambda>c. c \<noteq> CHR ''/'') (dropWhile (\<lambda>c. c = CHR ''/'') p)) < length p"
  proof (cases "dropWhile (\<lambda>c. c = CHR ''/'') p")
    case Nil
    show ?thesis unfolding Nil using 2(1) by simp
  next
    case (Cons c cs)
    then have "c \<noteq> CHR ''/''"
      using hd_dropWhile [of "\<lambda>c. c = CHR ''/''" p] by simp
    then have "dropWhile (\<lambda>c. c \<noteq> CHR ''/'') (c # cs) = dropWhile (\<lambda>c. c \<noteq> CHR ''/'') cs" by simp
    moreover have "length (dropWhile (\<lambda>c. c \<noteq> CHR ''/'') cs) \<le> length cs" by (rule length_dropWhile_le)
    moreover have "length (c # cs) \<le> length p"
      using length_dropWhile_le [of "\<lambda>c. c = CHR ''/''" p] unfolding Cons .
    ultimately show ?thesis unfolding Cons by simp
  qed
  with 2(2) show ?case by simp
qed

declare contains_dot_dot_segment.simps [simp del]

definition path_has_prefix :: "string \<Rightarrow> string \<Rightarrow> bool" where
  "path_has_prefix p pre =
     (take (length pre) p = pre \<and>
      (byte_at NUL p (length pre) = NUL \<or> byte_at NUL p (length pre) = CHR ''/''))"

section \<open>MIME types\<close>

text \<open>\<^verbatim>\<open>strrchr\<close>: the C string from the last occurrence on.\<close>

definition strrchr :: "string \<Rightarrow> char \<Rightarrow> string option" where
  "strrchr s c =
     (if c \<in> set s then Some (c # rev (takeWhile (\<lambda>x. x \<noteq> c) (rev s))) else None)"

definition mime_table :: "(string \<times> string) list" where
  "mime_table =
    [(''.html'', ''text/html''), (''.htm'', ''text/html''),
     (''.txt'', ''text/plain''),
     (''.css'', ''text/css''),
     (''.csv'', ''text/csv''),
     (''.xml'', ''application/xml''),
     (''.yaml'', ''text/yaml''), (''.yml'', ''text/yaml''),
     (''.js'', ''application/javascript''), (''.mjs'', ''application/javascript''),
     (''.json'', ''application/json''),
     (''.png'', ''image/png''),
     (''.jpg'', ''image/jpeg''), (''.jpeg'', ''image/jpeg''),
     (''.gif'', ''image/gif''),
     (''.svg'', ''image/svg+xml''),
     (''.svgz'', ''image/svg+xml''),
     (''.ico'', ''image/x-icon''),
     (''.bmp'', ''image/bmp''),
     (''.webp'', ''image/webp''),
     (''.pdf'', ''application/pdf''),
     (''.zip'', ''application/zip''),
     (''.tar'', ''application/x-tar''),
     (''.gz'', ''application/gzip''),
     (''.7z'', ''application/x-7z-compressed''),
     (''.woff'', ''font/woff''),
     (''.woff2'', ''font/woff2''),
     (''.ttf'', ''font/ttf''),
     (''.otf'', ''font/otf''),
     (''.eot'', ''application/vnd.ms-fontobject''),
     (''.wasm'', ''application/wasm''),
     (''.xslt'', ''application/xslt+xml''),
     (''.mp4'', ''video/mp4''),
     (''.webm'', ''video/webm''),
     (''.ts'', ''video/mp2t''),
     (''.mp3'', ''audio/mpeg''),
     (''.ogg'', ''audio/ogg''),
     (''.wav'', ''audio/wav''),
     (''.doc'', ''application/msword''),
     (''.docx'', ''application/vnd.openxmlformats-officedocument.wordprocessingml.document''),
     (''.xls'', ''application/vnd.ms-excel''),
     (''.xlsx'', ''application/vnd.openxmlformats-officedocument.spreadsheetml.sheet''),
     (''.ppt'', ''application/vnd.ms-powerpoint''),
     (''.pptx'', ''application/vnd.openxmlformats-officedocument.presentationml.presentation''),
     (''.sh'', ''application/x-sh''),
     (''.c'', ''text/x-c''),
     (''.h'', ''text/x-chdr''),
     (''.md'', ''text/markdown'')]"

definition octet_stream :: string where
  "octet_stream = ''application/octet-stream''"

definition file_mime_type :: "string \<Rightarrow> string" where
  "file_mime_type path =
     (case strrchr path (CHR ''.'') of
        None \<Rightarrow> octet_stream
      | Some extension \<Rightarrow>
          (case map_of mime_table extension of Some mime \<Rightarrow> mime | None \<Rightarrow> octet_stream))"

section \<open>Resolution\<close>

definition skip_slashes :: "string \<Rightarrow> string" where
  "skip_slashes s = dropWhile (\<lambda>c. c = CHR ''/'') s"

definition file_resolve_path ::
  "os_view \<Rightarrow> string \<Rightarrow> string \<Rightarrow> nat \<Rightarrow> file_result \<times> string" where
  "file_resolve_path os doc_root request_path resolved_size =
     (if resolved_size = 0 then (FILE_RESULT_ERROR, [])
      else
        let (decode_result, decoded) = decode_path request_path FILE_PATH_MAX in
        if decode_result \<noteq> FILE_RESULT_OK then (decode_result, [])
        else if contains_dot_dot_segment decoded then (FILE_RESULT_FORBIDDEN, [])
        else
          let joined = doc_root @ ''/'' @ skip_slashes decoded in
          if length joined \<ge> FILE_PATH_MAX then (FILE_RESULT_ERROR, [])
          else (case os_realpath os doc_root of
              Inl e \<Rightarrow> (FILE_RESULT_ERROR, [])
            | Inr root_real \<Rightarrow>
                (case os_realpath os joined of
                   Inl e \<Rightarrow>
                     (if e = ENOENT \<or> e = ENOTDIR then (FILE_RESULT_NOT_FOUND, [])
                      else (FILE_RESULT_ERROR, []))
                 | Inr target_real \<Rightarrow>
                     if \<not> path_has_prefix target_real root_real then (FILE_RESULT_FORBIDDEN, [])
                     else if length target_real \<ge> resolved_size then (FILE_RESULT_ERROR, [])
                     else (FILE_RESULT_OK, target_real))))"

definition zero_info :: file_info where
  "zero_info = \<lparr>resolved_path = [], info_kind = FILE_KIND_REGULAR, info_size = 0, mime_type = []\<rparr>"

definition file_stat_path :: "os_view \<Rightarrow> string \<Rightarrow> string \<Rightarrow> file_result \<times> file_info" where
  "file_stat_path os doc_root request_path =
     (let (result, resolved) = file_resolve_path os doc_root request_path FILE_PATH_MAX;
          info = zero_info\<lparr>resolved_path := resolved\<rparr>
      in if result \<noteq> FILE_RESULT_OK then (result, info)
         else (case os_stat os (resolved_path info) of
             Inl e \<Rightarrow>
               ((if e = ENOENT \<or> e = ENOTDIR then FILE_RESULT_NOT_FOUND else FILE_RESULT_ERROR), info)
           | Inr st \<Rightarrow>
               (case st_mode st of
                  S_DIR \<Rightarrow> (FILE_RESULT_OK,
                    info\<lparr>info_kind := FILE_KIND_DIRECTORY, info_size := 0, mime_type := ''text/html''\<rparr>)
                | S_REG \<Rightarrow> (FILE_RESULT_OK,
                    info\<lparr>info_kind := FILE_KIND_REGULAR, info_size := of_int (st_size st),
                      mime_type := file_mime_type (resolved_path info)\<rparr>)
                | S_OTHER \<Rightarrow> (FILE_RESULT_FORBIDDEN, info))))"

section \<open>Lemmas: decoding\<close>

declare decode_loop.simps(2) [simp del]

lemma hex_value_NUL [simp]: "hex_value NUL = - 1"
  by (simp add: hex_value_def byte_def)

lemma byte_at_simps [simp]:
  "byte_at past [] 0 = NUL" "byte_at past (c # s) 0 = c" "byte_at past (c # s) (Suc n) = byte_at past s n"
  by (simp_all add: byte_at_def)

text \<open>One step of the loop, with its parts named, and the induction that follows the loop.\<close>

definition bad_escape :: "char \<Rightarrow> char \<Rightarrow> string \<Rightarrow> bool" where
  "bad_escape past c input \<longleftrightarrow>
     c = CHR ''%'' \<and> (hex_value (byte_at past input 0) < 0 \<or> hex_value (byte_at past input 1) < 0)"

definition decoded_byte :: "char \<Rightarrow> char \<Rightarrow> string \<Rightarrow> char" where
  "decoded_byte past c input =
     (if c = CHR ''%''
      then char_of (nat (or (push_bit 4 (hex_value (byte_at past input 0))) (hex_value (byte_at past input 1))))
      else if c = CHR ''+'' then CHR '' '' else c)"

definition after_byte :: "char \<Rightarrow> string \<Rightarrow> string" where
  "after_byte c input = (if c = CHR ''%'' then drop 2 input else input)"

lemma decode_loop_Cons:
  "decode_loop past osize (c # input) out =
    (if bad_escape past c input then (FILE_RESULT_FORBIDDEN, out)
     else if decoded_byte past c input = NUL \<or> decoded_byte past c input = BACKSLASH then (FILE_RESULT_FORBIDDEN, out)
     else if length out + 1 \<ge> osize then (FILE_RESULT_ERROR, out)
     else decode_loop past osize (after_byte c input) (out @ [decoded_byte past c input]))"
  unfolding decode_loop.simps(2) Let_def bad_escape_def decoded_byte_def after_byte_def
  by (rule refl)

lemma decode_induct [case_names Nil Cons]:
  assumes "\<And>out. P [] out"
    and "\<And>c input out. (\<And>out'. P (after_byte c input) out') \<Longrightarrow> P (c # input) out"
  shows "P input out"
proof (induction "length input" arbitrary: input out rule: less_induct)
  case less
  show ?case
  proof (cases input)
    case Nil
    with assms(1) show ?thesis by simp
  next
    case (Cons c rest)
    have "length (after_byte c rest) < length input" by (auto simp: Cons after_byte_def)
    with less assms(2) show ?thesis unfolding Cons by blast
  qed
qed

lemma bad_escape_past: "bad_escape past c input \<longleftrightarrow> bad_escape past' c input"
  by (cases input) (auto simp: bad_escape_def byte_at_def)

lemma decoded_byte_past:
  "\<not> bad_escape past c input \<Longrightarrow> decoded_byte past c input = decoded_byte past' c input"
  by (cases input) (auto simp: bad_escape_def decoded_byte_def byte_at_def)

lemma decode_loop_past: "decode_loop past osize input out = decode_loop past' osize input out"
proof (induction input out rule: decode_induct)
  case (Nil out)
  show ?case by simp
next
  case (Cons c input out)
  then show ?case
    using bad_escape_past [of past c input past'] decoded_byte_past [of past c input past']
    unfolding decode_loop_Cons by simp
qed

lemma decode_loop_bounds:
  "length out < osize \<Longrightarrow> NUL \<notin> set out \<and> BACKSLASH \<notin> set out \<Longrightarrow>
   length (snd (decode_loop past osize input out)) < osize \<and>
   NUL \<notin> set (snd (decode_loop past osize input out)) \<and>
   BACKSLASH \<notin> set (snd (decode_loop past osize input out))"
proof (induction input out rule: decode_induct)
  case (Nil out)
  then show ?case by simp
next
  case (Cons c input out)
  show ?case
    unfolding decode_loop_Cons
    using Cons.prems Cons.IH [of "out @ [decoded_byte past c input]"] by auto
qed

lemma decode_path_bounds:
  assumes "decode_path_past past input osize = (r, d)" "osize \<noteq> 0"
  shows "length d < osize" "NUL \<notin> set d" "BACKSLASH \<notin> set d"
  using decode_loop_bounds [of "[]" osize past input] assms by (auto simp: decode_path_past_def)

lemma hex_value_digit: "n < 16 \<Longrightarrow> hex_value (hex_digits ! n) = int n"
proof -
  assume "n < 16"
  then have "n = 0 \<or> n = 1 \<or> n = 2 \<or> n = 3 \<or> n = 4 \<or> n = 5 \<or> n = 6 \<or> n = 7 \<or> n = 8 \<or> n = 9 \<or>
      n = 10 \<or> n = 11 \<or> n = 12 \<or> n = 13 \<or> n = 14 \<or> n = 15" by arith
  then show ?thesis by (auto simp: hex_digits_def hex_value_def byte_def)
qed

lemma join_nibbles: "or (push_bit 4 (drop_bit 4 n)) (and n 15) = (n :: nat)"
proof -
  have "and n 15 = take_bit 4 n" by (simp add: take_bit_eq_mask mask_eq_exp_minus_1)
  then show ?thesis by (intro bit_eqI) (auto simp: bit_simps)
qed

lemma nibble_bounds: "drop_bit 4 (byte c) < 16" "and (byte c) 15 < (16 :: nat)"
proof -
  have "byte c < 256" by simp
  then show "drop_bit 4 (byte c) < 16" by (simp add: drop_bit_eq_div less_mult_imp_div_less)
  have "and (byte c) 15 = take_bit 4 (byte c)" by (simp add: take_bit_eq_mask mask_eq_exp_minus_1)
  then show "and (byte c) 15 < (16 :: nat)" by (simp add: take_bit_eq_mod)
qed

lemma decode_loop_percent:
  "decode_loop past osize (percent_encoded c @ s) out =
    (if c = NUL \<or> c = BACKSLASH then (FILE_RESULT_FORBIDDEN, out)
     else if length out + 1 \<ge> osize then (FILE_RESULT_ERROR, out)
     else decode_loop past osize s (out @ [c]))"
proof -
  note nib = nibble_bounds [of c]
  have "or (push_bit 4 (int (drop_bit 4 (byte c)))) (int (and (byte c) 15)) = int (byte c)"
    using join_nibbles [of "byte c"] by (metis of_nat_or_eq of_nat_push_bit)
  then show ?thesis
    using nib
    by (simp add: percent_encoded_def decode_loop_Cons bad_escape_def decoded_byte_def after_byte_def
        hex_value_digit)
qed

lemma unreserved_plain:
  assumes "is_url_unreserved c"
  shows "c \<noteq> CHR ''%''" "c \<noteq> CHR ''+''" "c \<noteq> NUL" "c \<noteq> BACKSLASH"
  using assms by (auto simp: is_url_unreserved_def isalnum_def isdigit_def byte_def)

lemma decode_loop_url_byte:
  "decode_loop past osize (url_byte c @ s) out =
    (if c = NUL \<or> c = BACKSLASH then (FILE_RESULT_FORBIDDEN, out)
     else if length out + 1 \<ge> osize then (FILE_RESULT_ERROR, out)
     else decode_loop past osize s (out @ [c]))"
proof (cases "is_url_unreserved c")
  case True
  with unreserved_plain [OF True] show ?thesis
    by (simp add: url_byte_def decode_loop_Cons bad_escape_def decoded_byte_def after_byte_def)
next
  case False
  then show ?thesis by (simp only: url_byte_def if_False decode_loop_percent)
qed

lemma url_escape_simps [simp]:
  "url_escape [] = []" "url_escape (c # s) = url_byte c @ url_escape s"
  by (simp_all add: url_escape_def)

lemma decode_loop_url_escape:
  "NUL \<notin> set s \<Longrightarrow> BACKSLASH \<notin> set s \<Longrightarrow> length out + length s < osize \<Longrightarrow>
   decode_loop past osize (url_escape s) out = (FILE_RESULT_OK, out @ s)"
proof (induction s arbitrary: out)
  case Nil
  then show ?case by simp
next
  case (Cons c s)
  then show ?case by (auto simp: decode_loop_url_byte)
qed

lemma decode_loop_url_escape_forbidden:
  "BACKSLASH \<in> set s \<Longrightarrow> NUL \<notin> set s \<Longrightarrow> length out + length s < osize \<Longrightarrow>
   fst (decode_loop past osize (url_escape s) out) = FILE_RESULT_FORBIDDEN"
proof (induction s arbitrary: out)
  case (Cons c s)
  then show ?case by (auto simp: decode_loop_url_byte)
qed simp

section \<open>Lemmas: segments\<close>

fun segments :: "string \<Rightarrow> string list" where
  "segments [] = [[]]"
| "segments (c # s) =
     (if c = CHR ''/'' then [] # segments s
      else (case segments s of [] \<Rightarrow> [[c]] | seg # segs \<Rightarrow> (c # seg) # segs))"

lemma segments_nonempty [simp]: "segments s \<noteq> []"
  by (induction s) (auto split: list.split)

lemma segments_append: "segments (a @ CHR ''/'' # b) = segments a @ segments b"
  by (induction a) (auto split: list.split)

lemma segments_no_slash: "CHR ''/'' \<notin> set s \<Longrightarrow> segments s = [s]"
  by (induction s) auto

lemma dot_dot_skip_slashes:
  "''..'' \<in> set (segments (dropWhile (\<lambda>c. c = CHR ''/'') p)) \<longleftrightarrow> ''..'' \<in> set (segments p)"
  by (induction p) auto

lemma segments_first:
  "segments q = takeWhile (\<lambda>c. c \<noteq> CHR ''/'') q #
     (case dropWhile (\<lambda>c. c \<noteq> CHR ''/'') q of [] \<Rightarrow> [] | c # rest \<Rightarrow> segments rest)"
  by (induction q) (auto split: list.split)

lemma dot_dot_first:
  "''..'' \<in> set (segments q) \<longleftrightarrow>
   takeWhile (\<lambda>c. c \<noteq> CHR ''/'') q = ''..'' \<or> ''..'' \<in> set (segments (dropWhile (\<lambda>c. c \<noteq> CHR ''/'') q))"
proof (cases "dropWhile (\<lambda>c. c \<noteq> CHR ''/'') q")
  case Nil
  show ?thesis unfolding segments_first [of q] Nil by auto
next
  case (Cons c rest)
  then have "c = CHR ''/''" by (simp add: dropWhile_eq_Cons_conv)
  then show ?thesis unfolding segments_first [of q] Cons by auto
qed

lemma dot_dot_test:
  assumes "NUL \<notin> set q"
  shows "byte_at NUL q 0 = CHR ''.'' \<and> byte_at NUL q 1 = CHR ''.'' \<and>
      (byte_at NUL q 2 = CHR ''/'' \<or> byte_at NUL q 2 = NUL) \<longleftrightarrow>
    takeWhile (\<lambda>c. c \<noteq> CHR ''/'') q = ''..''"
proof -
  consider "q = []" | a where "q = [a]" | a b where "q = [a, b]" | a b c r where "q = a # b # c # r"
    by (metis list.exhaust)
  then show ?thesis
    using assms by cases (auto simp: numeral_2_eq_2)
qed

lemma contains_dot_dot_iff:
  "NUL \<notin> set p \<Longrightarrow> contains_dot_dot_segment p \<longleftrightarrow> ''..'' \<in> set (segments p)"
proof (induction p rule: contains_dot_dot_segment.induct)
  case (1 p)
  define q where "q = dropWhile (\<lambda>c. c = CHR ''/'') p"
  define rest where "rest = dropWhile (\<lambda>c. c \<noteq> CHR ''/'') q"
  have nul: "NUL \<notin> set q" "NUL \<notin> set rest"
    using "1.prems" by (auto simp: q_def rest_def dest!: set_dropWhileD)
  note test = dot_dot_test [OF nul(1)]
  show ?case
  proof (cases "p = []")
    case True
    then show ?thesis by (simp add: contains_dot_dot_segment.simps)
  next
    case False
    have IH: "takeWhile (\<lambda>c. c \<noteq> CHR ''/'') q \<noteq> ''..'' \<Longrightarrow>
        contains_dot_dot_segment rest \<longleftrightarrow> ''..'' \<in> set (segments rest)"
      using "1.IH" [OF False q_def] nul(2) test by (simp add: rest_def)
    have "contains_dot_dot_segment p \<longleftrightarrow>
        takeWhile (\<lambda>c. c \<noteq> CHR ''/'') q = ''..'' \<or> contains_dot_dot_segment rest"
      using False test by (subst contains_dot_dot_segment.simps) (simp add: Let_def q_def rest_def)
    also have "\<dots> \<longleftrightarrow> ''..'' \<in> set (segments q)"
      using IH dot_dot_first [of q] by (auto simp: rest_def)
    also have "\<dots> \<longleftrightarrow> ''..'' \<in> set (segments p)"
      unfolding q_def by (rule dot_dot_skip_slashes)
    finally show ?thesis .
  qed
qed

lemma path_has_prefix_iff:
  assumes "NUL \<notin> set p"
  shows "path_has_prefix p pre \<longleftrightarrow> p = pre \<or> (\<exists>s. p = pre @ CHR ''/'' # s)"
proof
  assume h: "path_has_prefix p pre"
  then have p: "p = pre @ drop (length pre) p" by (metis append_take_drop_id path_has_prefix_def)
  show "p = pre \<or> (\<exists>s. p = pre @ CHR ''/'' # s)"
  proof (cases "drop (length pre) p")
    case Nil
    with p show ?thesis by simp
  next
    case (Cons c s)
    with p have "p = pre @ c # s" by simp
    with h assms show ?thesis by (auto simp: path_has_prefix_def byte_at_def)
  qed
qed (auto simp: path_has_prefix_def byte_at_def)

section \<open>Lemmas: resolution\<close>

lemma length_mime_type: "length (file_mime_type s) \<le> 73"
proof -
  have "\<forall>(e, m) \<in> set mime_table. length m \<le> 73" by (simp add: mime_table_def)
  then show ?thesis
    by (auto simp: file_mime_type_def octet_stream_def split: option.split dest!: map_of_SomeD)
qed

lemma strrchr_append: "c \<notin> set t \<Longrightarrow> strrchr (s @ c # t) c = Some (c # t)"
  by (auto simp: strrchr_def takeWhile_append)

lemma file_resolve_path_OK:
  "file_resolve_path os doc_root request_path osize = (FILE_RESULT_OK, p) \<longleftrightarrow>
   (\<exists>decoded root_real. osize \<noteq> 0 \<and> decode_path request_path FILE_PATH_MAX = (FILE_RESULT_OK, decoded) \<and>
      \<not> contains_dot_dot_segment decoded \<and>
      length (doc_root @ ''/'' @ skip_slashes decoded) < FILE_PATH_MAX \<and>
      os_realpath os doc_root = Inr root_real \<and>
      os_realpath os (doc_root @ ''/'' @ skip_slashes decoded) = Inr p \<and>
      path_has_prefix p root_real \<and> length p < osize)"
  by (auto simp: file_resolve_path_def Let_def split: prod.splits sum.splits if_splits)

text \<open>\<^verbatim>\<open>realpath\<close> writes C strings: no answer holds a NUL.\<close>

definition realpath_c_strings :: "os_view \<Rightarrow> bool" where
  "realpath_c_strings os \<longleftrightarrow> (\<forall>p. case os_realpath os p of Inl e \<Rightarrow> True | Inr r \<Rightarrow> NUL \<notin> set r)"

lemma realpath_c_stringsD: "realpath_c_strings os \<Longrightarrow> os_realpath os x = Inr p \<Longrightarrow> NUL \<notin> set p"
  unfolding realpath_c_strings_def by (drule spec [of _ x]) simp

text \<open>A small file system for the witnesses: a document root with a file and a directory.\<close>

definition sample_os :: os_view where
  "sample_os =
     \<lparr>os_realpath = (\<lambda>p.
        if p = ''www'' then Inr ''/srv/www''
        else if p = ''www/a.txt'' then Inr ''/srv/www/a.txt''
        else if p = ''www/d'' then Inr ''/srv/www/d''
        else if p = ''www/link'' then Inr ''/srv/wwwx''
        else Inl ENOENT),
      os_stat = (\<lambda>p.
        if p = ''/srv/www/a.txt'' then Inr \<lparr>st_mode = S_REG, st_size = 5\<rparr>
        else if p = ''/srv/www/d'' then Inr \<lparr>st_mode = S_DIR, st_size = 4096\<rparr>
        else Inl ENOENT),
      os_readdir = (\<lambda>p. if p = ''/srv/www/d'' then Some [''.'', ''b'', ''..'', ''a''] else None),
      os_fopen = (\<lambda>p. if p = ''/srv/www/a.txt'' then Some ''hello'' else None),
      os_seekable = (\<lambda>_. True), os_heap = []\<rparr>"

lemma sample_os_c_strings: "realpath_c_strings sample_os"
  by (simp add: realpath_c_strings_def sample_os_def)

lemma file_resolve_path_confined:
  assumes "realpath_c_strings os"
    "file_resolve_path os doc_root request_path osize = (FILE_RESULT_OK, p)"
  shows "\<exists>root. os_realpath os doc_root = Inr root \<and> prefix (segments root) (segments p) \<and>
    prefix root p \<and> length p < osize"
proof -
  from assms(2) obtain root decoded where r: "os_realpath os doc_root = Inr root"
    "os_realpath os (doc_root @ ''/'' @ skip_slashes decoded) = Inr p" "path_has_prefix p root" "length p < osize"
    by (auto simp: file_resolve_path_OK)
  have "NUL \<notin> set p" by (rule realpath_c_stringsD [OF assms(1) r(2)])
  with r(3) have "p = root \<or> (\<exists>s. p = root @ CHR ''/'' # s)" by (simp add: path_has_prefix_iff)
  then have "prefix (segments root) (segments p) \<and> prefix root p" by (auto simp: segments_append)
  with r show ?thesis by blast
qed

section \<open>Properties\<close>

text \<open>C4: Confinement: a path that \<^verbatim>\<open>file_resolve_path\<close> returns lies in the document root. Its
  segments begin with all the segments of the resolved root, whatever the request and
  whatever the file system answers, and it fits the caller's buffer.\<close>

theorem resolved_path_confined:
  assumes "realpath_c_strings os"
    "file_resolve_path os doc_root request_path osize = (FILE_RESULT_OK, p)"
  shows "\<exists>root. os_realpath os doc_root = Inr root \<and> prefix (segments root) (segments p) \<and>
    prefix root p \<and> length p < osize"
  by (rule file_resolve_path_confined [OF assms])

theorem resolved_path_confined_witness:
  "\<exists>root. os_realpath sample_os ''www'' = Inr root \<and> prefix (segments root) (segments ''/srv/www/a.txt'') \<and>
    prefix root ''/srv/www/a.txt'' \<and> length ''/srv/www/a.txt'' < 4096"
proof (rule resolved_path_confined [OF sample_os_c_strings])
  show "file_resolve_path sample_os ''www'' ''/%61.txt'' 4096 = (FILE_RESULT_OK, ''/srv/www/a.txt'')"
    by code_simp
qed

text \<open>C19: Traversal is refused before the file system is asked: if the percent-decoded request
  path has a segment that is exactly two dots, the answer is FORBIDDEN, for every document
  root and every file system; and paths whose segments only contain dots among other
  characters are not refused by this check.\<close>

theorem traversal_forbidden:
  assumes "decode_path request_path FILE_PATH_MAX = (FILE_RESULT_OK, decoded)" "osize \<noteq> 0"
  shows "(contains_dot_dot_segment decoded \<longleftrightarrow> ''..'' \<in> set (segments decoded)) \<and>
    (''..'' \<in> set (segments decoded) \<longrightarrow>
      file_resolve_path os doc_root request_path osize = (FILE_RESULT_FORBIDDEN, []))"
proof -
  have "NUL \<notin> set decoded"
    using decode_path_bounds(2) [of NUL request_path FILE_PATH_MAX] assms
    by (simp add: decode_path_def FILE_PATH_MAX_def)
  then have c: "contains_dot_dot_segment decoded \<longleftrightarrow> ''..'' \<in> set (segments decoded)"
    by (rule contains_dot_dot_iff)
  with assms show ?thesis by (simp add: file_resolve_path_def)
qed

theorem traversal_forbidden_witness:
  "file_resolve_path sample_os ''www'' ''/%2e%2E/etc/passwd'' 4096 = (FILE_RESULT_FORBIDDEN, [])"
proof -
  have d: "decode_path ''/%2e%2E/etc/passwd'' FILE_PATH_MAX = (FILE_RESULT_OK, ''/../etc/passwd'')"
    by code_simp
  show ?thesis using traversal_forbidden [OF d, of 4096 sample_os "''www''"] by simp
qed

text \<open>C20: The decoder is memory-safe and clean: on every return the output fits its buffer with
  the NUL, it holds no NUL and no backslash, and the byte after the terminator, which the
  look-ahead reads when the path ends in a percent sign, never changes the result.\<close>

theorem decode_path_safe:
  assumes "osize \<noteq> 0"
  shows "length (snd (decode_path_past past input osize)) < osize \<and>
    set (snd (decode_path_past past input osize)) \<inter> {NUL, BACKSLASH} = {} \<and>
    decode_path_past past input osize = decode_path input osize"
proof -
  have "decode_path_past past input osize = decode_path input osize"
    by (simp add: decode_path_def decode_path_past_def decode_loop_past [of past osize input "[]" NUL])
  then show ?thesis
    using decode_path_bounds [of past input osize, OF surjective_pairing assms] by simp
qed

theorem decode_path_safe_witness:
  "length (snd (decode_path_past (CHR ''x'') ''/a%'' 4)) < 4 \<and>
    set (snd (decode_path_past (CHR ''x'') ''/a%'' 4)) \<inter> {NUL, BACKSLASH} = {} \<and>
    decode_path_past (CHR ''x'') ''/a%'' 4 = decode_path ''/a%'' 4"
  by (rule decode_path_safe) simp

text \<open>C21: Links of a directory listing lead back: a file name escaped as the listing escapes it
  is decoded to itself, for every name without a backslash that fits the buffer; a name with
  a backslash is escaped into a link that the decoder refuses.\<close>

theorem decode_url_escape:
  assumes "NUL \<notin> set name" "length name < osize"
  shows "if BACKSLASH \<in> set name then fst (decode_path (url_escape name) osize) = FILE_RESULT_FORBIDDEN
    else decode_path (url_escape name) osize = (FILE_RESULT_OK, name)"
  using assms decode_loop_url_escape [of name "[]" osize NUL]
    decode_loop_url_escape_forbidden [of name "[]" osize NUL]
  by (auto simp: decode_path_def decode_path_past_def)

theorem decode_url_escape_witness:
  "decode_path (url_escape ''space name #1.txt'') 4096 = (FILE_RESULT_OK, ''space name #1.txt'')"
  using decode_url_escape [of "''space name #1.txt''" 4096] by simp

text \<open>The MIME type of a path is that of its extension, the text from the last dot on: every
  extension of the table gives its type behind every stem, and anything else, a path
  without a dot included, is application/octet-stream.\<close>

theorem mime_type_by_extension:
  "(\<forall>(ext, mime) \<in> set mime_table. file_mime_type (stem @ ext) = mime) \<and>
   (CHR ''.'' \<notin> set s \<longrightarrow> file_mime_type s = octet_stream) \<and>
   (CHR ''.'' \<notin> set t \<longrightarrow> CHR ''.'' # t \<notin> fst ` set mime_table \<longrightarrow>
      file_mime_type (stem @ CHR ''.'' # t) = octet_stream)"
proof -
  have shape: "\<forall>(ext, mime) \<in> set mime_table. \<exists>u. ext = CHR ''.'' # u \<and> CHR ''.'' \<notin> set u"
    by (simp add: mime_table_def)
  have dist: "distinct (map fst mime_table)" by (simp add: mime_table_def)
  have known: "file_mime_type (stem @ ext) = mime" if m: "(ext, mime) \<in> set mime_table" for ext mime
  proof -
    from shape m obtain u where "ext = CHR ''.'' # u" "CHR ''.'' \<notin> set u" by blast
    with map_of_is_SomeI [OF dist m] show ?thesis by (simp add: file_mime_type_def strrchr_append)
  qed
  have none: "CHR ''.'' # t \<notin> fst ` set mime_table \<longrightarrow> map_of mime_table (CHR ''.'' # t) = None"
    by (simp add: map_of_eq_None_iff)
  moreover from none have "CHR ''.'' \<notin> set t \<longrightarrow> CHR ''.'' # t \<notin> fst ` set mime_table \<longrightarrow>
      file_mime_type (stem @ CHR ''.'' # t) = octet_stream"
    by (simp add: file_mime_type_def strrchr_append)
  moreover have "CHR ''.'' \<notin> set s \<longrightarrow> file_mime_type s = octet_stream"
    by (simp add: file_mime_type_def strrchr_def)
  ultimately show ?thesis using known by blast
qed

theorem mime_type_by_extension_witness:
  "file_mime_type ''/www/archive.tar.gz'' = ''application/gzip'' \<and> file_mime_type ''/www/README'' = octet_stream"
proof -
  have "(''.gz'', ''application/gzip'') \<in> set mime_table" by (simp add: mime_table_def)
  with mime_type_by_extension [of "''/www/archive.tar''" "''/www/README''" "[]"] show ?thesis by auto
qed

text \<open>What \<^verbatim>\<open>file_stat_path\<close> reports: a success is a directory (size 0, HTML) or a regular
  file with the size and type of the resolved path; anything else on disk is FORBIDDEN.\<close>

theorem file_stat_path_classifies:
  assumes "file_resolve_path os doc_root request_path FILE_PATH_MAX = (FILE_RESULT_OK, p)" "os_stat os p = Inr st"
  shows "file_stat_path os doc_root request_path =
    (case st_mode st of
       S_DIR \<Rightarrow> (FILE_RESULT_OK, \<lparr>resolved_path = p, info_kind = FILE_KIND_DIRECTORY, info_size = 0, mime_type = ''text/html''\<rparr>)
     | S_REG \<Rightarrow> (FILE_RESULT_OK, \<lparr>resolved_path = p, info_kind = FILE_KIND_REGULAR,
         info_size = of_int (st_size st), mime_type = file_mime_type p\<rparr>)
     | S_OTHER \<Rightarrow> (FILE_RESULT_FORBIDDEN, zero_info\<lparr>resolved_path := p\<rparr>))"
  using assms by (simp add: file_stat_path_def zero_info_def split: st_mode.split)

theorem file_stat_path_classifies_witness:
  "file_stat_path sample_os ''www'' ''//a.txt'' =
    (FILE_RESULT_OK, \<lparr>resolved_path = ''/srv/www/a.txt'', info_kind = FILE_KIND_REGULAR, info_size = 5, mime_type = ''text/plain''\<rparr>)"
proof -
  have r: "file_resolve_path sample_os ''www'' ''//a.txt'' FILE_PATH_MAX = (FILE_RESULT_OK, ''/srv/www/a.txt'')"
    by code_simp
  have s: "os_stat sample_os ''/srv/www/a.txt'' = Inr \<lparr>st_mode = S_REG, st_size = 5\<rparr>"
    by (simp add: sample_os_def)
  have m: "file_mime_type ''/srv/www/a.txt'' = ''text/plain''" by code_simp
  show ?thesis using file_stat_path_classifies [OF r s] m by simp
qed

text \<open>C34: A document root that resolves to the file system's root serves nothing: the prefix
  check wants a slash after the root's own slash, so that every absolute path other than the
  root itself (and other than one that starts with two slashes) is FORBIDDEN.\<close>

theorem root_directory_serves_nothing:
  assumes "realpath_c_strings os" "os_realpath os doc_root = Inr ''/''"
    "file_resolve_path os doc_root request_path osize = (FILE_RESULT_OK, p)"
  shows "p = ''/'' \<or> take 2 p = ''//''"
proof -
  from assms(2,3) obtain decoded where r: "path_has_prefix p ''/''"
    "os_realpath os (doc_root @ ''/'' @ skip_slashes decoded) = Inr p"
    by (auto simp: file_resolve_path_OK)
  have "NUL \<notin> set p" by (rule realpath_c_stringsD [OF assms(1) r(2)])
  with r(1) show ?thesis by (auto simp: path_has_prefix_iff)
qed

definition slash_os :: os_view where
  "slash_os = sample_os\<lparr>os_realpath := (\<lambda>p. Inr (if p = ''/'' \<or> p = ''//'' then ''/'' else ''/etc''))\<rparr>"

theorem root_directory_serves_nothing_witness:
  "fst (file_resolve_path slash_os ''/'' ''/etc'' 4096) = FILE_RESULT_FORBIDDEN \<and>
   (''/'' = ''/'' \<or> take 2 ''/'' = ''//'')"
proof -
  have c: "realpath_c_strings slash_os" by (simp add: realpath_c_strings_def slash_os_def)
  have r: "os_realpath slash_os ''/'' = Inr ''/''" by (simp add: slash_os_def)
  have f: "file_resolve_path slash_os ''/'' ''/'' 4096 = (FILE_RESULT_OK, ''/'')" by code_simp
  have "fst (file_resolve_path slash_os ''/'' ''/etc'' 4096) = FILE_RESULT_FORBIDDEN" by code_simp
  with root_directory_serves_nothing [OF c r f] show ?thesis by simp
qed

end
