(* ===== verification/Listing.thy ===== *)
theory Listing
  imports Paths "HOL-Library.Multiset"
begin

text \<open>
  The directory listing of \<^verbatim>\<open>src/files.c\<close> (lines 151 to 205 and 519 to 597): reading the
  directory into a growing table, sorting it, and writing the page through the builder.

  The table is the list of its entries with the capacity; \<^verbatim>\<open>qsort\<close>, whose algorithm C leaves
  open, is an insertion sort, and \<open>sorted_entries_unique\<close> shows that any other sort gives the
  same table when the names are distinct, as they are in a directory. The freeing of memory
  has no counterpart.
\<close>

section \<open>The table of entries\<close>

record directory_entry =
  entry_name :: string
  is_directory :: bool

definition duplicate_string :: "string \<Rightarrow> heap \<Rightarrow> string option \<times> heap" where
  "duplicate_string s heap =
     (let (ok, heap) = allocate heap in ((if ok then Some s else None), heap))"

text \<open>Of the result of \<^verbatim>\<open>strcmp\<close> C fixes the sign only.\<close>

fun strcmp :: "string \<Rightarrow> string \<Rightarrow> int" where
  "strcmp [] [] = 0"
| "strcmp [] (b # bs) = - 1"
| "strcmp (a # as) [] = 1"
| "strcmp (a # as) (b # bs) =
     (if a = b then strcmp as bs else if byte a < byte b then - 1 else 1)"

definition compare_directory_entries :: "directory_entry \<Rightarrow> directory_entry \<Rightarrow> int" where
  "compare_directory_entries left right = strcmp (entry_name left) (entry_name right)"

text \<open>
  The table grows by doubling. The number of bytes asked of \<^verbatim>\<open>realloc\<close> is a product that the code
  does not check; \<open>entry_bytes_exact\<close> says that it cannot wrap before 2^60 entries, so that the
  table has room for its capacity in every directory there can be. Beyond, the model does not
  follow the code.
\<close>

definition entry_bytes :: "size_t \<Rightarrow> size_t" where
  "entry_bytes new_capacity = new_capacity * 16"

definition append_directory_entry ::
  "directory_entry list \<Rightarrow> size_t \<Rightarrow> string \<Rightarrow> bool \<Rightarrow> heap \<Rightarrow> bool \<times> directory_entry list \<times> size_t \<times> heap" where
  "append_directory_entry entries capacity name is_dir heap =
     (let (ok, capacity, heap) =
        (if of_nat (length entries) = capacity then
           let new_capacity = (if capacity = 0 then 16 else capacity * 2) in
           if new_capacity < capacity then (False, capacity, heap)
           else
             let (grown, heap) = allocate heap in
             if \<not> grown then (False, capacity, heap) else (True, new_capacity, heap)
         else (True, capacity, heap))
      in if \<not> ok then (False, entries, capacity, heap)
         else
           let (copy, heap) = duplicate_string name heap in
           (case copy of
              None \<Rightarrow> (False, entries, capacity, heap)
            | Some name' \<Rightarrow>
                (True, entries @ [\<lparr>entry_name = name', is_directory = is_dir\<rparr>], capacity, heap)))"

definition is_hidden :: "string \<Rightarrow> bool" where
  "is_hidden name \<longleftrightarrow> byte_at NUL name 0 = CHR ''.''"

definition child_is_directory :: "os_view \<Rightarrow> string \<Rightarrow> string \<Rightarrow> bool" where
  "child_is_directory os resolved name =
     (let child_path = resolved @ ''/'' @ name in
      length child_path < FILE_PATH_MAX \<and>
      (case os_stat os child_path of Inl e \<Rightarrow> False | Inr st \<Rightarrow> st_mode st = S_DIR))"

fun read_entries ::
  "os_view \<Rightarrow> string \<Rightarrow> string list \<Rightarrow> directory_entry list \<Rightarrow> size_t \<Rightarrow> heap \<Rightarrow>
   bool \<times> directory_entry list \<times> heap" where
  "read_entries os resolved [] entries capacity heap = (True, entries, heap)"
| "read_entries os resolved (name # names) entries capacity heap =
     (if is_hidden name then read_entries os resolved names entries capacity heap
      else
        let (ok, entries, capacity, heap) =
              append_directory_entry entries capacity name (child_is_directory os resolved name) heap
        in if \<not> ok then (False, entries, heap)
           else read_entries os resolved names entries capacity heap)"

fun insert_entry :: "directory_entry \<Rightarrow> directory_entry list \<Rightarrow> directory_entry list" where
  "insert_entry e [] = [e]"
| "insert_entry e (x # xs) =
     (if compare_directory_entries e x \<le> 0 then e # x # xs else x # insert_entry e xs)"

fun sort_entries :: "directory_entry list \<Rightarrow> directory_entry list" where
  "sort_entries [] = []"
| "sort_entries (e # entries) = insert_entry e (sort_entries entries)"

section \<open>The page\<close>

definition append_entry :: "directory_entry \<Rightarrow> string_builder \<Rightarrow> heap \<Rightarrow> bool \<times> string_builder \<times> heap" where
  "append_entry e =
     builder_chain
       ([builder_append_text ''<li><a href=\"'',
         builder_append_url_escaped (entry_name e)] @
        (if is_directory e then [builder_append_char (CHR ''/'')] else []) @
        [builder_append_text ''\">'',
         builder_append_html_escaped (entry_name e)] @
        (if is_directory e then [builder_append_char (CHR ''/'')] else []) @
        [builder_append_text ''</a></li>''])"

definition listing_head :: string where
  "listing_head = ''<!doctype html><html><head><meta charset=\"utf-8\"><title>Index of ''"

definition listing_middle :: string where
  "listing_middle = ''</title></head><body><h1>Index of ''"

definition append_head :: "string \<Rightarrow> string_builder \<Rightarrow> heap \<Rightarrow> bool \<times> string_builder \<times> heap" where
  "append_head request_path =
     builder_chain
       [builder_append_text listing_head,
        builder_append_html_escaped request_path,
        builder_append_text listing_middle,
        builder_append_html_escaped request_path,
        builder_append_text ''</h1><ul>'']"

definition file_build_directory_listing ::
  "os_view \<Rightarrow> string \<Rightarrow> string \<Rightarrow> file_result \<times> string option \<times> size_t" where
  "file_build_directory_listing os request_path resolved =
     (case os_readdir os resolved of
        None \<Rightarrow> (FILE_RESULT_ERROR, None, 0)
      | Some names \<Rightarrow>
          let (ok, entries, heap) = read_entries os resolved names [] 0 (os_heap os) in
          if \<not> ok then (FILE_RESULT_ERROR, None, 0)
          else
            let entries = sort_entries entries;
                (ok, b, heap) = append_head request_path empty_builder heap
            in if \<not> ok then (FILE_RESULT_ERROR, None, 0)
               else
                 let (ok, b, heap) = builder_chain (map append_entry entries) b heap in
                 if \<not> ok then (FILE_RESULT_ERROR, None, 0)
                 else
                   let (ok, b, heap) = builder_append_text ''</ul></body></html>'' b heap in
                   if \<not> ok then (FILE_RESULT_ERROR, None, 0)
                   else (FILE_RESULT_OK, Some (contents b), builder_length b))"

section \<open>Lemmas: sorting\<close>

lemma strcmp_self [simp]: "strcmp s s = 0"
  by (induction s) auto

lemma strcmp_eq_0: "strcmp s t = 0 \<longleftrightarrow> s = t"
  by (induction s t rule: strcmp.induct) auto

lemma strcmp_flip: "strcmp t s = - strcmp s t"
proof (induction s t rule: strcmp.induct)
  case (4 a as b bs)
  then show ?case using byte_inject [of a b] by (auto simp del: byte_inject)
qed simp_all

lemma strcmp_trans: "strcmp s t \<le> 0 \<Longrightarrow> strcmp t u \<le> 0 \<Longrightarrow> strcmp s u \<le> 0"
proof (induction s t arbitrary: u rule: strcmp.induct)
  case (4 a as b bs)
  then show ?case by (cases u) (auto split: if_splits)
next
  case (2 b bs)
  show ?case by (cases u) auto
qed auto

abbreviation entry_le :: "directory_entry \<Rightarrow> directory_entry \<Rightarrow> bool" where
  "entry_le e f \<equiv> compare_directory_entries e f \<le> 0"

lemma entry_le_trans: "entry_le e f \<Longrightarrow> entry_le f g \<Longrightarrow> entry_le e g"
  unfolding compare_directory_entries_def by (rule strcmp_trans)

lemma entry_le_total: "\<not> entry_le e f \<Longrightarrow> entry_le f e"
  using strcmp_flip [of "entry_name e" "entry_name f"] by (simp add: compare_directory_entries_def)

lemma entry_le_refl [simp]: "entry_le e e"
  by (simp add: compare_directory_entries_def)

lemma mset_insert_entry [simp]: "mset (insert_entry e xs) = add_mset e (mset xs)"
  by (induction xs) auto

lemma mset_sort_entries [simp]: "mset (sort_entries xs) = mset xs"
  by (induction xs) auto

lemma set_sort_entries [simp]: "set (sort_entries xs) = set xs"
  by (metis mset_sort_entries set_mset_mset)

lemma sorted_insert_entry: "sorted_wrt entry_le xs \<Longrightarrow> sorted_wrt entry_le (insert_entry e xs)"
proof (induction xs)
  case (Cons x xs)
  have set: "set (insert_entry e xs) = insert e (set xs)"
    by (metis mset_insert_entry set_mset_add_mset_insert set_mset_mset)
  show ?case
    using Cons entry_le_trans entry_le_total [of e x] by (auto simp: set)
qed simp

lemma sorted_sort_entries: "sorted_wrt entry_le (sort_entries xs)"
  by (induction xs) (auto simp: sorted_insert_entry)

lemma sorted_entries_unique:
  assumes "mset xs = mset ys" "sorted_wrt entry_le xs" "sorted_wrt entry_le ys"
    "distinct (map entry_name xs)"
  shows "xs = ys"
  using assms
proof (induction xs arbitrary: ys)
  case Nil
  then show ?case by simp
next
  case (Cons x xs)
  then obtain y ys' where ys: "ys = y # ys'" by (cases ys) auto
  have sets: "set (x # xs) = set ys" using Cons.prems(1) by (metis set_mset_mset)
  from sets ys have "y \<in> insert x (set xs)" "x \<in> insert y (set ys')" by auto
  with Cons.prems(2,3) ys have "entry_le x y" "entry_le y x" by auto
  then have "strcmp (entry_name x) (entry_name y) = 0"
    using strcmp_flip [of "entry_name x" "entry_name y"] by (simp add: compare_directory_entries_def)
  then have "entry_name x = entry_name y" by (simp add: strcmp_eq_0)
  moreover have "x \<in> set (x # xs)" "y \<in> set (x # xs)" using sets ys by auto
  ultimately have "x = y" using Cons.prems(4) by (metis distinct_map inj_onD)
  moreover have "xs = ys'"
    using Cons ys \<open>x = y\<close> by (intro Cons.IH) auto
  ultimately show ?case by (simp add: ys)
qed

text \<open>The order of the names, said without \<^verbatim>\<open>strcmp\<close>: lexicographic on the bytes.\<close>

abbreviation in_byte_order :: "directory_entry \<Rightarrow> directory_entry \<Rightarrow> bool" where
  "in_byte_order e f \<equiv> lexordp_eq (map byte (entry_name e)) (map byte (entry_name f))"

lemma strcmp_le_0_iff: "strcmp s t \<le> 0 \<longleftrightarrow> lexordp_eq (map byte s) (map byte t)"
proof (induction s t rule: strcmp.induct)
  case (4 a as b bs)
  then show ?case using byte_inject [of a b] by (auto simp del: byte_inject)
qed simp_all

lemma sort_entries_byte_order: "sorted_wrt in_byte_order (sort_entries xs)"
  using sorted_sort_entries [of xs] by (simp add: compare_directory_entries_def strcmp_le_0_iff)

section \<open>Lemmas: reading the directory\<close>

lemma entry_bytes_exact: "unat n < 2 ^ 60 \<Longrightarrow> unat (entry_bytes n) = 16 * unat n"
  unfolding entry_bytes_def by (subst unat_mult_lem [THEN iffD1]) auto

definition listed :: "os_view \<Rightarrow> string \<Rightarrow> string list \<Rightarrow> directory_entry list" where
  "listed os resolved names =
     map (\<lambda>n. \<lparr>entry_name = n, is_directory = child_is_directory os resolved n\<rparr>)
       (filter (\<lambda>n. \<not> is_hidden n) names)"

lemma append_directory_entry_ok:
  "append_directory_entry es cap n d h = (True, es', cap', h') \<Longrightarrow>
   es' = es @ [\<lparr>entry_name = n, is_directory = d\<rparr>]"
  by (auto simp: append_directory_entry_def duplicate_string_def Let_def
      split: prod.splits if_splits option.splits)

lemma read_entries_ok:
  "read_entries os resolved names es cap h = (True, es', h') \<Longrightarrow> es' = es @ listed os resolved names"
proof (induction names arbitrary: es cap h)
  case Nil
  then show ?case by (simp add: listed_def)
next
  case (Cons n names)
  show ?case
  proof (cases "is_hidden n")
    case True
    with Cons show ?thesis by (simp add: listed_def)
  next
    case False
    obtain ok es1 cap1 h1 where one:
      "append_directory_entry es cap n (child_is_directory os resolved n) h = (ok, es1, cap1, h1)"
      by (metis prod_cases4)
    with Cons.prems False have ok
      and rest: "read_entries os resolved names es1 cap1 h1 = (True, es', h')"
      by (auto split: if_splits)
    with one Cons.IH [OF rest] append_directory_entry_ok False show ?thesis by (fastforce simp: listed_def)
  qed
qed

lemma append_directory_entry_total:
  assumes "length es \<le> unat cap" "unat cap \<le> max 16 (2 * length es)" "length es < 2 ^ 62"
  shows "\<exists>es' cap'. append_directory_entry es cap n d [] = (True, es', cap', []) \<and>
    length es' = Suc (length es) \<and> length es' \<le> unat cap' \<and> unat cap' \<le> max 16 (2 * length es')"
proof -
  have len: "unat (of_nat (length es) :: size_t) = length es"
    using assms(3) by (simp add: unat_of_nat)
  show ?thesis
  proof (cases "of_nat (length es) = cap")
    case False
    then have "length es \<noteq> unat cap" by auto
    with False assms show ?thesis
      by (auto simp: append_directory_entry_def duplicate_string_def Let_def)
  next
    case True
    with len have cap: "unat cap = length es" by auto
    show ?thesis
    proof (cases "cap = 0")
      case True
      with cap \<open>of_nat (length es) = cap\<close> show ?thesis
        by (auto simp: append_directory_entry_def duplicate_string_def Let_def)
    next
      case False
      have "unat (cap * 2) = 2 * length es"
        using cap assms(3) by (subst unat_mult_lem [THEN iffD1]) auto
      moreover have "\<not> cap * 2 < cap"
        using calculation cap by (simp add: word_less_nat_alt)
      moreover have "1 \<le> length es" using False cap unat_gt_0 [of cap] by linarith
      ultimately show ?thesis using False \<open>of_nat (length es) = cap\<close>
        by (auto simp: append_directory_entry_def duplicate_string_def Let_def)
    qed
  qed
qed

lemma read_entries_total:
  assumes "length es \<le> unat cap" "unat cap \<le> max 16 (2 * length es)" "length es + length names < 2 ^ 62"
  shows "\<exists>es'. read_entries os resolved names es cap [] = (True, es', [])"
  using assms
proof (induction names arbitrary: es cap)
  case Nil
  then show ?case by simp
next
  case (Cons n names)
  show ?case
  proof (cases "is_hidden n")
    case True
    with Cons show ?thesis by simp
  next
    case False
    from Cons.prems have "length es < 2 ^ 62" by simp
    from append_directory_entry_total [OF Cons.prems(1,2) this, of n "child_is_directory os resolved n"]
    obtain es1 cap1 where one:
      "append_directory_entry es cap n (child_is_directory os resolved n) [] = (True, es1, cap1, [])"
      "length es1 = Suc (length es)" "length es1 \<le> unat cap1" "unat cap1 \<le> max 16 (2 * length es1)"
      by blast
    then have "\<exists>es'. read_entries os resolved names es1 cap1 [] = (True, es', [])"
      using Cons.prems by (intro Cons.IH) auto
    with False one show ?thesis by simp
  qed
qed

section \<open>The page as a text\<close>

definition entry_slash :: "directory_entry \<Rightarrow> string" where
  "entry_slash e = (if is_directory e then ''/'' else [])"

definition entry_html :: "directory_entry \<Rightarrow> string" where
  "entry_html e =
     ''<li><a href=\"'' @ url_escape (entry_name e) @ entry_slash e @ ''\">'' @
     html_escape (entry_name e) @ entry_slash e @ ''</a></li>''"

definition head_html :: "string \<Rightarrow> string" where
  "head_html request_path =
     listing_head @ html_escape request_path @ listing_middle @ html_escape request_path @ ''</h1><ul>''"

definition listing_html :: "string \<Rightarrow> directory_entry list \<Rightarrow> string" where
  "listing_html request_path entries =
     head_html request_path @ concat (map entry_html entries) @ ''</ul></body></html>''"

interpretation entry_app: appender append_entry entry_html "\<lambda>_. True"
proof unfold_locales
  fix e :: directory_entry
  note pieces = text_app.act_appends url_app.act_appends [OF TrueI] html_app.act_appends [OF TrueI]
    char_app.act_appends [OF TrueI]
  have "appends (append_entry e) (concat
      ([''<li><a href=\"'', url_escape (entry_name e)] @ (if is_directory e then [''/''] else []) @
       [''\">'', html_escape (entry_name e)] @ (if is_directory e then [''/''] else []) @ [''</a></li>'']))"
    unfolding append_entry_def by (rule appends_chain) (auto intro!: pieces)
  then show "appends (append_entry e) (entry_html e)"
    by (cases "is_directory e") (simp_all add: entry_html_def entry_slash_def)
qed

interpretation head_app: appender append_head head_html "\<lambda>_. True"
proof unfold_locales
  fix p :: string
  note pieces = text_app.act_appends html_app.act_appends [OF TrueI]
  have "appends (append_head p)
      (concat [listing_head, html_escape p, listing_middle, html_escape p, ''</h1><ul>''])"
    unfolding append_head_def
    by (rule appends_chain) (auto intro!: pieces simp: listing_head_def listing_middle_def)
  then show "appends (append_head p) (head_html p)" by (simp add: head_html_def)
qed

text \<open>The whole page as one chain of appends.\<close>

definition append_page :: "string \<Rightarrow> directory_entry list \<Rightarrow> string_builder \<Rightarrow> heap \<Rightarrow> bool \<times> string_builder \<times> heap" where
  "append_page request_path entries =
     builder_chain [append_head request_path, builder_chain (map append_entry entries),
       builder_append_text ''</ul></body></html>'']"

lemma append_page_appends: "appends (append_page request_path entries) (listing_html request_path entries)"
proof -
  have "appends (append_page request_path entries)
      (concat [head_html request_path, concat (map entry_html entries), ''</ul></body></html>''])"
    unfolding append_page_def
    by (rule appends_chain)
      (auto intro!: text_app.act_appends head_app.act_appends [OF TrueI] entry_app.items simp: list_all_iff)
  then show ?thesis by (simp add: listing_html_def)
qed

lemma file_build_directory_listing_page:
  "file_build_directory_listing os request_path resolved =
     (case os_readdir os resolved of
        None \<Rightarrow> (FILE_RESULT_ERROR, None, 0)
      | Some names \<Rightarrow>
          let (ok, entries, h) = read_entries os resolved names [] 0 (os_heap os) in
          if \<not> ok then (FILE_RESULT_ERROR, None, 0)
          else let (ok, b, h) = append_page request_path (sort_entries entries) empty_builder h in
            if \<not> ok then (FILE_RESULT_ERROR, None, 0)
            else (FILE_RESULT_OK, Some (contents b), builder_length b))"
  by (auto simp: file_build_directory_listing_def append_page_def Let_def split: option.split prod.split)

lemma file_build_directory_listing_result:
  assumes "os_readdir os resolved = Some names"
    "file_build_directory_listing os request_path resolved = (FILE_RESULT_OK, body, len)"
  shows "\<exists>page. body = Some page \<and> unat len = length page \<and>
    page = listing_html request_path (sort_entries (listed os resolved names))"
proof -
  obtain ok entries h where r: "read_entries os resolved names [] 0 (os_heap os) = (ok, entries, h)"
    by (metis prod_cases3)
  with assms have ok by (auto simp: file_build_directory_listing_page split: if_splits)
  with r read_entries_ok have e: "entries = listed os resolved names" by fastforce
  obtain ok2 b h2 where p: "append_page request_path (sort_entries entries) empty_builder h = (ok2, b, h2)"
    by (metis prod_cases3)
  note D = appendsD [OF append_page_appends wf_empty_builder(1) p]
  from assms r p \<open>ok\<close> have ok2 "body = Some (contents b)" "len = builder_length b"
    by (auto simp: file_build_directory_listing_page split: if_splits)
  with D e length_contents [OF D(1)] show ?thesis by auto
qed

lemma file_build_directory_listing_total:
  assumes "os_readdir os resolved = Some names" "os_heap os = []" "length names < 2 ^ 62"
    "length (listing_html request_path (sort_entries (listed os resolved names))) < 2 ^ 64 - 1"
  shows "fst (file_build_directory_listing os request_path resolved) = FILE_RESULT_OK"
proof -
  from read_entries_total [of "[]" 0 names] assms(3) obtain entries where
    r: "read_entries os resolved names [] 0 [] = (True, entries, [])" by fastforce
  then have e: "entries = listed os resolved names" using read_entries_ok by fastforce
  obtain ok b h where p: "append_page request_path (sort_entries entries) empty_builder [] = (ok, b, h)"
    by (metis prod_cases3)
  with appendsD(4) [OF append_page_appends wf_empty_builder(1) p] assms(4) e have ok by simp
  with assms(1,2) r p show ?thesis by (simp add: file_build_directory_listing_page)
qed

text \<open>The sample directory for the witnesses.\<close>

lemma sample_directory:
  "os_readdir sample_os ''/srv/www/d'' = Some [''.'', ''b'', ''..'', ''a'']" "os_heap sample_os = []"
  "length (listing_html ''/d/'' (sort_entries (listed sample_os ''/srv/www/d'' [''.'', ''b'', ''..'', ''a'']))) = 185"
  by (simp add: sample_os_def, simp add: sample_os_def, code_simp)

section \<open>Properties\<close>

text \<open>C25: The listing page: a successful call returns, with its exact length, the page with the
  escaped request path and one escaped link for each name that does not start with a dot, a
  slash behind the directories. The links stand in the lexicographic order of the bytes of the
  names, files and directories mixed, and nothing else is on the page, so no link to the
  parent.\<close>

theorem directory_listing_page:
  assumes "os_readdir os resolved = Some names"
    "file_build_directory_listing os request_path resolved = (FILE_RESULT_OK, body, len)"
  shows "\<exists>page entries. body = Some page \<and> unat len = length page \<and>
    page = listing_html request_path entries \<and> mset entries = mset (listed os resolved names) \<and>
    sorted_wrt (\<lambda>e f. lexordp_eq (map byte (entry_name e)) (map byte (entry_name f))) entries"
  using file_build_directory_listing_result [OF assms] sort_entries_byte_order mset_sort_entries by metis

theorem directory_listing_page_witness:
  "\<exists>page entries. fst (snd (file_build_directory_listing sample_os ''/d/'' ''/srv/www/d'')) = Some page \<and>
    page = listing_html ''/d/'' entries \<and> mset entries = mset (listed sample_os ''/srv/www/d'' [''.'', ''b'', ''..'', ''a''])"
proof -
  obtain r body len where f: "file_build_directory_listing sample_os ''/d/'' ''/srv/www/d'' = (r, body, len)"
    by (metis prod_cases3)
  have "fst (file_build_directory_listing sample_os ''/d/'' ''/srv/www/d'') = FILE_RESULT_OK"
    by (rule file_build_directory_listing_total [OF sample_directory(1,2)]) (simp_all add: sample_directory(3))
  with f have "r = FILE_RESULT_OK" by simp
  from directory_listing_page [OF sample_directory(1) f [unfolded this]] f show ?thesis by auto
qed

text \<open>The listing does not fail by itself: while the allocator gives memory and the page fits
  a size_t, every readable directory is listed. (With fewer than \<open>2 ^ 59\<close> names the capacity
  stays below \<open>2 ^ 60\<close>, where \<open>entry_bytes\<close> is exact.)\<close>

theorem directory_listing_total:
  assumes "os_readdir os resolved = Some names" "os_heap os = []" "length names < 2 ^ 59"
    "length (listing_html request_path (sort_entries (listed os resolved names))) < 2 ^ 64 - 1"
  shows "fst (file_build_directory_listing os request_path resolved) = FILE_RESULT_OK"
  by (rule file_build_directory_listing_total [OF assms(1,2) _ assms(4)]) (use assms(3) in simp)

theorem directory_listing_total_witness:
  "fst (file_build_directory_listing sample_os ''/d/'' ''/srv/www/d'') = FILE_RESULT_OK"
  by (rule directory_listing_total [OF sample_directory(1,2)]) (simp_all add: sample_directory(3))

text \<open>The order of the page does not depend on the sorting algorithm: any arrangement of the
  entries that \<^verbatim>\<open>qsort\<close> may return (a permutation, sorted for the comparison function) is
  the one of the model when the names are distinct.\<close>

theorem listing_order_unique:
  assumes "distinct (map entry_name entries)" "mset sorted_entries = mset entries"
    "sorted_wrt (\<lambda>e f. compare_directory_entries e f \<le> 0) sorted_entries"
  shows "sorted_entries = sort_entries entries"
proof (rule sorted_entries_unique)
  show "distinct (map entry_name sorted_entries)"
    using assms(1,2) by (metis mset_eq_imp_distinct_iff mset_map)
qed (use assms sorted_sort_entries in simp_all)

theorem listing_order_unique_witness:
  "[\<lparr>entry_name = ''a'', is_directory = True\<rparr>, \<lparr>entry_name = ''b'', is_directory = False\<rparr>] =
    sort_entries [\<lparr>entry_name = ''b'', is_directory = False\<rparr>, \<lparr>entry_name = ''a'', is_directory = True\<rparr>]"
  by (rule listing_order_unique) (simp_all add: compare_directory_entries_def byte_def)

end
