(* ===== verification/SocketQueue.thy ===== *)
theory SocketQueue
  imports Builder
begin

text \<open>
  The bounded queue of \<^verbatim>\<open>src/thread_pool.c\<close>: a ring buffer of client sockets.

  \<open>socket_queue\<close> has the fields of \<^verbatim>\<open>struct socket_queue\<close> without its mutex and its condition
  variables: the critical sections of the functions are the definitions here
  (\<open>enqueue_locked\<close>, \<open>dequeue_locked\<close>), and the theory ThreadPool says who runs them and who
  sleeps. Indices and counts are \<^verbatim>\<open>size_t\<close> words, the index arithmetic is the code's.

  The contract of the queue, as an unbounded list with a capacity, is the locale
  \<open>bounded_queue\<close>; the ring buffer interprets it.
\<close>

section \<open>The ring buffer\<close>

datatype queue_result = QUEUE_OK | QUEUE_FULL | QUEUE_CLOSED | QUEUE_ERROR

record socket_queue =
  q_items :: "fd list"
  q_capacity :: size_t
  q_head :: size_t
  q_tail :: size_t
  q_count :: size_t
  q_shutdown :: bool

text \<open>
  \<^verbatim>\<open>socket_queue_init\<close>: two allocations, then a mutex and two condition variables, each of
  which may fail; the outcomes come from the same list.
\<close>

definition socket_queue_init :: "size_t \<Rightarrow> heap \<Rightarrow> socket_queue option \<times> heap" where
  "socket_queue_init capacity heap =
     (if capacity = 0 then (None, heap)
      else
        let (created, heap) = allocate heap in
        if \<not> created then (None, heap)
        else
          let (items, heap) = allocate heap in
          if \<not> items then (None, heap)
          else
            let (mutex, heap) = allocate heap in
            if \<not> mutex then (None, heap)
            else
              let (not_empty, heap) = allocate heap in
              if \<not> not_empty then (None, heap)
              else
                let (not_full, heap) = allocate heap in
                if \<not> not_full then (None, heap)
                else (Some \<lparr>q_items = replicate (unat capacity) 0, q_capacity = capacity,
                        q_head = 0, q_tail = 0, q_count = 0, q_shutdown = False\<rparr>, heap))"

definition enqueue_locked :: "fd \<Rightarrow> socket_queue \<Rightarrow> queue_result \<times> socket_queue" where
  "enqueue_locked client_fd q =
     (if q_shutdown q then (QUEUE_CLOSED, q)
      else if q_count q = q_capacity q then (QUEUE_FULL, q)
      else (QUEUE_OK,
        q\<lparr>q_items := (q_items q)[unat (q_tail q) := client_fd],
          q_tail := (q_tail q + 1) mod q_capacity q,
          q_count := q_count q + 1\<rparr>))"

definition socket_queue_enqueue ::
  "socket_queue option \<Rightarrow> fd \<Rightarrow> queue_result \<times> socket_queue option" where
  "socket_queue_enqueue queue client_fd =
     (case queue of
        None \<Rightarrow> (QUEUE_ERROR, None)
      | Some q \<Rightarrow> let (result, q) = enqueue_locked client_fd q in (result, Some q))"

text \<open>
  One pass through the critical section of \<^verbatim>\<open>socket_queue_dequeue\<close>, from the test of the loop:
  the caller has to wait, or the queue is closed, or it takes the head.
\<close>

datatype 'q dequeue_outcome = Dequeue_wait | Dequeue_closed | Dequeue_item fd 'q

definition dequeue_locked :: "socket_queue \<Rightarrow> socket_queue dequeue_outcome" where
  "dequeue_locked q =
     (if q_count q = 0 \<and> \<not> q_shutdown q then Dequeue_wait
      else if q_count q = 0 \<and> q_shutdown q then Dequeue_closed
      else Dequeue_item (q_items q ! unat (q_head q))
        (q\<lparr>q_head := (q_head q + 1) mod q_capacity q, q_count := q_count q - 1\<rparr>))"

definition shutdown_locked :: "socket_queue \<Rightarrow> socket_queue" where
  "shutdown_locked q = q\<lparr>q_shutdown := True\<rparr>"

definition socket_queue_shutdown :: "socket_queue option \<Rightarrow> socket_queue option" where
  "socket_queue_shutdown queue = map_option shutdown_locked queue"

section \<open>The interface: a bounded list\<close>

text \<open>A sequence of queue operations, with what was accepted and what was delivered.\<close>

datatype queue_event = Enqueue fd | Dequeue | Shutdown

fun queue_run ::
  "(fd \<Rightarrow> 'q \<Rightarrow> queue_result \<times> 'q) \<Rightarrow> ('q \<Rightarrow> 'q dequeue_outcome) \<Rightarrow> ('q \<Rightarrow> 'q) \<Rightarrow>
   queue_event list \<Rightarrow> 'q \<Rightarrow> fd list \<times> fd list \<times> 'q" where
  "queue_run enq deq shut [] q = ([], [], q)"
| "queue_run enq deq shut (Enqueue x # es) q =
     (let (r, q) = enq x q; (acc, del, q) = queue_run enq deq shut es q
      in ((if r = QUEUE_OK then x # acc else acc), del, q))"
| "queue_run enq deq shut (Dequeue # es) q =
     (case deq q of
        Dequeue_item x q \<Rightarrow> let (acc, del, q) = queue_run enq deq shut es q in (acc, x # del, q)
      | _ \<Rightarrow> queue_run enq deq shut es q)"
| "queue_run enq deq shut (Shutdown # es) q = queue_run enq deq shut es (shut q)"

locale bounded_queue =
  fixes enq :: "fd \<Rightarrow> 'q \<Rightarrow> queue_result \<times> 'q"
    and deq :: "'q \<Rightarrow> 'q dequeue_outcome"
    and shut :: "'q \<Rightarrow> 'q"
    and elems :: "'q \<Rightarrow> fd list"
    and limit :: "'q \<Rightarrow> nat"
    and closed :: "'q \<Rightarrow> bool"
    and inv :: "'q \<Rightarrow> bool"
  assumes enq_closed: "inv q \<Longrightarrow> closed q \<Longrightarrow> enq x q = (QUEUE_CLOSED, q)"
    and enq_full: "inv q \<Longrightarrow> \<not> closed q \<Longrightarrow> length (elems q) = limit q \<Longrightarrow> enq x q = (QUEUE_FULL, q)"
    and enq_ok: "inv q \<Longrightarrow> \<not> closed q \<Longrightarrow> length (elems q) < limit q \<Longrightarrow>
      \<exists>q'. enq x q = (QUEUE_OK, q') \<and> inv q' \<and> elems q' = elems q @ [x] \<and> limit q' = limit q \<and> \<not> closed q'"
    and deq_empty: "inv q \<Longrightarrow> elems q = [] \<Longrightarrow>
      deq q = (if closed q then Dequeue_closed else Dequeue_wait)"
    and deq_item: "inv q \<Longrightarrow> elems q = x # xs \<Longrightarrow>
      \<exists>q'. deq q = Dequeue_item x q' \<and> inv q' \<and> elems q' = xs \<and> limit q' = limit q \<and> closed q' = closed q"
    and shut_closed: "inv q \<Longrightarrow> inv (shut q) \<and> elems (shut q) = elems q \<and> limit (shut q) = limit q \<and> closed (shut q)"
    and bounded: "inv q \<Longrightarrow> length (elems q) \<le> limit q"
begin

lemma enq_cases:
  assumes "inv q" "enq x q = (r, q')"
  shows "inv q' \<and> closed q' = closed q \<and> limit q' = limit q \<and>
    (r = QUEUE_OK \<and> \<not> closed q \<and> elems q' = elems q @ [x] \<or>
     r = QUEUE_FULL \<and> q' = q \<and> \<not> closed q \<and> length (elems q) = limit q \<or>
     r = QUEUE_CLOSED \<and> q' = q \<and> closed q)"
proof (cases "closed q")
  case True
  with assms enq_closed [OF assms(1) True, of x] show ?thesis by auto
next
  case False
  show ?thesis
  proof (cases "length (elems q) = limit q")
    case True
    with assms False enq_full [OF assms(1) False True, of x] show ?thesis by auto
  next
    case neq: False
    with bounded [OF assms(1)] have "length (elems q) < limit q" by simp
    from enq_ok [OF assms(1) False this, of x] assms(2) False show ?thesis by auto
  qed
qed

lemma deq_cases:
  assumes "inv q"
  shows "(case deq q of
      Dequeue_wait \<Rightarrow> elems q = [] \<and> \<not> closed q
    | Dequeue_closed \<Rightarrow> elems q = [] \<and> closed q
    | Dequeue_item x q' \<Rightarrow> elems q = x # elems q' \<and> inv q' \<and> limit q' = limit q \<and> closed q' = closed q)"
proof (cases "elems q")
  case Nil
  with deq_empty [OF assms Nil] show ?thesis by simp
next
  case (Cons x xs)
  with deq_item [OF assms Cons] show ?thesis by auto
qed

lemma run_fifo:
  "inv q \<Longrightarrow> queue_run enq deq shut es q = (acc, del, q') \<Longrightarrow>
   elems q @ acc = del @ elems q' \<and> inv q' \<and> limit q' = limit q"
proof (induction es arbitrary: q acc del)
  case Nil
  then show ?case by simp
next
  case (Cons e es)
  show ?case
  proof (cases e)
    case (Enqueue x)
    obtain r q1 where one: "enq x q = (r, q1)" by fastforce
    obtain acc1 del1 where rest: "queue_run enq deq shut es q1 = (acc1, del1, q')"
      and out: "acc = (if r = QUEUE_OK then x # acc1 else acc1)" "del = del1"
      using Cons.prems(2) one Enqueue by (auto split: prod.splits)
    from enq_cases [OF Cons.prems(1) one] Cons.IH [OF _ rest] out show ?thesis by auto
  next
    case Dequeue
    show ?thesis
    proof (cases "deq q")
      case (Dequeue_item x q1)
      obtain acc1 del1 where rest: "queue_run enq deq shut es q1 = (acc1, del1, q')"
        and out: "acc = acc1" "del = x # del1"
        using Cons.prems(2) Dequeue_item Dequeue by (auto split: prod.splits)
      from deq_cases [OF Cons.prems(1)] Dequeue_item Cons.IH [OF _ rest] out show ?thesis by auto
    qed (use Cons Dequeue in auto)
  next
    case Shutdown
    with Cons.prems shut_closed [OF Cons.prems(1)] Cons.IH [of "shut q"] show ?thesis by auto
  qed
qed

end

section \<open>The ring buffer implements the interface\<close>

definition wf_queue :: "socket_queue \<Rightarrow> bool" where
  "wf_queue q \<longleftrightarrow>
     q_capacity q \<noteq> 0 \<and> length (q_items q) = unat (q_capacity q) \<and>
     q_head q < q_capacity q \<and> q_count q \<le> q_capacity q \<and>
     unat (q_tail q) = (unat (q_head q) + unat (q_count q)) mod unat (q_capacity q)"

definition queue_list :: "socket_queue \<Rightarrow> fd list" where
  "queue_list q =
     map (\<lambda>i. q_items q ! ((unat (q_head q) + i) mod unat (q_capacity q))) [0 ..< unat (q_count q)]"

lemma length_queue_list [simp]: "length (queue_list q) = unat (q_count q)"
  by (simp add: queue_list_def)

lemma wf_queueD:
  assumes "wf_queue q"
  shows "0 < unat (q_capacity q)" "unat (q_head q) < unat (q_capacity q)" "unat (q_count q) \<le> unat (q_capacity q)"
    "unat (q_tail q) < unat (q_capacity q)"
  using assms by (auto simp: wf_queue_def word_less_nat_alt word_le_nat_alt unat_gt_0)

text \<open>The index step of the code, \<^verbatim>\<open>(i + 1) % capacity\<close>, does not wrap in a \<^verbatim>\<open>size_t\<close>.\<close>

lemma unat_next_index:
  assumes "unat (i :: size_t) < unat (c :: size_t)"
  shows "unat ((i + 1) mod c) = Suc (unat i) mod unat c"
  by (simp add: unat_mod_distrib unat_Suc_below [OF assms])

lemma queue_list_update:
  assumes "wf_queue q" "unat (q_count q) < unat (q_capacity q)"
  shows "map (\<lambda>i. (q_items q)[unat (q_tail q) := x] ! ((unat (q_head q) + i) mod unat (q_capacity q)))
      [0 ..< Suc (unat (q_count q))] = queue_list q @ [x]"
proof -
  define c h n where "c = unat (q_capacity q)" and "h = unat (q_head q)" and "n = unat (q_count q)"
  have wf: "0 < c" "length (q_items q) = c" "unat (q_tail q) = (h + n) mod c" "n < c"
    using assms wf_queueD(1) [OF assms(1)] by (auto simp: wf_queue_def c_def h_def n_def)
  have "(h + n) mod c \<noteq> (h + i) mod c" if "i < n" for i
  proof
    assume "(h + n) mod c = (h + i) mod c"
    then have "c dvd (h + n) - (h + i)"
      using that by (metis mod_eq_dvd_iff_nat add_le_cancel_left less_imp_le)
    then have "c dvd n - i" by simp
    with that wf(4) show False by (auto dest: dvd_imp_le)
  qed
  then have "map (\<lambda>i. (q_items q)[(h + n) mod c := x] ! ((h + i) mod c)) [0 ..< n] =
      map (\<lambda>i. q_items q ! ((h + i) mod c)) [0 ..< n]"
    by (intro map_cong) auto
  moreover have "(q_items q)[(h + n) mod c := x] ! ((h + n) mod c) = x"
    using wf by simp
  ultimately show ?thesis
    unfolding queue_list_def c_def [symmetric] h_def [symmetric] n_def [symmetric] wf(3) by simp
qed

lemma enqueue_locked_ok:
  assumes "wf_queue q" "\<not> q_shutdown q" "unat (q_count q) < unat (q_capacity q)"
  shows "\<exists>q'. enqueue_locked x q = (QUEUE_OK, q') \<and> wf_queue q' \<and> queue_list q' = queue_list q @ [x] \<and>
    q_capacity q' = q_capacity q \<and> \<not> q_shutdown q'"
proof -
  note D = wf_queueD [OF assms(1)]
  have cnt: "unat (q_count q + 1) = Suc (unat (q_count q))" by (rule unat_Suc_below [OF assms(3)])
  have neq: "q_count q \<noteq> q_capacity q" using assms(3) by auto
  have tail: "unat ((q_tail q + 1) mod q_capacity q) =
      (unat (q_head q) + Suc (unat (q_count q))) mod unat (q_capacity q)"
    using assms(1) by (simp add: unat_next_index [OF D(4)] wf_queue_def mod_Suc_eq)
  define q' where "q' = q\<lparr>q_items := (q_items q)[unat (q_tail q) := x],
      q_tail := (q_tail q + 1) mod q_capacity q, q_count := q_count q + 1\<rparr>"
  have "wf_queue q'"
    using assms(1,3) cnt tail by (simp add: wf_queue_def q'_def word_le_nat_alt)
  moreover have "queue_list q' = queue_list q @ [x]"
    using queue_list_update [OF assms(1,3), of x]
    by (subst queue_list_def) (simp add: q'_def cnt del: upt_Suc)
  ultimately show ?thesis
    using assms(2) neq by (simp add: enqueue_locked_def q'_def)
qed

lemma queue_list_Cons:
  assumes "unat (q_count q) = Suc n"
  shows "queue_list q = q_items q ! (unat (q_head q) mod unat (q_capacity q)) #
    map (\<lambda>i. q_items q ! ((unat (q_head q) + Suc i) mod unat (q_capacity q))) [0 ..< n]"
  unfolding queue_list_def assms upt_conv_Cons [OF zero_less_Suc] map_Suc_upt [symmetric] by simp

lemma dequeue_locked_item:
  assumes "wf_queue q" "queue_list q = x # xs"
  shows "\<exists>q'. dequeue_locked q = Dequeue_item x q' \<and> wf_queue q' \<and> queue_list q' = xs \<and>
    q_capacity q' = q_capacity q \<and> q_shutdown q' = q_shutdown q"
proof -
  note D = wf_queueD [OF assms(1)]
  obtain n where n: "unat (q_count q) = Suc n"
    using assms(2) by (metis Suc_length_conv length_queue_list)
  then have ne: "q_count q \<noteq> 0" by auto
  have cnt: "unat (q_count q - 1) = n"
    using n by (simp add: unat_minus_one ne)
  define q' where "q' = q\<lparr>q_head := (q_head q + 1) mod q_capacity q, q_count := q_count q - 1\<rparr>"
  have head: "unat (q_head q') = Suc (unat (q_head q)) mod unat (q_capacity q)"
    by (simp add: q'_def unat_next_index [OF D(2)])
  have "(Suc (unat (q_head q)) mod unat (q_capacity q) + n) mod unat (q_capacity q) = unat (q_tail q)"
    using assms(1) n by (simp add: wf_queue_def mod_add_left_eq)
  moreover have "unat (q_count q') \<le> unat (q_capacity q)" using D(3) n cnt by (simp add: q'_def)
  ultimately have "wf_queue q'"
    using assms(1) head cnt D(1) by (simp add: wf_queue_def q'_def word_less_nat_alt word_le_nat_alt)
  moreover have "queue_list q' =
      map (\<lambda>i. q_items q ! ((unat (q_head q) + Suc i) mod unat (q_capacity q))) [0 ..< n]"
    using head cnt by (simp add: queue_list_def q'_def mod_add_left_eq)
  then have "queue_list q' = xs" "x = q_items q ! unat (q_head q)"
    using queue_list_Cons [OF n] assms(2) D(2) by simp_all
  ultimately show ?thesis
    using ne by (simp add: dequeue_locked_def q'_def)
qed

interpretation ring: bounded_queue enqueue_locked dequeue_locked shutdown_locked queue_list
  "\<lambda>q. unat (q_capacity q)" q_shutdown wf_queue
proof unfold_locales
  fix q x assume "wf_queue q" "\<not> q_shutdown q" "length (queue_list q) = unat (q_capacity q)"
  then show "enqueue_locked x q = (QUEUE_FULL, q)"
    by (simp add: enqueue_locked_def word_unat_eq_iff)
next
  fix q x assume "wf_queue q" "\<not> q_shutdown q" "length (queue_list q) < unat (q_capacity q)"
  with enqueue_locked_ok [of q x] show "\<exists>q'. enqueue_locked x q = (QUEUE_OK, q') \<and> wf_queue q' \<and>
      queue_list q' = queue_list q @ [x] \<and> unat (q_capacity q') = unat (q_capacity q) \<and> \<not> q_shutdown q'"
    by auto
next
  fix q assume "wf_queue q" "queue_list q = []"
  then have "q_count q = 0" by (metis length_queue_list list.size(3) unat_eq_zero)
  then show "dequeue_locked q = (if q_shutdown q then Dequeue_closed else Dequeue_wait)"
    by (simp add: dequeue_locked_def)
next
  fix q x xs assume "wf_queue q" "queue_list q = x # xs"
  with dequeue_locked_item [of q x xs] show "\<exists>q'. dequeue_locked q = Dequeue_item x q' \<and> wf_queue q' \<and>
      queue_list q' = xs \<and> unat (q_capacity q') = unat (q_capacity q) \<and> q_shutdown q' = q_shutdown q"
    by auto
qed (auto simp: enqueue_locked_def shutdown_locked_def wf_queue_def queue_list_def word_le_nat_alt)

lemma socket_queue_init_wf:
  assumes "socket_queue_init capacity h = (Some q, h')"
  shows "wf_queue q" "queue_list q = []" "q_capacity q = capacity" "\<not> q_shutdown q"
  using assms
  by (auto simp: socket_queue_init_def Let_def wf_queue_def queue_list_def word_gt_0
      split: if_splits prod.splits)

section \<open>Properties\<close>

text \<open>C9: The ring buffer is a bounded first-in-first-out queue: for every sequence of enqueues,
  dequeues and shutdowns on a new queue, what has been delivered, followed by what is still
  inside, is exactly what was accepted, in order; and never more than the capacity is inside.\<close>

theorem ring_buffer_fifo:
  assumes "socket_queue_init capacity h = (Some q, h')"
    "queue_run enqueue_locked dequeue_locked shutdown_locked events q = (accepted, delivered, q')"
  shows "accepted = delivered @ queue_list q' \<and> length (queue_list q') \<le> unat capacity"
  using ring.run_fifo [OF socket_queue_init_wf(1) [OF assms(1)] assms(2)] ring.bounded [of q']
    socket_queue_init_wf [OF assms(1)] by simp

theorem ring_buffer_fifo_witness:
  "\<exists>q h q'. socket_queue_init 2 [] = (Some q, h) \<and>
    queue_run enqueue_locked dequeue_locked shutdown_locked
      [Enqueue 10, Enqueue 11, Enqueue 12, Dequeue, Enqueue 13, Shutdown, Enqueue 14, Dequeue] q =
      ([10, 11, 13], [10, 11], q') \<and> [10, 11, 13] = [10, 11] @ queue_list q'"
proof -
  obtain q h where i: "socket_queue_init 2 [] = (Some q, h)"
    by (simp add: socket_queue_init_def)
  obtain acc del q' where r: "queue_run enqueue_locked dequeue_locked shutdown_locked
      [Enqueue 10, Enqueue 11, Enqueue 12, Dequeue, Enqueue 13, Shutdown, Enqueue 14, Dequeue] q = (acc, del, q')"
    by (metis prod_cases3)
  have "replicate 2 0 = [0, 0 :: fd]" by (simp add: numeral_2_eq_2)
  with i have q: "q = \<lparr>q_items = [0, 0], q_capacity = 2, q_head = 0, q_tail = 0, q_count = 0, q_shutdown = False\<rparr>"
    by (auto simp: socket_queue_init_def)
  from r have "acc = [10, 11, 13]" "del = [10, 11]"
    by (auto simp: q enqueue_locked_def dequeue_locked_def shutdown_locked_def)
  with i r ring_buffer_fifo [OF i r] show ?thesis by auto
qed

text \<open>Every enqueue has one of three outcomes, by the state alone: closed after a shutdown,
  full when the capacity is reached, else the socket is queued at the end; the index
  arithmetic keeps the buffer well-formed and every access inside the array.\<close>

theorem enqueue_outcomes:
  assumes "wf_queue q" "enqueue_locked fd q = (r, q')"
  shows "wf_queue q' \<and> unat (q_tail q) < length (q_items q) \<and>
    (if q_shutdown q then r = QUEUE_CLOSED \<and> q' = q
     else if length (queue_list q) = unat (q_capacity q) then r = QUEUE_FULL \<and> q' = q
     else r = QUEUE_OK \<and> queue_list q' = queue_list q @ [fd])"
  using ring.enq_cases [OF assms] ring.enq_full [OF assms(1)] assms wf_queueD(4) [OF assms(1)]
  by (auto simp: wf_queue_def)

theorem enqueue_outcomes_witness:
  "let q = \<lparr>q_items = [7], q_capacity = 1, q_head = 0, q_tail = 0, q_count = 1, q_shutdown = False\<rparr>
   in fst (enqueue_locked 8 q) = QUEUE_FULL"
proof -
  define q where "q = \<lparr>q_items = [7 :: fd], q_capacity = 1, q_head = 0, q_tail = 0, q_count = 1, q_shutdown = False\<rparr>"
  have "wf_queue q" by (simp add: wf_queue_def q_def)
  from enqueue_outcomes [OF this surjective_pairing, of 8] show ?thesis
    by (simp add: q_def)
qed

text \<open>A shutdown does not drop what is queued: afterwards every enqueue is refused, and as
  many dequeues as there are sockets inside still deliver them in order before the queue
  reports that it is closed.\<close>

theorem shutdown_drains:
  assumes "wf_queue q"
  shows "\<exists>q'. queue_run enqueue_locked dequeue_locked shutdown_locked
      (Shutdown # replicate (length (queue_list q)) Dequeue) q = ([], queue_list q, q') \<and>
    dequeue_locked q' = Dequeue_closed \<and> enqueue_locked fd q' = (QUEUE_CLOSED, q')"
proof -
  have "\<exists>q'. queue_run enqueue_locked dequeue_locked shutdown_locked (replicate (length (queue_list p)) Dequeue) p =
      ([], queue_list p, q') \<and> wf_queue q' \<and> queue_list q' = [] \<and> q_shutdown q'"
    if "wf_queue p" "q_shutdown p" "queue_list p = xs" for p xs
    using that
  proof (induction xs arbitrary: p)
    case Nil
    then have "unat (q_count p) = 0" by (metis length_queue_list list.size(3))
    with Nil show ?case by (intro exI [of _ p]) simp
  next
    case (Cons x xs)
    from ring.deq_item [OF Cons.prems(1,3)] obtain p' where p':
      "dequeue_locked p = Dequeue_item x p'" "wf_queue p'" "queue_list p' = xs" "q_shutdown p'"
      using Cons.prems(2) by auto
    from Cons.IH [OF p'(2,4,3)] obtain q' where
      "queue_run enqueue_locked dequeue_locked shutdown_locked (replicate (length (queue_list p')) Dequeue) p' =
        ([], xs, q') \<and> wf_queue q' \<and> queue_list q' = [] \<and> q_shutdown q'"
      using p'(3) by auto
    moreover have "length (queue_list p) = Suc (length (queue_list p'))"
      using Cons.prems(3) p'(3) by (simp only: list.size(4))
    ultimately show ?case using Cons.prems(3) p'(1,3) by (simp del: length_queue_list)
  qed
  from this [of "shutdown_locked q", OF _ _ refl] ring.shut_closed [OF assms]
  obtain q' where q': "queue_run enqueue_locked dequeue_locked shutdown_locked
      (replicate (length (queue_list (shutdown_locked q))) Dequeue) (shutdown_locked q) =
        ([], queue_list (shutdown_locked q), q')" "wf_queue q'" "queue_list q' = []" "q_shutdown q'"
    by auto
  with ring.shut_closed [OF assms] ring.deq_empty [OF q'(2,3)] ring.enq_closed [OF q'(2,4), of fd]
  show ?thesis by (simp del: length_queue_list)
qed

theorem shutdown_drains_witness:
  "let q = \<lparr>q_items = [7, 8, 9], q_capacity = 3, q_head = 2, q_tail = 1, q_count = 2, q_shutdown = False\<rparr>
   in \<exists>q'. queue_run enqueue_locked dequeue_locked shutdown_locked [Shutdown, Dequeue, Dequeue] q = ([], [9, 7], q') \<and>
     enqueue_locked 5 q' = (QUEUE_CLOSED, q')"
proof -
  define q where "q = \<lparr>q_items = [7 :: fd, 8, 9], q_capacity = 3, q_head = 2, q_tail = 1, q_count = 2, q_shutdown = False\<rparr>"
  have "wf_queue q" "queue_list q = [9, 7]" by (simp_all add: wf_queue_def q_def queue_list_def upt_rec)
  with shutdown_drains [of q 5] show ?thesis
    unfolding q_def [symmetric] Let_def by (simp del: length_queue_list) blast
qed

end
