(* ===== verification/ThreadPool.thy ===== *)
theory ThreadPool
  imports SocketQueue "HOL-Library.Multiset"
begin

text \<open>
  The worker pool of \<^verbatim>\<open>src/thread_pool.c\<close>: any number of threads running \<^verbatim>\<open>worker_main\<close>, one
  queue, and the thread that submits sockets and shuts the pool down.

  A worker is at one of five points of its loop. \<open>Ready\<close>: about to take the mutex in
  \<^verbatim>\<open>socket_queue_dequeue\<close>; \<open>Waiting\<close>: asleep in \<^verbatim>\<open>pthread_cond_wait\<close>; \<open>Woken\<close>: back from the
  wait, about to test the loop condition again; \<open>Handling\<close>: in the handler with a socket;
  \<open>Done\<close>: returned. The mutex makes each critical section one step; which thread moves is
  open, so the steps are a relation. \<^verbatim>\<open>pthread_cond_signal\<close> wakes a sleeping worker if there
  is one, \<^verbatim>\<open>pthread_cond_broadcast\<close> wakes all, and a worker may also wake by itself (the
  spurious wake-ups that POSIX allows, which cover a signal that wakes more than one). No
  thread ever waits for \<^verbatim>\<open>not_full\<close>, so its signals have no effect.

  Three lists record the history: the sockets accepted into the queue, those handed to a
  handler, and those whose handler has returned. \<open>thread_table\<close> is the array \<^verbatim>\<open>threads\<close> of the pool,
  with its \<^verbatim>\<open>thread_count\<close>; it is NULL (\<open>None\<close>) once the threads have been joined.
\<close>

section \<open>States and steps\<close>

datatype worker = Ready | Waiting | Woken | Handling fd | Done

record pool_state =
  pool_queue :: socket_queue
  workers :: "worker list"
  accepted :: "fd list"
  started :: "fd list"
  finished :: "fd list"
  thread_table :: "nat option"

definition at_dequeue :: "worker \<Rightarrow> bool" where
  "at_dequeue w \<longleftrightarrow> w = Ready \<or> w = Woken"

text \<open>The steps of the workers: \<^verbatim>\<open>worker_main\<close> and \<^verbatim>\<open>socket_queue_dequeue\<close>.\<close>

inductive worker_step :: "pool_state \<Rightarrow> pool_state \<Rightarrow> bool" where
  wait: "i < length (workers s) \<Longrightarrow> at_dequeue (workers s ! i) \<Longrightarrow>
    dequeue_locked (pool_queue s) = Dequeue_wait \<Longrightarrow>
    worker_step s (s\<lparr>workers := (workers s)[i := Waiting]\<rparr>)"
| take_item: "i < length (workers s) \<Longrightarrow> at_dequeue (workers s ! i) \<Longrightarrow>
    dequeue_locked (pool_queue s) = Dequeue_item client_fd q' \<Longrightarrow>
    worker_step s (s\<lparr>pool_queue := q', workers := (workers s)[i := Handling client_fd],
      started := started s @ [client_fd]\<rparr>)"
| leave: "i < length (workers s) \<Longrightarrow> at_dequeue (workers s ! i) \<Longrightarrow>
    dequeue_locked (pool_queue s) = Dequeue_closed \<Longrightarrow>
    worker_step s (s\<lparr>workers := (workers s)[i := Done]\<rparr>)"
| handled: "i < length (workers s) \<Longrightarrow> workers s ! i = Handling client_fd \<Longrightarrow>
    worker_step s (s\<lparr>workers := (workers s)[i := Ready], finished := finished s @ [client_fd]\<rparr>)"
| spurious: "i < length (workers s) \<Longrightarrow> workers s ! i = Waiting \<Longrightarrow>
    worker_step s (s\<lparr>workers := (workers s)[i := Woken]\<rparr>)"

text \<open>The wake-ups of the submitting thread: what a signal may do, and a broadcast.\<close>

inductive signal_not_empty :: "worker list \<Rightarrow> worker list \<Rightarrow> bool" where
  wakes: "i < length ws \<Longrightarrow> ws ! i = Waiting \<Longrightarrow> signal_not_empty ws (ws[i := Woken])"
| nobody: "Waiting \<notin> set ws \<Longrightarrow> signal_not_empty ws ws"

definition wake :: "worker \<Rightarrow> worker" where
  "wake w = (if w = Waiting then Woken else w)"

definition pool_shutdown :: "pool_state \<Rightarrow> pool_state" where
  "pool_shutdown s = s\<lparr>pool_queue := shutdown_locked (pool_queue s), workers := map wake (workers s)\<rparr>"

text \<open>The steps of the submitting thread: \<^verbatim>\<open>socket_queue_enqueue\<close> and \<^verbatim>\<open>socket_queue_shutdown\<close>.\<close>

inductive submit_step :: "pool_state \<Rightarrow> fd \<Rightarrow> queue_result \<Rightarrow> pool_state \<Rightarrow> bool" where
  queued: "enqueue_locked client_fd (pool_queue s) = (QUEUE_OK, q') \<Longrightarrow>
    signal_not_empty (workers s) ws \<Longrightarrow>
    submit_step s client_fd QUEUE_OK
      (s\<lparr>pool_queue := q', workers := ws, accepted := accepted s @ [client_fd]\<rparr>)"
| refused: "enqueue_locked client_fd (pool_queue s) = (r, q') \<Longrightarrow> r \<noteq> QUEUE_OK \<Longrightarrow>
    submit_step s client_fd r s"

text \<open>
  \<^verbatim>\<open>thread_pool_stop\<close>: nothing for a pool without threads; else the shutdown, then the joins, which
  wait until \<open>all_done\<close> holds, and then the table is gone.
\<close>

definition thread_pool_stop :: "pool_state \<Rightarrow> pool_state" where
  "thread_pool_stop s = (if thread_table s = None then s else pool_shutdown s)"

definition all_done :: "pool_state \<Rightarrow> bool" where
  "all_done s \<longleftrightarrow> list_all (\<lambda>w. w = Done) (workers s)"

definition threads_joined :: "pool_state \<Rightarrow> pool_state" where
  "threads_joined s = s\<lparr>thread_table := None\<rparr>"

inductive pool_step :: "pool_state \<Rightarrow> pool_state \<Rightarrow> bool" where
  worker: "worker_step s t \<Longrightarrow> pool_step s t"
| submit: "submit_step s client_fd r t \<Longrightarrow> pool_step s t"
| shutdown: "pool_step s (pool_shutdown s)"
| join: "q_shutdown (pool_queue s) \<Longrightarrow> all_done s \<Longrightarrow> pool_step s (threads_joined s)"

inductive_cases submit_okE: "submit_step s client_fd QUEUE_OK t"

section \<open>Starting and stopping the pool\<close>

text \<open>
  \<^verbatim>\<open>thread_pool_start\<close> creates the threads one by one; each needs its argument block and the
  thread itself. When one of them fails, the threads made so far are shut down and joined.
  The state given here is the one after the shutdown, at which the joins begin.
\<close>

definition new_pool :: "socket_queue \<Rightarrow> nat \<Rightarrow> pool_state" where
  "new_pool q n = \<lparr>pool_queue = q, workers = replicate n Ready, accepted = [], started = [], finished = [],
     thread_table = Some n\<rparr>"

fun spawn_workers :: "nat \<Rightarrow> nat \<Rightarrow> heap \<Rightarrow> bool \<times> nat \<times> heap" where
  "spawn_workers 0 made heap = (True, made, heap)"
| "spawn_workers (Suc n) made heap =
     (let (args, heap) = allocate heap in
      if \<not> args then (False, made, heap)
      else
        let (thread, heap) = allocate heap in
        if \<not> thread then (False, made, heap) else spawn_workers n (Suc made) heap)"

definition thread_pool_start :: "socket_queue \<Rightarrow> int \<Rightarrow> heap \<Rightarrow> int \<times> pool_state option \<times> heap" where
  "thread_pool_start q thread_count heap =
     (if thread_count \<le> 0 then (- 1, None, heap)
      else
        let (threads, heap) = allocate heap in
        if \<not> threads then (- 1, None, heap)
        else
          let (ok, made, heap) = spawn_workers (nat thread_count) 0 heap in
          if ok then (0, Some (new_pool q made), heap)
          else (- 1, Some (thread_pool_stop (new_pool q made)), heap))"

section \<open>The invariant\<close>

text \<open>The states a pool can reach from its start with a fresh queue.\<close>

inductive reachable :: "pool_state \<Rightarrow> bool" where
  start: "wf_queue q \<Longrightarrow> queue_list q = [] \<Longrightarrow> \<not> q_shutdown q \<Longrightarrow> reachable (new_pool q n)"
| step: "reachable s \<Longrightarrow> pool_step s t \<Longrightarrow> reachable t"

definition handling :: "worker list \<Rightarrow> fd list" where
  "handling ws = List.map_filter (\<lambda>w. case w of Handling x \<Rightarrow> Some x | _ \<Rightarrow> None) ws"

lemma handling_simps [simp]:
  "handling [] = []"
  "handling (w # ws) = (case w of Handling x \<Rightarrow> [x] | _ \<Rightarrow> []) @ handling ws"
  by (simp_all add: handling_def List.map_filter_def split: worker.split)

definition handled_of :: "worker \<Rightarrow> fd multiset" where
  "handled_of w = (case w of Handling x \<Rightarrow> {#x#} | _ \<Rightarrow> {#})"

lemma mset_handling_Cons: "mset (handling (w # ws)) = handled_of w + mset (handling ws)"
  by (simp add: handled_of_def split: worker.split)

lemma mset_handling_update:
  "i < length ws \<Longrightarrow> mset (handling (ws[i := w])) + handled_of (ws ! i) = mset (handling ws) + handled_of w"
proof (induction ws arbitrary: i)
  case (Cons v ws)
  show ?case
  proof (cases i)
    case 0
    then show ?thesis by (simp add: mset_handling_Cons del: handling_simps)
  next
    case (Suc j)
    with Cons have "mset (handling (ws[j := w])) + handled_of (ws ! j) = mset (handling ws) + handled_of w" by simp
    with Suc show ?thesis by (simp add: mset_handling_Cons add.assoc del: handling_simps)
  qed
qed simp

definition dequeuers :: "worker list \<Rightarrow> nat" where
  "dequeuers ws = length (filter at_dequeue ws)"

lemma dequeuers_update:
  "i < length ws \<Longrightarrow> dequeuers (ws[i := w]) + (if at_dequeue (ws ! i) then 1 else 0) =
     dequeuers ws + (if at_dequeue w then 1 else 0)"
proof (induction ws arbitrary: i)
  case (Cons v ws)
  then show ?case by (cases i) (auto simp: dequeuers_def)
qed simp

text \<open>
  What every step keeps. The buffer is well-formed; history and queue agree, in order; every
  started socket is finished or in a handler; nobody sleeps after a shutdown; a worker has
  returned only when the closed queue is empty; the table is gone only after a shutdown; and, the heart of the absence of lost
  wake-ups: while somebody sleeps, there are at least as many workers on their way to the
  queue as there are sockets in it.
\<close>

definition pool_inv :: "pool_state \<Rightarrow> bool" where
  "pool_inv s \<longleftrightarrow>
     wf_queue (pool_queue s) \<and>
     accepted s = started s @ queue_list (pool_queue s) \<and>
     mset (started s) = mset (finished s) + mset (handling (workers s)) \<and>
     (q_shutdown (pool_queue s) \<longrightarrow> Waiting \<notin> set (workers s)) \<and>
     (Done \<in> set (workers s) \<longrightarrow> q_shutdown (pool_queue s) \<and> queue_list (pool_queue s) = []) \<and>
     (Waiting \<in> set (workers s) \<longrightarrow> length (queue_list (pool_queue s)) \<le> dequeuers (workers s)) \<and>
     (thread_table s = None \<longrightarrow> q_shutdown (pool_queue s))"

lemma pool_invD:
  assumes "pool_inv s"
  shows "wf_queue (pool_queue s)" "accepted s = started s @ queue_list (pool_queue s)"
    "mset (started s) = mset (finished s) + mset (handling (workers s))"
    "q_shutdown (pool_queue s) \<Longrightarrow> Waiting \<notin> set (workers s)"
    "Done \<in> set (workers s) \<Longrightarrow> q_shutdown (pool_queue s) \<and> queue_list (pool_queue s) = []"
    "Waiting \<in> set (workers s) \<Longrightarrow> length (queue_list (pool_queue s)) \<le> dequeuers (workers s)"
    "thread_table s = None \<Longrightarrow> q_shutdown (pool_queue s)"
  using assms by (simp_all add: pool_inv_def)

lemma handling_replicate_Ready [simp]: "handling (replicate n Ready) = []"
  by (induction n) auto

lemma pool_inv_start:
  "wf_queue q \<Longrightarrow> queue_list q = [] \<Longrightarrow> \<not> q_shutdown q \<Longrightarrow> pool_inv (new_pool q n)"
  by (auto simp: pool_inv_def new_pool_def)

lemma at_dequeue_handled [simp]: "at_dequeue w \<Longrightarrow> handled_of w = {#}"
  by (auto simp: at_dequeue_def handled_of_def)

lemma at_dequeue_simps [simp]:
  "at_dequeue Ready" "at_dequeue Woken" "\<not> at_dequeue Waiting" "\<not> at_dequeue (Handling x)" "\<not> at_dequeue Done"
  by (simp_all add: at_dequeue_def)

lemma handled_of_simps [simp]:
  "handled_of Ready = {#}" "handled_of Woken = {#}" "handled_of Waiting = {#}"
  "handled_of (Handling x) = {#x#}" "handled_of Done = {#}"
  by (simp_all add: handled_of_def)

lemma in_set_update: "x \<in> set (ws[i := w]) \<Longrightarrow> x \<in> set ws \<or> x = w"
  using set_update_subset_insert [of ws i w] by auto

lemma pool_inv_wait:
  assumes inv: "pool_inv s" and i: "i < length (workers s)" "at_dequeue (workers s ! i)"
    and d: "dequeue_locked (pool_queue s) = Dequeue_wait"
  shows "pool_inv (s\<lparr>workers := (workers s)[i := Waiting]\<rparr>)"
proof -
  note D = pool_invD [OF inv]
  from ring.deq_cases [OF D(1)] d have q: "queue_list (pool_queue s) = []" "\<not> q_shutdown (pool_queue s)"
    by auto
  have "mset (handling ((workers s)[i := Waiting])) = mset (handling (workers s))"
    using mset_handling_update [OF i(1), of Waiting] i(2) by simp
  moreover have "Done \<notin> set ((workers s)[i := Waiting])"
    using D(5) q in_set_update [of Done "workers s" i Waiting] by auto
  ultimately show ?thesis using D q by (auto simp: pool_inv_def simp del: length_queue_list)
qed

lemma pool_inv_take:
  assumes inv: "pool_inv s" and i: "i < length (workers s)" "at_dequeue (workers s ! i)"
    and d: "dequeue_locked (pool_queue s) = Dequeue_item x q'"
  shows "pool_inv (s\<lparr>pool_queue := q', workers := (workers s)[i := Handling x], started := started s @ [x]\<rparr>)"
proof -
  note D = pool_invD [OF inv]
  from ring.deq_cases [OF D(1)] d have q: "queue_list (pool_queue s) = x # queue_list q'" "wf_queue q'"
    "q_shutdown q' = q_shutdown (pool_queue s)"
    by auto
  have m: "mset (handling ((workers s)[i := Handling x])) = mset (handling (workers s)) + {#x#}"
    using mset_handling_update [OF i(1), of "Handling x"] i(2) by simp
  have w: "Waiting \<in> set ((workers s)[i := Handling x]) \<Longrightarrow> Waiting \<in> set (workers s)"
    "Done \<in> set ((workers s)[i := Handling x]) \<Longrightarrow> Done \<in> set (workers s)"
    using in_set_update by fastforce+
  have "dequeuers ((workers s)[i := Handling x]) + 1 = dequeuers (workers s)"
    using dequeuers_update [OF i(1), of "Handling x"] i(2) by simp
  with D q m w show ?thesis by (auto simp: pool_inv_def simp del: length_queue_list)
qed

lemma pool_inv_leave:
  assumes inv: "pool_inv s" and i: "i < length (workers s)" "at_dequeue (workers s ! i)"
    and d: "dequeue_locked (pool_queue s) = Dequeue_closed"
  shows "pool_inv (s\<lparr>workers := (workers s)[i := Done]\<rparr>)"
proof -
  note D = pool_invD [OF inv]
  from ring.deq_cases [OF D(1)] d have q: "queue_list (pool_queue s) = []" "q_shutdown (pool_queue s)"
    by auto
  have "mset (handling ((workers s)[i := Done])) = mset (handling (workers s))"
    using mset_handling_update [OF i(1), of Done] i(2) by simp
  moreover have "Waiting \<notin> set ((workers s)[i := Done])"
    using D(4) q(2) in_set_update by fastforce
  ultimately show ?thesis using D q by (auto simp: pool_inv_def simp del: length_queue_list)
qed

lemma pool_inv_handled:
  assumes inv: "pool_inv s" and i: "i < length (workers s)" "workers s ! i = Handling x"
  shows "pool_inv (s\<lparr>workers := (workers s)[i := Ready], finished := finished s @ [x]\<rparr>)"
proof -
  note D = pool_invD [OF inv]
  have "mset (handling ((workers s)[i := Ready])) + {#x#} = mset (handling (workers s))"
    using mset_handling_update [OF i(1), of Ready] i(2) by simp
  then have m: "mset (started s) = mset (finished s @ [x]) + mset (handling ((workers s)[i := Ready]))"
    using D(3) by (simp add: ac_simps)
  have w: "Waiting \<in> set ((workers s)[i := Ready]) \<Longrightarrow> Waiting \<in> set (workers s)"
    "Done \<in> set ((workers s)[i := Ready]) \<Longrightarrow> Done \<in> set (workers s)"
    using in_set_update by fastforce+
  have "dequeuers ((workers s)[i := Ready]) = dequeuers (workers s) + 1"
    using dequeuers_update [OF i(1), of Ready] i(2) by simp
  with D m w show ?thesis by (auto simp: pool_inv_def simp del: length_queue_list)
qed

lemma pool_inv_wake:
  assumes inv: "pool_inv s" and i: "i < length (workers s)" "workers s ! i = Waiting"
  shows "pool_inv (s\<lparr>workers := (workers s)[i := Woken]\<rparr>)"
proof -
  note D = pool_invD [OF inv]
  have m: "mset (handling ((workers s)[i := Woken])) = mset (handling (workers s))"
    using mset_handling_update [OF i(1), of Woken] i(2) by simp
  have w: "Waiting \<in> set ((workers s)[i := Woken]) \<Longrightarrow> Waiting \<in> set (workers s)"
    "Done \<in> set ((workers s)[i := Woken]) \<Longrightarrow> Done \<in> set (workers s)"
    using in_set_update by fastforce+
  have "dequeuers ((workers s)[i := Woken]) = dequeuers (workers s) + 1"
    using dequeuers_update [OF i(1), of Woken] i(2) by simp
  with D m w show ?thesis by (auto simp: pool_inv_def simp del: length_queue_list)
qed

lemma worker_step_inv: "worker_step s t \<Longrightarrow> pool_inv s \<Longrightarrow> pool_inv t"
  by (induction rule: worker_step.induct)
    (simp_all add: pool_inv_wait pool_inv_take pool_inv_leave pool_inv_handled pool_inv_wake)

lemma signal_not_empty_effect:
  assumes "signal_not_empty ws ws'"
  shows "mset (handling ws') = mset (handling ws)" "Done \<in> set ws' \<Longrightarrow> Done \<in> set ws"
    "Waiting \<in> set ws' \<Longrightarrow> Waiting \<in> set ws \<and> dequeuers ws' = dequeuers ws + 1"
  using assms
proof (induction rule: signal_not_empty.induct)
  case (wakes i ws)
  {
    case 1
    show ?case using mset_handling_update [OF wakes(1), of Woken] wakes(2) by simp
  next
    case 2
    then show ?case using in_set_update by fastforce
  next
    case 3
    then show ?case
      using dequeuers_update [OF wakes(1), of Woken] wakes(2) nth_mem [OF wakes(1)] by simp
  }
qed auto

lemma submit_step_inv:
  assumes "submit_step s x r t" "pool_inv s"
  shows "pool_inv t"
  using assms
proof (induction rule: submit_step.induct)
  case (queued x s q' ws)
  note D = pool_invD [OF queued(3)]
  from ring.enq_cases [OF D(1) queued(1)] have q: "wf_queue q'" "\<not> q_shutdown (pool_queue s)" "\<not> q_shutdown q'"
    "queue_list q' = queue_list (pool_queue s) @ [x]"
    by auto
  from signal_not_empty_effect [OF queued(2)] D q show ?case
    by (auto simp: pool_inv_def simp del: length_queue_list)
qed simp

lemma handling_wake: "handling (map wake ws) = handling ws"
  by (induction ws) (auto simp: wake_def split: worker.split)

lemma woken_workers [simp]: "Waiting \<notin> set (map wake ws)" "Done \<in> set (map wake ws) \<longleftrightarrow> Done \<in> set ws"
  by (induction ws) (auto simp: wake_def)

lemma pool_shutdown_inv: "pool_inv s \<Longrightarrow> pool_inv (pool_shutdown s)"
  using ring.shut_closed [of "pool_queue s"]
  by (simp add: pool_inv_def pool_shutdown_def handling_wake del: length_queue_list set_map list.set_map)

lemma thread_pool_stop_cases:
  "pool_inv s \<Longrightarrow> thread_pool_stop s = pool_shutdown s \<or> thread_pool_stop s = s \<and> q_shutdown (pool_queue s)"
  by (simp add: thread_pool_stop_def pool_invD(7))

lemma thread_pool_stop_closed:
  assumes "pool_inv s"
  shows "pool_inv (thread_pool_stop s)" "q_shutdown (pool_queue (thread_pool_stop s))"
    "accepted (thread_pool_stop s) = accepted s" "length (workers (thread_pool_stop s)) = length (workers s)"
  using thread_pool_stop_cases [OF assms] pool_shutdown_inv [OF assms] assms
  by (auto simp: pool_shutdown_def shutdown_locked_def)

lemma threads_joined_inv: "pool_inv s \<Longrightarrow> q_shutdown (pool_queue s) \<Longrightarrow> pool_inv (threads_joined s)"
  by (simp add: pool_inv_def threads_joined_def)

lemma pool_step_inv: "pool_step s t \<Longrightarrow> pool_inv s \<Longrightarrow> pool_inv t"
  by (induction rule: pool_step.induct) (auto intro: worker_step_inv submit_step_inv pool_shutdown_inv threads_joined_inv)

lemma reachable_inv: "reachable s \<Longrightarrow> pool_inv s"
  by (induction rule: reachable.induct) (auto intro: pool_inv_start pool_step_inv)

section \<open>Shutdown\<close>

text \<open>The number of steps the workers can still take once the queue is closed.\<close>

definition work_of :: "worker \<Rightarrow> nat" where
  "work_of w = (case w of Handling _ \<Rightarrow> 2 | Done \<Rightarrow> 0 | _ \<Rightarrow> 1)"

definition pool_work :: "pool_state \<Rightarrow> nat" where
  "pool_work s = 2 * length (queue_list (pool_queue s)) + sum_list (map work_of (workers s))"

lemma work_of_simps [simp]:
  "work_of Ready = 1" "work_of Waiting = 1" "work_of Woken = 1" "work_of (Handling x) = 2" "work_of Done = 0"
  by (simp_all add: work_of_def)

lemma work_of_at_dequeue: "at_dequeue w \<Longrightarrow> work_of w = 1"
  by (auto simp: at_dequeue_def)

lemma sum_work_update:
  "i < length ws \<Longrightarrow> sum_list (map work_of (ws[i := w])) + work_of (ws ! i) = sum_list (map work_of ws) + work_of w"
proof (induction ws arbitrary: i)
  case (Cons v ws)
  show ?case
  proof (cases i)
    case (Suc j)
    with Cons.IH [of j] Cons.prems show ?thesis by simp
  qed simp
qed simp

lemma worker_step_closed:
  assumes "worker_step s t" "pool_inv s" "q_shutdown (pool_queue s)"
  shows "pool_work t < pool_work s \<and> q_shutdown (pool_queue t) \<and> accepted t = accepted s"
  using assms
proof (induction rule: worker_step.induct)
  case (wait i s)
  with ring.deq_cases [OF pool_invD(1) [OF wait(4)]] show ?case by simp
next
  case (take_item i s x q')
  with ring.deq_cases [OF pool_invD(1) [OF take_item(4)]]
  have "queue_list (pool_queue s) = x # queue_list q'" "q_shutdown q'" by simp_all
  with sum_work_update [OF take_item(1), of "Handling x"] work_of_at_dequeue [OF take_item(2)]
  show ?case by (simp add: pool_work_def del: length_queue_list)
next
  case (leave i s)
  with sum_work_update [OF leave(1), of Done] work_of_at_dequeue [OF leave(2)]
  show ?case by (simp add: pool_work_def)
next
  case (handled i s x)
  with sum_work_update [OF handled(1), of Ready] show ?case by (simp add: pool_work_def)
next
  case (spurious i s)
  with pool_invD(4) [OF spurious(3)] nth_mem [OF spurious(1)] show ?case by simp
qed

lemma worker_steps_closed:
  assumes "(worker_step ^^ n) s t" "pool_inv s" "q_shutdown (pool_queue s)"
  shows "n + pool_work t \<le> pool_work s \<and> pool_inv t \<and> q_shutdown (pool_queue t) \<and> accepted t = accepted s"
  using assms(1)
proof (induction n arbitrary: t)
  case 0
  then show ?case using assms by simp
next
  case (Suc n)
  then obtain u where u: "(worker_step ^^ n) s u" "worker_step u t" by auto
  from Suc.IH [OF u(1)] worker_step_closed [OF u(2)] worker_step_inv [OF u(2)] show ?case by auto
qed

lemma worker_enabled:
  assumes "pool_inv s" "i < length (workers s)" "workers s ! i \<noteq> Done" "workers s ! i \<noteq> Waiting"
  shows "\<exists>t. worker_step s t"
proof (cases "workers s ! i")
  case (Handling x)
  with assms show ?thesis using worker_step.handled by blast
next
  case Ready
  then have a: "at_dequeue (workers s ! i)" by simp
  show ?thesis by (cases "dequeue_locked (pool_queue s)") (use worker_step.intros assms(2) a in blast)+
next
  case Woken
  then have a: "at_dequeue (workers s ! i)" by simp
  show ?thesis by (cases "dequeue_locked (pool_queue s)") (use worker_step.intros assms(2) a in blast)+
qed (use assms in auto)

lemma closed_progress:
  assumes "pool_inv s" "q_shutdown (pool_queue s)" "\<not> all_done s"
  shows "\<exists>t. worker_step s t"
proof -
  obtain i where "i < length (workers s)" "workers s ! i \<noteq> Done"
    using assms(3) by (auto simp: all_done_def list_all_length)
  moreover from this pool_invD(4) [OF assms(1,2)] have "workers s ! i \<noteq> Waiting"
    using nth_mem by metis
  ultimately show ?thesis using worker_enabled [OF assms(1)] by blast
qed

lemma all_done_handling: "list_all (\<lambda>w. w = Done) ws \<Longrightarrow> handling ws = []"
  by (induction ws) auto

lemma all_done_drained:
  assumes "pool_inv s" "all_done s" "workers s \<noteq> []"
  shows "queue_list (pool_queue s) = [] \<and> mset (finished s) = mset (accepted s)"
proof -
  have "Done \<in> set (workers s)"
    using assms(2,3) by (cases "workers s") (auto simp: all_done_def)
  with pool_invD [OF assms(1)] all_done_handling [OF assms(2) [unfolded all_done_def]] show ?thesis by simp
qed

lemma worker_step_length: "worker_step s t \<Longrightarrow> length (workers t) = length (workers s)"
  by (induction rule: worker_step.induct) simp_all

lemma worker_steps_length: "(worker_step ^^ n) s t \<Longrightarrow> length (workers t) = length (workers s)"
  by (induction n arbitrary: t) (auto simp: worker_step_length)

lemma spawn_workers_made:
  "spawn_workers n made heap = (ok, made', heap') \<Longrightarrow>
   (if ok then made' = made + n else made' < made + n)"
proof (induction n arbitrary: made heap)
  case (Suc n)
  then show ?case
    by (auto split: prod.splits if_splits simp: Let_def dest!: Suc.IH)
qed simp

section \<open>Properties\<close>

text \<open>C2: In every reachable state of the pool, under every schedule of workers, submissions
  and shutdowns, each accepted socket is in exactly one place: the sockets handed to handlers,
  followed by the queue, are those accepted, in order; and those handed out are, with their
  multiplicities, the finished ones and the ones now in a handler. So no connection is lost
  and none is served twice.\<close>

theorem pool_serves_each_socket_once:
  assumes "reachable s"
  shows "accepted s = started s @ queue_list (pool_queue s) \<and>
    mset (started s) = mset (finished s) + mset (handling (workers s)) \<and> wf_queue (pool_queue s)"
  using reachable_inv [OF assms] by (simp add: pool_inv_def)

text \<open>C7: No wake-up is lost: as long as a worker sleeps in the wait, there are at least as
  many workers on their way to the mutex as sockets in the queue; and when the queue holds a
  socket and the pool has a worker, some worker can take a step.\<close>

theorem no_lost_wakeup:
  assumes "reachable s"
  shows "(Waiting \<in> set (workers s) \<longrightarrow> length (queue_list (pool_queue s)) \<le> dequeuers (workers s)) \<and>
    (queue_list (pool_queue s) \<noteq> [] \<longrightarrow> workers s \<noteq> [] \<longrightarrow>
      (\<exists>i < length (workers s). workers s ! i \<noteq> Waiting \<and> workers s ! i \<noteq> Done) \<and> (\<exists>t. worker_step s t))"
proof -
  note inv = reachable_inv [OF assms]
  have "\<exists>i < length (workers s). workers s ! i \<noteq> Waiting \<and> workers s ! i \<noteq> Done"
    if q: "queue_list (pool_queue s) \<noteq> []" and w: "workers s \<noteq> []"
  proof (cases "Waiting \<in> set (workers s)")
    case True
    with pool_invD(6) [OF inv] q have "filter at_dequeue (workers s) \<noteq> []"
      unfolding dequeuers_def by (metis le_zero_eq length_0_conv)
    then obtain v where "v \<in> set (workers s)" "at_dequeue v"
      by (metis filter_False)
    then show ?thesis by (metis at_dequeue_simps(3,5) in_set_conv_nth)
  next
    case False
    with pool_invD(5) [OF inv] q w show ?thesis
      by (metis length_greater_0_conv nth_mem)
  qed
  with worker_enabled [OF inv] pool_invD(6) [OF inv] show ?thesis by blast
qed

text \<open>C12: A shutdown ends, whatever the schedule: from a closed pool the workers take at most
  \<open>pool_work\<close> steps, as long as one has not returned some step is possible, and when all
  have returned, so that the joins of \<^verbatim>\<open>thread_pool_stop\<close> return, the queue is empty and every
  socket ever accepted has been handled to the end.\<close>

theorem pool_shutdown_terminates:
  assumes "reachable s" "(worker_step ^^ n) (thread_pool_stop s) t"
  shows "n \<le> pool_work (thread_pool_stop s) \<and> (all_done t \<or> (\<exists>u. worker_step t u)) \<and>
    (all_done t \<longrightarrow> workers s \<noteq> [] \<longrightarrow>
      queue_list (pool_queue t) = [] \<and> mset (finished t) = mset (accepted s))"
proof -
  note closed = thread_pool_stop_closed [OF reachable_inv [OF assms(1)]]
  from worker_steps_closed [OF assms(2) closed(1,2)] closed(3)
  have t: "n \<le> pool_work (thread_pool_stop s)" "pool_inv t" "q_shutdown (pool_queue t)" "accepted t = accepted s"
    by auto
  have "workers t \<noteq> []" if "workers s \<noteq> []"
    using worker_steps_length [OF assms(2)] closed(4) that by (metis length_0_conv)
  with t closed_progress [OF t(2,3)] all_done_drained [OF t(2)] show ?thesis by metis
qed

lemma spawn_workers_ok_iff: "fst (spawn_workers n made heap) \<longleftrightarrow> list_all id (take (2 * n) heap)"
proof (induction n made heap rule: spawn_workers.induct)
  case (2 n made heap)
  show ?case
  proof (cases heap)
    case Nil
    then show ?thesis using 2 by simp
  next
    case outer: (Cons a rest)
    then show ?thesis using 2 by (cases rest; cases a) simp_all
  qed
qed simp

lemma thread_pool_start_ok_iff:
  "fst (thread_pool_start q thread_count heap) = 0 \<longleftrightarrow>
   thread_count > 0 \<and> list_all id (take (Suc (2 * nat thread_count)) heap)"
proof (cases heap)
  case Nil
  then show ?thesis
    using spawn_workers_ok_iff [of "nat thread_count" 0 "[]"]
    by (simp add: thread_pool_start_def case_prod_beta)
next
  case (Cons a rest)
  then show ?thesis
    using spawn_workers_ok_iff [of "nat thread_count" 0 rest]
    by (cases a) (simp_all add: thread_pool_start_def case_prod_beta)
qed

lemma thread_pool_start_cases:
  assumes "wf_queue q" "queue_list q = []" "\<not> q_shutdown q"
    "thread_pool_start q thread_count heap = (code, pool, heap')"
  shows "if thread_count > 0 \<and> list_all id (take (Suc (2 * nat thread_count)) heap)
    then code = 0 \<and> pool = Some (new_pool q (nat thread_count)) \<and> reachable (new_pool q (nat thread_count))
    else code = - 1 \<and> (pool = None \<or> (\<exists>made < nat thread_count.
      pool = Some (thread_pool_stop (new_pool q made)) \<and> reachable (thread_pool_stop (new_pool q made))))"
proof -
  have r: "reachable (new_pool q n)" "reachable (thread_pool_stop (new_pool q n))" for n
  proof -
    show a: "reachable (new_pool q n)" using assms by (intro reachable.start)
    show "reachable (thread_pool_stop (new_pool q n))"
      using reachable.step [OF a pool_step.shutdown] by (simp add: thread_pool_stop_def new_pool_def)
  qed
  have made: "if fst (spawn_workers (nat thread_count) 0 h)
    then fst (snd (spawn_workers (nat thread_count) 0 h)) = nat thread_count
    else fst (snd (spawn_workers (nat thread_count) 0 h)) < nat thread_count" for h
    using spawn_workers_made [of "nat thread_count" 0 h]
    by (cases "spawn_workers (nat thread_count) 0 h") (auto split: if_splits)
  have "code = 0 \<longleftrightarrow> thread_count > 0 \<and> list_all id (take (Suc (2 * nat thread_count)) heap)"
    using thread_pool_start_ok_iff [of q thread_count heap] assms(4) by simp
  moreover have "if code = 0 then pool = Some (new_pool q (nat thread_count))
    else code = - 1 \<and> (pool = None \<or> (\<exists>made < nat thread_count. pool = Some (thread_pool_stop (new_pool q made))))"
  proof (cases "thread_count \<le> 0 \<or> \<not> fst (allocate heap)")
    case True
    then show ?thesis using assms(4) by (auto simp: thread_pool_start_def case_prod_beta split: if_splits)
  next
    case False
    then show ?thesis using assms(4) made [of "snd (allocate heap)"]
      by (cases "spawn_workers (nat thread_count) 0 (snd (allocate heap))")
        (auto simp: thread_pool_start_def case_prod_beta split: if_splits)
  qed
  ultimately show ?thesis using r by auto
qed

text \<open>C31: \<^verbatim>\<open>thread_pool_start\<close> succeeds exactly when the count is positive and the allocation of
  the table, of every argument block and of every thread succeeds, and then as many workers
  run as were asked for. On any failure it returns -1, and the threads already made are left
  in a closed pool, so that \<open>pool_shutdown_terminates\<close> covers their joins.\<close>

theorem thread_pool_start_outcomes:
  assumes "wf_queue q" "queue_list q = []" "\<not> q_shutdown q"
    "thread_pool_start q thread_count heap = (code, pool, heap')"
  shows "if thread_count > 0 \<and> list_all id (take (Suc (2 * nat thread_count)) heap)
    then code = 0 \<and> pool = Some (new_pool q (nat thread_count)) \<and> reachable (new_pool q (nat thread_count))
    else code = - 1 \<and> (pool = None \<or> (\<exists>made < nat thread_count.
      pool = Some (thread_pool_stop (new_pool q made)) \<and> reachable (thread_pool_stop (new_pool q made))))"
  by (rule thread_pool_start_cases [OF assms])

text \<open>A run of a pool with two workers, used as the example of the properties.\<close>

definition example_queue :: socket_queue where
  "example_queue = \<lparr>q_items = [0, 0], q_capacity = 2, q_head = 0, q_tail = 0, q_count = 0, q_shutdown = False\<rparr>"

definition example_pool :: pool_state where
  "example_pool = \<lparr>pool_queue = example_queue\<lparr>q_items := [7, 0], q_tail := 1, q_count := 1\<rparr>,
     workers = [Woken, Ready], accepted = [7], started = [], finished = [], thread_table = Some 2\<rparr>"

lemma example_queue_wf: "wf_queue example_queue" "queue_list example_queue = []" "\<not> q_shutdown example_queue"
  by (simp_all add: example_queue_def wf_queue_def queue_list_def)

lemma example_pool_reachable: "reachable example_pool"
proof -
  have "pool_step (new_pool example_queue 2) (new_pool example_queue 2\<lparr>workers := [Waiting, Ready]\<rparr>)"
    using worker_step.wait [of 0 "new_pool example_queue 2"]
    by (intro pool_step.worker) (simp add: new_pool_def numeral_2_eq_2 dequeue_locked_def example_queue_def)
  with reachable.start [OF example_queue_wf, of 2]
  have "reachable (new_pool example_queue 2\<lparr>workers := [Waiting, Ready]\<rparr>)"
    by (rule reachable.step)
  moreover have "pool_step (new_pool example_queue 2\<lparr>workers := [Waiting, Ready]\<rparr>) example_pool"
    using submit_step.queued [of 7 "new_pool example_queue 2\<lparr>workers := [Waiting, Ready]\<rparr>" _ "[Woken, Ready]"]
      signal_not_empty.wakes [of 0 "[Waiting, Ready]"]
    by (intro pool_step.submit [of _ 7 QUEUE_OK])
      (simp add: new_pool_def enqueue_locked_def example_queue_def example_pool_def)
  ultimately show ?thesis by (rule reachable.step)
qed

theorem pool_serves_each_socket_once_witness:
  "reachable example_pool \<and> accepted example_pool = started example_pool @ queue_list (pool_queue example_pool)"
  using pool_serves_each_socket_once [OF example_pool_reachable] example_pool_reachable by simp

theorem no_lost_wakeup_witness:
  "\<exists>t. worker_step example_pool t"
  using no_lost_wakeup [OF example_pool_reachable]
  by (simp add: example_pool_def example_queue_def queue_list_def)

theorem pool_shutdown_terminates_witness:
  "\<exists>u. worker_step (thread_pool_stop example_pool) u"
  using pool_shutdown_terminates [OF example_pool_reachable relpowp_0_I]
  by (simp add: all_done_def thread_pool_stop_def pool_shutdown_def example_pool_def wake_def)

theorem thread_pool_start_outcomes_witness:
  "fst (thread_pool_start example_queue 2 []) = 0"
proof -
  obtain p h where s: "thread_pool_start example_queue 2 [] = (0, p, h)"
    by (simp add: thread_pool_start_def numeral_2_eq_2)
  with thread_pool_start_outcomes [OF example_queue_wf s] show ?thesis by simp
qed

end
