(* ===== verification/AccessLog.thy ===== *)
theory AccessLog
  imports Builder
begin

text \<open>
  The access log of \<^verbatim>\<open>src/log.c\<close>.

  An open log is the contents of its file (opened with mode \<^verbatim>\<open>"a"\<close>, so that every write goes
  to the end). \<^verbatim>\<open>access_log_write\<close> formats and writes one entry under the mutex, so it is one
  step here, and a log shared by several threads is a sequence of such steps. The environment
  enters as arguments: what \<^verbatim>\<open>fopen\<close> finds in the file, the outcomes of the allocation and of
  the mutex, and the \<^verbatim>\<open>struct tm\<close> that \<^verbatim>\<open>localtime_r\<close> fills. A \<^verbatim>\<open>FILE *\<close> that is open is counted
  in \<open>streams\<close>, so that leaks are visible. Write errors of the disk, which the code ignores,
  are not modelled.
\<close>

section \<open>Formatting\<close>

definition two_digits :: "nat \<Rightarrow> string" where
  "two_digits n = [char_of (48 + n div 10 mod 10), char_of (48 + n mod 10)]"

record tm =
  tm_sec :: nat
  tm_min :: nat
  tm_hour :: nat
  tm_mday :: nat
  tm_mon :: nat
  tm_year :: nat
  tm_gmtoff :: int

definition month_names :: "string list" where
  "month_names = [''Jan'', ''Feb'', ''Mar'', ''Apr'', ''May'', ''Jun'', ''Jul'', ''Aug'', ''Sep'', ''Oct'', ''Nov'', ''Dec'']"

text \<open>
  \<^verbatim>\<open>strftime\<close> with the format of the code, \<^verbatim>\<open>"%d/%b/%Y:%H:%M:%S %z"\<close>, in the C locale. The
  year counts from 1900, the zone offset is in seconds and printed as hours and minutes.
\<close>

definition timestamp_text :: "tm \<Rightarrow> string" where
  "timestamp_text t =
     two_digits (tm_mday t) @ ''/'' @ month_names ! tm_mon t @ ''/'' @ to_dec (1900 + tm_year t) @ '':'' @
     two_digits (tm_hour t) @ '':'' @ two_digits (tm_min t) @ '':'' @ two_digits (tm_sec t) @ '' '' @
     (if tm_gmtoff t < 0 then ''-'' else ''+'') @
     two_digits (nat \<bar>tm_gmtoff t\<bar> div 3600) @ two_digits (nat \<bar>tm_gmtoff t\<bar> div 60 mod 60)"

text \<open>The format string of \<^verbatim>\<open>access_log_write\<close> without its final newline.\<close>

definition entry_text :: "string \<Rightarrow> tm \<Rightarrow> string \<Rightarrow> int \<Rightarrow> nat \<Rightarrow> string" where
  "entry_text client_ip local_time request_line status_code bytes_sent =
     client_ip @ '' - - ['' @ timestamp_text local_time @ ''] '' @ [DQUOTE] @ request_line @ [DQUOTE] @ '' '' @
     printf_d status_code @ '' '' @ to_dec bytes_sent"

section \<open>The log\<close>

record access_log =
  log_file :: string

definition access_log_open ::
  "(string \<Rightarrow> string option) \<Rightarrow> string option \<Rightarrow> heap \<Rightarrow> nat \<Rightarrow> access_log option \<times> heap \<times> nat" where
  "access_log_open fopen_append path heap streams =
     (case path of
        None \<Rightarrow> (None, heap, streams)
      | Some path \<Rightarrow>
          let (created, heap) = allocate heap in
          if \<not> created then (None, heap, streams)
          else
            (case fopen_append path of
               None \<Rightarrow> (None, heap, streams)
             | Some existing \<Rightarrow>
                 let streams = Suc streams; (mutex, heap) = allocate heap in
                 if \<not> mutex then (None, heap, streams - 1)
                 else (Some \<lparr>log_file = existing\<rparr>, heap, streams)))"

definition access_log_close :: "access_log option \<Rightarrow> nat \<Rightarrow> nat" where
  "access_log_close log streams = (case log of None \<Rightarrow> streams | Some _ \<Rightarrow> streams - 1)"

definition access_log_write ::
  "access_log option \<Rightarrow> string option \<Rightarrow> string option \<Rightarrow> int \<Rightarrow> size_t \<Rightarrow> tm \<Rightarrow> access_log option" where
  "access_log_write log client_ip request_line status_code bytes_sent local_time =
     (case (log, client_ip, request_line) of
        (Some l, Some ip, Some line) \<Rightarrow>
          Some (l\<lparr>log_file := log_file l @ entry_text ip local_time line status_code (unat bytes_sent) @ [LF]\<rparr>)
      | _ \<Rightarrow> log)"

section \<open>What a reader of the log sees\<close>

text \<open>The lines of a file, and a parser of one entry in the common log format.\<close>

fun split_lines :: "string \<Rightarrow> string list" where
  "split_lines [] = []"
| "split_lines (c # s) =
     (if c = LF then [] # split_lines s
      else case split_lines s of [] \<Rightarrow> [[c]] | l # ls \<Rightarrow> (c # l) # ls)"

definition wf_tm :: "tm \<Rightarrow> bool" where
  "wf_tm t \<longleftrightarrow> tm_sec t \<le> 60 \<and> tm_min t < 60 \<and> tm_hour t < 24 \<and> 1 \<le> tm_mday t \<and> tm_mday t \<le> 31 \<and>
     tm_mon t < 12 \<and> tm_year t < 8100 \<and> \<bar>tm_gmtoff t\<bar> < 360000"

definition split_at :: "char \<Rightarrow> string \<Rightarrow> (string \<times> string) option" where
  "split_at c s = map_option (\<lambda>n. (take n s, drop (Suc n) s)) (memchr c s)"

definition split_at_last :: "char \<Rightarrow> string \<Rightarrow> (string \<times> string) option" where
  "split_at_last c s = map_option (\<lambda>(b, a). (rev a, rev b)) (split_at c (rev s))"

text \<open>The fields are cut off from both ends, so that quotes and blanks inside the request line do no harm.\<close>

definition parse_entry :: "string \<Rightarrow> (string \<times> string \<times> string \<times> nat \<times> nat) option" where
  "parse_entry s =
     (case split_at (CHR '' '') s of
        None \<Rightarrow> None
      | Some (ip, rest) \<Rightarrow>
          (case split_at (CHR '']'') (drop 5 rest) of
             None \<Rightarrow> None
           | Some (stamp, rest) \<Rightarrow>
               (case split_at_last (CHR '' '') (drop 2 rest) of
                  None \<Rightarrow> None
                | Some (rest, bytes) \<Rightarrow>
                    (case split_at_last (CHR '' '') rest of
                       None \<Rightarrow> None
                     | Some (quoted, status) \<Rightarrow>
                         Some (ip, stamp, butlast quoted, dec_value status, dec_value bytes)))))"

section \<open>Lemmas\<close>

lemma split_at_append: "c \<notin> set a \<Longrightarrow> split_at c (a @ c # b) = Some (a, b)"
  by (simp add: split_at_def)

lemma split_at_last_append: "c \<notin> set b \<Longrightarrow> split_at_last c (a @ c # b) = Some (a, b)"
  by (simp add: split_at_last_def split_at_append)

lemma isdigit_notin: "list_all isdigit s \<Longrightarrow> \<not> isdigit c \<Longrightarrow> c \<notin> set s"
  by (auto simp: list_all_iff)

lemma isdigit_two_digits [simp]: "list_all isdigit (two_digits n)"
  by (simp add: two_digits_def)

lemma length_two_digits [simp]: "length (two_digits n) = 2"
  by (simp add: two_digits_def)

lemma month_name_chars:
  assumes "m < 12"
  shows "length (month_names ! m) = 3 \<and> CHR '']'' \<notin> set (month_names ! m) \<and> LF \<notin> set (month_names ! m)"
proof -
  have "list_all (\<lambda>s. length s = 3 \<and> CHR '']'' \<notin> set s \<and> LF \<notin> set s) month_names" by (simp add: month_names_def)
  moreover have "length month_names = 12" by (simp add: month_names_def)
  ultimately show ?thesis using assms by (simp add: list_all_length)
qed

lemma length_to_dec_year: "tm_year t < 8100 \<Longrightarrow> length (to_dec (1900 + tm_year t)) = 4"
proof -
  assume y: "tm_year t < 8100"
  have "1000 \<le> 1900 + tm_year t" "(1900 + tm_year t) div 10 div 10 div 10 < 10" using y by linarith+
  moreover from this have "\<not> (1900 + tm_year t) div 10 div 10 < 10" "\<not> (1900 + tm_year t) div 10 < 10" by linarith+
  ultimately show ?thesis
    by (simp add: to_dec.simps [of "1900 + tm_year t"] to_dec.simps [of "(1900 + tm_year t) div 10"]
        to_dec.simps [of "(1900 + tm_year t) div 10 div 10"] to_dec.simps [of "(1900 + tm_year t) div 10 div 10 div 10"])
qed

lemma not_isdigit_bracket [simp]: "\<not> isdigit (CHR '']'')"
  by (simp add: isdigit_def byte_def)

lemma timestamp_chars:
  assumes "wf_tm t"
  shows "CHR '']'' \<notin> set (timestamp_text t)" "LF \<notin> set (timestamp_text t)"
  using assms month_name_chars [of "tm_mon t"] isdigit_notin [OF to_dec_digits] isdigit_notin [OF isdigit_two_digits]
  by (auto simp: timestamp_text_def wf_tm_def)

lemma LF_notin_entry:
  assumes "wf_tm t" "LF \<notin> set ip" "LF \<notin> set line"
  shows "LF \<notin> set (entry_text ip t line status bytes)"
  using assms timestamp_chars [OF assms(1)] isdigit_notin [OF to_dec_digits]
  by (auto simp: entry_text_def printf_d_def)

lemma split_lines_line: "LF \<notin> set l \<Longrightarrow> split_lines (l @ LF # s) = l # split_lines s"
  by (induction l) auto

lemma split_lines_nonempty: "s \<noteq> [] \<Longrightarrow> split_lines s \<noteq> []"
  by (cases s) (auto split: list.splits)

lemma split_lines_append: "split_lines (s @ LF # t) = split_lines (s @ [LF]) @ split_lines t"
proof (induction s)
  case (Cons c s)
  then show ?case using split_lines_nonempty [of "s @ [LF]"]
    by (cases "split_lines (s @ [LF])") auto
qed simp

text \<open>A file whose last line is complete.\<close>

definition complete_lines :: "string \<Rightarrow> bool" where
  "complete_lines s \<longleftrightarrow> s = [] \<or> last s = LF"

lemma split_lines_complete: "complete_lines s \<Longrightarrow> split_lines (s @ t) = split_lines s @ split_lines t"
  by (cases s rule: rev_cases) (auto simp: complete_lines_def split_lines_append [of _ t])

lemma complete_lines_snoc [simp]: "complete_lines (s @ t @ [LF])"
  by (simp add: complete_lines_def)

section \<open>Properties\<close>

text \<open>One request to write, and the writes of a history, in the order in which they took the mutex.\<close>

datatype log_entry = Entry string string int size_t tm

fun write_entry :: "log_entry \<Rightarrow> access_log option \<Rightarrow> access_log option" where
  "write_entry (Entry ip line status bytes t) log = access_log_write log (Some ip) (Some line) status bytes t"

fun entry_line :: "log_entry \<Rightarrow> string" where
  "entry_line (Entry ip line status bytes t) = entry_text ip t line status (unat bytes)"

fun plain_entry :: "log_entry \<Rightarrow> bool" where
  "plain_entry (Entry ip line status bytes t) \<longleftrightarrow> wf_tm t \<and> LF \<notin> set ip \<and> LF \<notin> set line"

lemma fold_write_entry:
  "complete_lines (log_file l) \<Longrightarrow> list_all plain_entry es \<Longrightarrow>
   \<exists>l'. fold write_entry es (Some l) = Some l' \<and>
     split_lines (log_file l') = split_lines (log_file l) @ map entry_line es"
proof (induction es arbitrary: l)
  case (Cons e es)
  obtain ip line status bytes t where e: "e = Entry ip line status bytes t" by (cases e)
  define l1 where "l1 = l\<lparr>log_file := log_file l @ entry_text ip t line status (unat bytes) @ [LF]\<rparr>"
  have w: "write_entry e (Some l) = Some l1" by (simp add: e access_log_write_def l1_def)
  have "split_lines (log_file l1) = split_lines (log_file l) @ [entry_line e]"
    using Cons.prems LF_notin_entry [of t ip line status "unat bytes"]
    by (simp add: l1_def e split_lines_complete split_lines_line)
  moreover have "complete_lines (log_file l1)"
    by (simp add: l1_def flip: append_assoc)  (simp add: complete_lines_def)
  ultimately show ?case using Cons.IH [of l1] Cons.prems w by auto
qed simp

text \<open>C32: Under any number of writes, by any threads in any order of taking the mutex, the log
  stays line-structured: the file keeps the lines it had and gets exactly one line per write,
  in that order, no entry torn or merged, as long as the request lines contain no bare
  line feed.\<close>

theorem log_one_line_per_write:
  assumes "complete_lines (log_file l)" "list_all plain_entry es"
  shows "map_option (\<lambda>l. split_lines (log_file l)) (fold write_entry es (Some l)) =
    Some (split_lines (log_file l) @ map entry_line es)"
  using fold_write_entry [OF assms] by auto

text \<open>C33: An entry can be read back: from the text of a line the address, the time stamp, the
  request line, the status and the byte count are recovered exactly, even when the request
  line contains quotes and blanks.\<close>

theorem log_entry_roundtrip:
  assumes "wf_tm t" "CHR '' '' \<notin> set ip" "0 \<le> status"
  shows "parse_entry (entry_text ip t line status bytes) =
    Some (ip, timestamp_text t, line, nat status, bytes)"
proof -
  have blank: "CHR '' '' \<notin> set (to_dec n)" for n
    using isdigit_notin [OF to_dec_digits] by simp
  have "split_at (CHR '' '') (entry_text ip t line status bytes) =
      Some (ip, ''- - ['' @ timestamp_text t @ CHR '']'' # CHR '' '' # DQUOTE # line @ [DQUOTE] @ '' '' @
        printf_d status @ '' '' @ to_dec bytes)"
    using split_at_append [OF assms(2)] by (simp add: entry_text_def)
  moreover have "split_at (CHR '']'') (timestamp_text t @ CHR '']'' # CHR '' '' # DQUOTE # line @ [DQUOTE] @ '' '' @
      printf_d status @ '' '' @ to_dec bytes) = Some (timestamp_text t,
      CHR '' '' # DQUOTE # line @ [DQUOTE] @ '' '' @ printf_d status @ '' '' @ to_dec bytes)"
    by (rule split_at_append [OF timestamp_chars(1) [OF assms(1)]])
  moreover have "split_at_last (CHR '' '') (line @ [DQUOTE] @ '' '' @ to_dec (nat status) @ '' '' @ to_dec bytes) =
      Some (line @ [DQUOTE] @ '' '' @ to_dec (nat status), to_dec bytes)"
    using split_at_last_append [OF blank, of "line @ [DQUOTE] @ '' '' @ to_dec (nat status)"] by simp
  moreover have "split_at_last (CHR '' '') (line @ [DQUOTE] @ '' '' @ to_dec (nat status)) =
      Some (line @ [DQUOTE], to_dec (nat status))"
    using split_at_last_append [OF blank, of "line @ [DQUOTE]"] by simp
  ultimately show ?thesis
    using assms(3) by (simp add: parse_entry_def printf_d_def)
qed

text \<open>The time stamp always fits the array of 64 bytes that \<^verbatim>\<open>strftime\<close> is given: it has 26
  bytes, none of them a line feed or the bracket that ends the field.\<close>

theorem timestamp_fits:
  assumes "wf_tm t"
  shows "length (timestamp_text t) = 26 \<and> set (timestamp_text t) \<inter> {LF, CHR '']''} = {}"
  using assms timestamp_chars [OF assms] month_name_chars [of "tm_mon t"] length_to_dec_year [of t]
  by (auto simp: timestamp_text_def wf_tm_def)

text \<open>\<^verbatim>\<open>access_log_open\<close> leaks nothing: when it fails no stream stays open, when it succeeds
  exactly one does, holding what the file held, and \<^verbatim>\<open>access_log_close\<close> closes it. It succeeds
  exactly when there is a path, both allocations succeed and the file can be opened.\<close>

theorem access_log_open_no_leak:
  assumes "access_log_open fopen_append path heap streams = (log, heap', streams')"
  shows "access_log_close log streams' = streams \<and>
    streams' = (case log of None \<Rightarrow> streams | Some _ \<Rightarrow> Suc streams) \<and>
    log = (case path of None \<Rightarrow> None | Some p \<Rightarrow>
      if list_all id (take 2 heap) then map_option (\<lambda>existing. \<lparr>log_file = existing\<rparr>) (fopen_append p) else None)"
proof (cases path)
  case None
  with assms show ?thesis by (auto simp: access_log_open_def access_log_close_def)
next
  case path: (Some p)
  show ?thesis
  proof (cases heap)
    case Nil
    with assms path show ?thesis
      by (auto simp: access_log_open_def access_log_close_def split: option.splits)
  next
    case (Cons a rest)
    with assms path show ?thesis
      by (cases rest) (auto simp: access_log_open_def access_log_close_def split: option.splits if_splits)
  qed
qed

theorem log_one_line_per_write_witness:
  "let t = \<lparr>tm_sec = 1, tm_min = 2, tm_hour = 3, tm_mday = 4, tm_mon = 5, tm_year = 126, tm_gmtoff = 25200\<rparr>;
       es = [Entry ''10.0.0.1'' ''GET / HTTP/1.1'' 200 5 t, Entry ''::1'' ''-'' 503 20 t]
   in map_option (\<lambda>l. split_lines (log_file l)) (fold write_entry es (Some \<lparr>log_file = ''a'' @ [LF]\<rparr>)) =
     Some (split_lines (''a'' @ [LF]) @ map entry_line es)"
  unfolding Let_def
  by (subst log_one_line_per_write) (simp_all add: complete_lines_def wf_tm_def)

theorem log_entry_roundtrip_witness:
  "let t = \<lparr>tm_sec = 1, tm_min = 2, tm_hour = 3, tm_mday = 4, tm_mon = 5, tm_year = 126, tm_gmtoff = 25200\<rparr>
   in parse_entry (entry_text ''::1'' t ''GET /a b HTTP/1.1'' 404 14) =
     Some (''::1'', ''04/Jun/2026:03:02:01 +0700'', ''GET /a b HTTP/1.1'', 404, 14)"
proof -
  define t where "t = \<lparr>tm_sec = 1, tm_min = 2, tm_hour = 3, tm_mday = 4, tm_mon = 5, tm_year = 126, tm_gmtoff = 25200\<rparr>"
  have "wf_tm t" by (simp add: t_def wf_tm_def)
  moreover have "timestamp_text t = ''04/Jun/2026:03:02:01 +0700''"
    by (simp add: timestamp_text_def t_def two_digits_def month_names_def to_dec.simps char_of_def bit_0)
  ultimately show ?thesis
    unfolding t_def [symmetric] Let_def using log_entry_roundtrip [of t "''::1''" 404] by simp
qed

theorem timestamp_fits_witness:
  "length (timestamp_text \<lparr>tm_sec = 60, tm_min = 0, tm_hour = 0, tm_mday = 31, tm_mon = 11, tm_year = 0, tm_gmtoff = - 3600\<rparr>) = 26"
  using timestamp_fits [of "\<lparr>tm_sec = 60, tm_min = 0, tm_hour = 0, tm_mday = 31, tm_mon = 11, tm_year = 0, tm_gmtoff = - 3600\<rparr>"]
  by (simp add: wf_tm_def)

theorem access_log_open_no_leak_witness:
  "\<exists>h s. access_log_open (\<lambda>_. Some []) (Some ''access.log'') [True, False] 3 = (None, h, s) \<and> s = 3"
proof -
  obtain h s where o: "access_log_open (\<lambda>_. Some []) (Some ''access.log'') [True, False] 3 = (None, h, s)"
    by (simp add: access_log_open_def)
  from access_log_open_no_leak [OF o] o show ?thesis by simp
qed

end
