(* ===== verification/Response.thy ===== *)
theory Response
  imports Http Listing
begin

text \<open>
  The response side of \<^verbatim>\<open>src/server.c\<close>: \<^verbatim>\<open>send_all\<close>, the range arithmetic, and the functions
  that write a response.

  A connection is a \<open>conn\<close>: what its peer will send, what each coming \<^verbatim>\<open>send\<close> call of the
  socket will do (an exhausted list accepts everything), the bytes sent so far, the number of
  files this thread has open, and the number of times the socket was closed. A response is
  modelled by the bytes it appends to \<open>outgoing\<close>. \<^verbatim>\<open>snprintf\<close> into the header array of 8192
  bytes is the formatted text together with the code's own test of the returned length.
\<close>

section \<open>Connections\<close>

definition READ_BUFFER_SIZE :: nat where "READ_BUFFER_SIZE = 8192"

definition RESPONSE_BUFFER_SIZE :: nat where "RESPONSE_BUFFER_SIZE = 8192"

datatype send_event = Send_accepts nat | Send_eintr | Send_fails

datatype recv_event = Recv_bytes string | Recv_eintr | Recv_fails

record conn =
  incoming :: "recv_event list"
  send_script :: "send_event list"
  outgoing :: string
  open_files :: nat
  closes :: nat

text \<open>
  The loop of \<^verbatim>\<open>send_all\<close>, on the bytes not yet sent: \<^verbatim>\<open>send\<close> takes some of them, is
  interrupted, or fails; taking none counts as a failure.
\<close>

fun send_loop :: "send_event list \<Rightarrow> string \<Rightarrow> string \<Rightarrow> int \<times> send_event list \<times> string" where
  "send_loop events out [] = (0, events, out)"
| "send_loop [] out data = (0, [], out @ data)"
| "send_loop (Send_eintr # events) out data = send_loop events out data"
| "send_loop (Send_fails # events) out data = (- 1, events, out)"
| "send_loop (Send_accepts n # events) out data =
     (if n = 0 then (- 1, events, out) else send_loop events (out @ take n data) (drop n data))"

definition send_all :: "conn \<Rightarrow> string \<Rightarrow> int \<times> conn" where
  "send_all c data =
     (let (r, events, out) = send_loop (send_script c) (outgoing c) data
      in (r, c\<lparr>send_script := events, outgoing := out\<rparr>))"

section \<open>Ranges\<close>

record byte_range =
  br_start :: size_t
  br_end :: size_t
  br_length :: size_t
  br_partial :: bool

definition resolve_range :: "http_request option \<Rightarrow> size_t \<Rightarrow> byte_range option" where
  "resolve_range request file_size =
     (case request of
        None \<Rightarrow> None
      | Some r \<Rightarrow>
          if \<not> has_range r then
            Some \<lparr>br_start = 0, br_end = (if file_size = 0 then 0 else file_size - 1),
                  br_length = file_size, br_partial = False\<rparr>
          else if file_size = 0 then None
          else if range_is_suffix r then
            let suffix_length = range_start r;
                s = (if suffix_length \<ge> file_size then 0 else file_size - suffix_length);
                e = file_size - 1
            in Some \<lparr>br_start = s, br_end = e, br_length = e - s + 1, br_partial = True\<rparr>
          else if range_start r \<ge> file_size then None
          else
            let s = range_start r;
                e = (if range_end_provided r then range_end r else file_size - 1)
            in if e < s then None
               else
                 let e = (if e \<ge> file_size then file_size - 1 else e)
                 in Some \<lparr>br_start = s, br_end = e, br_length = e - s + 1, br_partial = True\<rparr>)"

section \<open>Responses\<close>

record response_result =
  status_code :: int
  body_bytes :: size_t

definition zu :: "size_t \<Rightarrow> string" where
  "zu n = to_dec (unat n)"

definition response_version :: "http_request option \<Rightarrow> string" where
  "response_version request =
     (case request of
        None \<Rightarrow> ''HTTP/1.1''
      | Some r \<Rightarrow> if req_version r = HTTP_VERSION_10 then ''HTTP/1.0'' else ''HTTP/1.1'')"

definition connection_token :: "bool \<Rightarrow> string" where
  "connection_token keep_alive = (if keep_alive then ''keep-alive'' else ''close'')"

definition sends_body :: "http_request option \<Rightarrow> bool" where
  "sends_body request = (case request of None \<Rightarrow> True | Some r \<Rightarrow> req_method r \<noteq> HTTP_METHOD_HEAD)"

definition simple_headers :: "http_request option \<Rightarrow> int \<Rightarrow> size_t \<Rightarrow> bool \<Rightarrow> string" where
  "simple_headers request status body_len keep_alive =
     response_version request @ '' '' @ printf_d status @ '' '' @ http_status_text status @ crlf @
     ''Content-Type: text/plain'' @ crlf @
     ''Content-Length: '' @ zu body_len @ crlf @
     ''Connection: '' @ connection_token keep_alive @ crlf @ crlf"

definition send_simple_response ::
  "conn \<Rightarrow> http_request option \<Rightarrow> int \<Rightarrow> string \<Rightarrow> bool \<Rightarrow> response_result \<Rightarrow> int \<times> response_result \<times> conn" where
  "send_simple_response c request status body keep_alive result =
     (let body_len = of_nat (length body);
          headers = simple_headers request status body_len keep_alive
      in if length headers \<ge> RESPONSE_BUFFER_SIZE then (- 1, result, c)
         else
           let (sent, c) = send_all c headers in
           if sent \<noteq> 0 then (- 1, result, c)
           else
             let (sent, c) = (if sends_body request then send_all c body else (0, c)) in
             if sent \<noteq> 0 then (- 1, result, c)
             else (0, \<lparr>status_code = status, body_bytes = (if sends_body request then body_len else 0)\<rparr>, c))"

definition range_error_body :: string where
  "range_error_body = ''Range Not Satisfiable'' @ [LF]"

definition range_error_headers :: "http_request option \<Rightarrow> size_t \<Rightarrow> bool \<Rightarrow> string" where
  "range_error_headers request file_size keep_alive =
     response_version request @ '' 416 '' @ http_status_text 416 @ crlf @
     ''Content-Type: text/plain'' @ crlf @
     ''Content-Length: '' @ zu (of_nat (length range_error_body)) @ crlf @
     ''Content-Range: bytes */'' @ zu file_size @ crlf @
     ''Connection: '' @ connection_token keep_alive @ crlf @ crlf"

definition send_range_not_satisfiable ::
  "conn \<Rightarrow> http_request option \<Rightarrow> size_t \<Rightarrow> bool \<Rightarrow> response_result \<Rightarrow> int \<times> response_result \<times> conn" where
  "send_range_not_satisfiable c request file_size keep_alive result =
     (let headers = range_error_headers request file_size keep_alive
      in if length headers \<ge> RESPONSE_BUFFER_SIZE then (- 1, result, c)
         else
           let (sent, c) = send_all c headers in
           if sent \<noteq> 0 then (- 1, result, c)
           else
             let (sent, c) = (if sends_body request then send_all c range_error_body else (0, c)) in
             if sent \<noteq> 0 then (- 1, result, c)
             else (0, \<lparr>status_code = 416,
               body_bytes = (if sends_body request then of_nat (length range_error_body) else 0)\<rparr>, c))"

text \<open>
  \<^verbatim>\<open>send_file_response\<close>. The file that \<^verbatim>\<open>fopen\<close> opens is its contents from here on (it may have
  changed since \<^verbatim>\<open>stat\<close> reported its size). \<^verbatim>\<open>fseeko\<close> gets the offset as a signed \<^verbatim>\<open>off_t\<close>.
\<close>

definition fseeko_ok :: "os_view \<Rightarrow> string \<Rightarrow> size_t \<Rightarrow> bool" where
  "fseeko_ok os file offset \<longleftrightarrow> os_seekable os file \<and> unat offset < 2 ^ 63"

definition full_headers :: "http_request \<Rightarrow> file_info \<Rightarrow> bool \<Rightarrow> string" where
  "full_headers request info keep_alive =
     response_version (Some request) @ '' 200 OK'' @ crlf @
     ''Content-Type: '' @ mime_type info @ crlf @
     ''Content-Length: '' @ zu (info_size info) @ crlf @
     ''Accept-Ranges: bytes'' @ crlf @
     ''Connection: '' @ connection_token keep_alive @ crlf @ crlf"

definition partial_headers :: "http_request \<Rightarrow> file_info \<Rightarrow> byte_range \<Rightarrow> bool \<Rightarrow> string" where
  "partial_headers request info rng keep_alive =
     response_version (Some request) @ '' 206 '' @ http_status_text 206 @ crlf @
     ''Content-Type: '' @ mime_type info @ crlf @
     ''Content-Length: '' @ zu (br_length rng) @ crlf @
     ''Content-Range: bytes '' @ zu (br_start rng) @ ''-'' @ zu (br_end rng) @ ''/'' @ zu (info_size info) @ crlf @
     ''Accept-Ranges: bytes'' @ crlf @
     ''Connection: '' @ connection_token keep_alive @ crlf @ crlf"

text \<open>The copy loop: blocks of at most 8192 bytes from the position in the file to the socket.\<close>

function copy_loop :: "nat \<Rightarrow> string \<Rightarrow> conn \<Rightarrow> int \<times> conn" where
  "copy_loop remaining file c =
     (if remaining = 0 then (0, c)
      else
        let got = take (min remaining READ_BUFFER_SIZE) file in
        if got = [] then (- 1, c)
        else
          let (sent, c) = send_all c got in
          if sent \<noteq> 0 then (- 1, c)
          else copy_loop (remaining - length got) (drop (length got) file) c)"
  by auto

termination by (relation "measure (\<lambda>(remaining, _, _). remaining)") auto

definition fclose_file :: "conn \<Rightarrow> conn" where
  "fclose_file c = c\<lparr>open_files := open_files c - 1\<rparr>"

definition server_error_body :: string where
  "server_error_body = ''Internal Server Error'' @ [LF]"

definition send_file_response ::
  "os_view \<Rightarrow> conn \<Rightarrow> http_request \<Rightarrow> file_info \<Rightarrow> bool \<Rightarrow> response_result \<Rightarrow> int \<times> response_result \<times> conn" where
  "send_file_response os c request info keep_alive result =
     (case os_fopen os (resolved_path info) of
        None \<Rightarrow> send_simple_response c (Some request) 500 server_error_body False result
      | Some file \<Rightarrow>
          let c = c\<lparr>open_files := Suc (open_files c)\<rparr> in
          (case resolve_range (Some request) (info_size info) of
             None \<Rightarrow> send_range_not_satisfiable (fclose_file c) (Some request) (info_size info) keep_alive result
           | Some rng \<Rightarrow>
               if br_partial rng \<and> \<not> fseeko_ok os (resolved_path info) (br_start rng) then
                 send_simple_response (fclose_file c) (Some request) 500 server_error_body False result
               else
                 let file = (if br_partial rng then drop (unat (br_start rng)) file else file);
                     status = (if br_partial rng then 206 else 200);
                     headers = (if br_partial rng then partial_headers request info rng keep_alive
                                else full_headers request info keep_alive)
                 in if length headers \<ge> RESPONSE_BUFFER_SIZE then (- 1, result, fclose_file c)
                    else
                      let (sent, c) = send_all c headers in
                      if sent \<noteq> 0 then (- 1, result, fclose_file c)
                      else if req_method request = HTTP_METHOD_HEAD then
                        (0, \<lparr>status_code = status, body_bytes = 0\<rparr>, fclose_file c)
                      else
                        let (copied, c) = copy_loop (unat (br_length rng)) file c in
                        if copied \<noteq> 0 then (- 1, result, fclose_file c)
                        else (0, \<lparr>status_code = status, body_bytes = br_length rng\<rparr>, fclose_file c)))"

definition directory_headers :: "http_request \<Rightarrow> size_t \<Rightarrow> bool \<Rightarrow> string" where
  "directory_headers request body_len keep_alive =
     response_version (Some request) @ '' 200 OK'' @ crlf @
     ''Content-Type: text/html'' @ crlf @
     ''Content-Length: '' @ zu body_len @ crlf @
     ''Connection: '' @ connection_token keep_alive @ crlf @ crlf"

definition send_directory_response ::
  "os_view \<Rightarrow> conn \<Rightarrow> http_request \<Rightarrow> file_info \<Rightarrow> bool \<Rightarrow> response_result \<Rightarrow> int \<times> response_result \<times> conn" where
  "send_directory_response os c request info keep_alive result =
     (case file_build_directory_listing os (c_str (path request)) (resolved_path info) of
        (FILE_RESULT_OK, Some body, body_len) \<Rightarrow>
          let headers = directory_headers request body_len keep_alive in
          if length headers \<ge> RESPONSE_BUFFER_SIZE then (- 1, result, c)
          else
            let (sent, c) = send_all c headers in
            if sent \<noteq> 0 then (- 1, result, c)
            else if req_method request = HTTP_METHOD_HEAD then
              (0, \<lparr>status_code = 200, body_bytes = 0\<rparr>, c)
            else
              let (sent, c) = send_all c (take (unat body_len) body) in
              if sent \<noteq> 0 then (- 1, result, c)
              else (0, \<lparr>status_code = 200, body_bytes = body_len\<rparr>, c)
      | _ \<Rightarrow> send_simple_response c (Some request) 500 server_error_body False result)"

definition status_from_file_result :: "file_result \<Rightarrow> int" where
  "status_from_file_result result =
     (case result of FILE_RESULT_NOT_FOUND \<Rightarrow> 404 | FILE_RESULT_FORBIDDEN \<Rightarrow> 403 | _ \<Rightarrow> 500)"

declare send_loop.simps [simp del] copy_loop.simps [simp del]

section \<open>The contract of sending\<close>

text \<open>
  What a sending operation does with its data: a prefix of it goes out, all of it exactly when
  the operation reports success. Two such operations in a row are one for the concatenation.
\<close>

definition delivered :: "('s \<Rightarrow> string) \<Rightarrow> 's \<Rightarrow> string \<Rightarrow> int \<Rightarrow> 's \<Rightarrow> bool" where
  "delivered out c data r c' \<longleftrightarrow>
     (r = 0 \<or> r = - 1) \<and> (\<exists>n \<le> length data. out c' = out c @ take n data \<and> (r = 0 \<longleftrightarrow> n = length data))"

lemma delivered_Nil [simp]: "delivered out c [] r c' \<longleftrightarrow> r = 0 \<and> out c' = out c"
  by (auto simp: delivered_def)

lemma delivered_OK: "delivered out c data 0 c' \<longleftrightarrow> out c' = out c @ data"
  by (auto simp: delivered_def)

lemma delivered_prefix: "delivered out c data r c' \<Longrightarrow> prefix (out c') (out c @ data)"
  by (auto simp: delivered_def take_is_prefix)

lemma delivered_append:
  assumes "delivered out c a 0 c1" "delivered out c1 b r c2"
  shows "delivered out c (a @ b) r c2"
proof -
  from assms obtain n where "n \<le> length b" "out c2 = out c @ a @ take n b" "r = 0 \<longleftrightarrow> n = length b" "r = 0 \<or> r = - 1"
    by (auto simp: delivered_def)
  then show ?thesis
    unfolding delivered_def by (intro conjI exI [of _ "length a + n"]) auto
qed

lemma delivered_stop:
  assumes "delivered out c a r c1" "r \<noteq> 0"
  shows "delivered out c (a @ b) r c1"
proof -
  from assms obtain n where "n \<le> length a" "n \<noteq> length a" "out c1 = out c @ take n a" "r = - 1"
    by (auto simp: delivered_def)
  then show ?thesis unfolding delivered_def by (intro conjI exI [of _ n]) auto
qed

locale byte_sink =
  fixes send :: "'s \<Rightarrow> string \<Rightarrow> int \<times> 's"
    and out :: "'s \<Rightarrow> string"
    and rest :: "'s \<Rightarrow> 'r"
    and ready :: "'s \<Rightarrow> bool"
  assumes send_delivers: "send c data = (r, c') \<Longrightarrow> delivered out c data r c'"
    and send_rest: "send c data = (r, c') \<Longrightarrow> rest c' = rest c"
    and send_ready: "send c data = (r, c') \<Longrightarrow> ready c \<Longrightarrow> r = 0 \<and> ready c'"
begin

text \<open>A header and, unless it is suppressed, a body: the shape of every response.\<close>

lemma two_parts:
  assumes "send c head = (r1, c1)" "(if r1 = 0 \<and> b then send c1 body else (r1, c1)) = (r, c')"
  shows "delivered out c (head @ (if b then body else [])) r c'" "rest c' = rest c"
    "ready c \<Longrightarrow> r = 0 \<and> ready c'"
proof -
  note h = send_delivers [OF assms(1)] send_rest [OF assms(1)] send_ready [OF assms(1)]
  show "delivered out c (head @ (if b then body else [])) r c'"
  proof (cases "r1 = 0")
    case True
    show ?thesis
    proof (cases b)
      case True
      with assms(2) \<open>r1 = 0\<close> have "send c1 body = (r, c')" by simp
      from delivered_append [OF _ send_delivers [OF this]] h(1) \<open>r1 = 0\<close> True show ?thesis by simp
    qed (use assms(2) h(1) True in auto)
  next
    case False
    with assms(2) have "r = r1" "c' = c1" by auto
    with delivered_stop [OF h(1) False] show ?thesis by simp
  qed
  show "rest c' = rest c"
    using assms(2) h(2) send_rest [of c1 body] by (auto split: if_splits)
  show "r = 0 \<and> ready c'" if "ready c"
    using assms(2) h(3) that send_ready [of c1 body] by (auto split: if_splits)
qed

end

text \<open>A socket whose sends are at most cut short or interrupted.\<close>

definition link_up :: "send_event list \<Rightarrow> bool" where
  "link_up events \<longleftrightarrow> list_all (\<lambda>e. e \<noteq> Send_fails \<and> e \<noteq> Send_accepts 0) events"

lemma send_loop_delivers:
  "send_loop events out data = (r, events', out') \<Longrightarrow>
   (r = 0 \<or> r = - 1) \<and> (\<exists>n \<le> length data. out' = out @ take n data \<and> (r = 0 \<longleftrightarrow> n = length data))"
proof (induction events out data rule: send_loop.induct)
  case (5 n events out d data)
  show ?case
  proof (cases "n = 0")
    case True
    with 5 show ?thesis by (auto simp: send_loop.simps intro!: exI [of _ 0])
  next
    case False
    with 5 obtain m where m: "r = 0 \<or> r = - 1" "m \<le> length (drop n (d # data))"
      "out' = (out @ take n (d # data)) @ take m (drop n (d # data))" "r = 0 \<longleftrightarrow> m = length (drop n (d # data))"
      by (auto simp: send_loop.simps)
    define k where "k = min n (length (d # data)) + m"
    have "out' = out @ take k (d # data)"
      unfolding m(3) k_def by (simp add: take_add min_def)
    moreover have "k \<le> length (d # data)" "r = 0 \<longleftrightarrow> k = length (d # data)"
      using m(2,4) by (auto simp: k_def min_def)
    ultimately show ?thesis using m(1) by blast
  qed
qed (auto simp: send_loop.simps intro!: exI [of _ 0])

lemma send_loop_link_up:
  "send_loop events out data = (r, events', out') \<Longrightarrow> link_up events \<Longrightarrow> r = 0 \<and> link_up events'"
  by (induction events out data rule: send_loop.induct) (auto simp: send_loop.simps link_up_def split: if_splits)

interpretation socket: byte_sink send_all outgoing "\<lambda>c. (incoming c, open_files c, closes c)"
  "\<lambda>c. link_up (send_script c)"
proof unfold_locales
  fix c data r c' assume s: "send_all c data = (r, c')"
  obtain events' out' where l: "send_loop (send_script c) (outgoing c) data = (r, events', out')"
    and c': "c' = c\<lparr>send_script := events', outgoing := out'\<rparr>"
    using s by (auto simp: send_all_def split: prod.splits)
  from send_loop_delivers [OF l] show "delivered outgoing c data r c'" by (simp add: delivered_def c')
  show "(incoming c', open_files c', closes c') = (incoming c, open_files c, closes c)" by (simp add: c')
  show "r = 0 \<and> link_up (send_script c')" if "link_up (send_script c)"
    using send_loop_link_up [OF l that] by (simp add: c')
qed

section \<open>Lemmas: the responses\<close>

text \<open>What a response function promises when its header and body are given.\<close>

definition responds ::
  "conn \<Rightarrow> string \<Rightarrow> int \<Rightarrow> size_t \<Rightarrow> response_result \<Rightarrow> int \<times> response_result \<times> conn \<Rightarrow> bool" where
  "responds c message status bytes result outcome \<longleftrightarrow>
     (case outcome of (r, result', c') \<Rightarrow>
        delivered outgoing c message r c' \<and>
        incoming c' = incoming c \<and> open_files c' = open_files c \<and> closes c' = closes c \<and>
        result' = (if r = 0 then \<lparr>status_code = status, body_bytes = bytes\<rparr> else result) \<and>
        (link_up (send_script c) \<longrightarrow> r = 0 \<and> link_up (send_script c')))"

lemma responds_two_parts:
  assumes "(let (sent, c) = send_all c head in
      if sent \<noteq> 0 then (- 1, result, c)
      else
        let (sent, c) = (if b then send_all c body else (0, c)) in
        if sent \<noteq> 0 then (- 1, result, c)
        else (0, \<lparr>status_code = status, body_bytes = bytes\<rparr>, c)) = outcome"
  shows "responds c (head @ (if b then body else [])) status bytes result outcome"
proof -
  obtain r1 c1 where s1: "send_all c head = (r1, c1)" by fastforce
  obtain r2 c2 where s2: "(if r1 = 0 \<and> b then send_all c1 body else (r1, c1)) = (r2, c2)" by fastforce
  note two = socket.two_parts [OF s1 s2]
  from two(1) have r2: "r2 = 0 \<or> r2 = - 1" by (simp add: delivered_def)
  have "outcome = (if r2 = 0 then (0, \<lparr>status_code = status, body_bytes = bytes\<rparr>, c2) else (- 1, result, c2))"
    using assms s1 s2 by (auto split: if_splits prod.splits)
  with two r2 show ?thesis by (auto simp: responds_def)
qed

lemma length_zu: "length (zu n) \<le> 20"
  unfolding zu_def by (rule length_to_dec_size_t)

lemma length_response_version [simp]: "length (response_version request) = 8"
  by (simp add: response_version_def split: option.split)

lemma length_connection_token: "length (connection_token ka) \<le> 10"
  by (simp add: connection_token_def)

lemma length_status_text: "length (http_status_text status) \<le> 21"
  by (simp add: http_status_text_def)

lemma length_printf_d: "0 \<le> i \<Longrightarrow> i < 1000 \<Longrightarrow> length (printf_d i) \<le> 3"
  using length_to_dec_le [of "nat i" 3] by (simp add: printf_d_def)

lemma simple_headers_fit: "0 \<le> status \<Longrightarrow> status < 1000 \<Longrightarrow> length (simple_headers request status n ka) < RESPONSE_BUFFER_SIZE"
  using length_zu [of n] length_connection_token [of ka] length_status_text [of status] length_printf_d [of status]
  by (simp add: simple_headers_def RESPONSE_BUFFER_SIZE_def)

lemma range_error_headers_fit: "length (range_error_headers request n ka) < RESPONSE_BUFFER_SIZE"
  using length_zu [of n] length_zu [of "of_nat (length range_error_body)"] length_connection_token [of ka]
    length_status_text [of 416]
  by (simp add: range_error_headers_def RESPONSE_BUFFER_SIZE_def)

lemma full_headers_fit: "length (mime_type info) \<le> 8000 \<Longrightarrow> length (full_headers request info ka) < RESPONSE_BUFFER_SIZE"
  using length_zu [of "info_size info"] length_connection_token [of ka]
  by (simp add: full_headers_def RESPONSE_BUFFER_SIZE_def)

lemma partial_headers_fit:
  "length (mime_type info) \<le> 7900 \<Longrightarrow> length (partial_headers request info rng ka) < RESPONSE_BUFFER_SIZE"
  using length_zu [of "info_size info"] length_zu [of "br_start rng"] length_zu [of "br_end rng"]
    length_zu [of "br_length rng"] length_connection_token [of ka] length_status_text [of 206]
  by (simp add: partial_headers_def RESPONSE_BUFFER_SIZE_def)

lemma directory_headers_fit: "length (directory_headers request n ka) < RESPONSE_BUFFER_SIZE"
  using length_zu [of n] length_connection_token [of ka]
  by (simp add: directory_headers_def RESPONSE_BUFFER_SIZE_def)

lemma send_simple_response_responds:
  assumes "0 \<le> status" "status < 1000"
  shows "responds c
    (simple_headers request status (of_nat (length body)) ka @ (if sends_body request then body else []))
    status (if sends_body request then of_nat (length body) else 0) result
    (send_simple_response c request status body ka result)"
  using simple_headers_fit [OF assms, of request "of_nat (length body)" ka]
  by (intro responds_two_parts) (simp add: send_simple_response_def Let_def)

lemma send_range_not_satisfiable_responds:
  "responds c
    (range_error_headers request n ka @ (if sends_body request then range_error_body else []))
    416 (if sends_body request then of_nat (length range_error_body) else 0) result
    (send_range_not_satisfiable c request n ka result)"
  using range_error_headers_fit [of request n ka]
  by (intro responds_two_parts) (simp add: send_range_not_satisfiable_def Let_def)

lemma copy_loop_step:
  assumes "n \<noteq> 0" "f \<noteq> []" "send_all c (take (min n READ_BUFFER_SIZE) f) = (r1, c1)"
  shows "copy_loop n f c = (if r1 \<noteq> 0 then (- 1, c1) else
    copy_loop (n - length (take (min n READ_BUFFER_SIZE) f)) (drop (length (take (min n READ_BUFFER_SIZE) f)) f) c1)"
proof -
  have "take (min n READ_BUFFER_SIZE) f \<noteq> []" using assms(1,2) by (simp add: READ_BUFFER_SIZE_def min_def)
  with assms show ?thesis by (subst copy_loop.simps) (simp add: Let_def del: take_eq_Nil take_eq_Nil2)
qed

lemma copy_loop_stop [simp]: "copy_loop 0 f c = (0, c)" "n \<noteq> 0 \<Longrightarrow> copy_loop n [] c = (- 1, c)"
  by (subst copy_loop.simps; simp)+

lemma copy_loop_delivers:
  "copy_loop n f c = (r, c') \<Longrightarrow> n \<le> length f \<Longrightarrow>
   delivered outgoing c (take n f) r c' \<and> (link_up (send_script c) \<longrightarrow> r = 0 \<and> link_up (send_script c'))"
proof (induction n arbitrary: f c rule: less_induct)
  case (less n)
  show ?case
  proof (cases "n = 0")
    case True
    with less.prems show ?thesis by auto
  next
    case False
    define k where "k = min n READ_BUFFER_SIZE"
    have k: "k \<le> n" "0 < k" "f \<noteq> []" using False less.prems(2) by (auto simp: k_def READ_BUFFER_SIZE_def)
    obtain r1 c1 where s: "send_all c (take k f) = (r1, c1)" by fastforce
    note S = socket.send_delivers [OF s] socket.send_ready [OF s]
    note step = copy_loop_step [OF False k(3) s [unfolded k_def], folded k_def]
    have block: "take n f = take k f @ take (n - k) (drop k f)"
      using take_add [of k "n - k" f] k(1) by simp
    show ?thesis
    proof (cases "r1 = 0")
      case True
      with less.prems step have rest: "copy_loop (n - k) (drop k f) c1 = (r, c')" using k(1) less.prems(2) by simp
      from less.IH [OF _ rest] k less.prems(2) have ih: "delivered outgoing c1 (take (n - k) (drop k f)) r c' \<and>
        (link_up (send_script c1) \<longrightarrow> r = 0 \<and> link_up (send_script c'))" by auto
      with S True delivered_append [of outgoing c "take k f" c1 "take (n - k) (drop k f)" r c']
      show ?thesis unfolding block by auto
    next
      case False
      with less.prems step have "r = - 1" "c' = c1" by auto
      with delivered_stop [OF S(1) False, of "take (n - k) (drop k f)"] False S
      show ?thesis unfolding block delivered_def by blast
    qed
  qed
qed

lemma copy_loop_frame:
  "copy_loop n f c = (r, c') \<Longrightarrow>
   incoming c' = incoming c \<and> open_files c' = open_files c \<and> closes c' = closes c \<and> (r = 0 \<or> r = - 1)"
proof (induction n arbitrary: f c rule: less_induct)
  case (less n)
  show ?case
  proof (cases "n = 0 \<or> f = []")
    case True
    with less.prems show ?thesis by (cases "n = 0") auto
  next
    case False
    define k where "k = length (take (min n READ_BUFFER_SIZE) f)"
    have k: "n - k < n" using False by (simp add: k_def READ_BUFFER_SIZE_def min_def)
    obtain r1 c1 where s: "send_all c (take (min n READ_BUFFER_SIZE) f) = (r1, c1)" by fastforce
    from False less.prems copy_loop_step [OF _ _ s, folded k_def]
    have "(if r1 \<noteq> 0 then (- 1, c1) else copy_loop (n - k) (drop k f) c1) = (r, c')" by auto
    with less.IH [OF k, of "drop k f" c1] socket.send_rest [OF s] show ?thesis by (auto split: if_splits)
  qed
qed

text \<open>A file that has become shorter: the loop fails, after at most what there is.\<close>

lemma copy_loop_short:
  "copy_loop n f c = (r, c') \<Longrightarrow> length f < n \<Longrightarrow>
   r = - 1 \<and> prefix (outgoing c') (outgoing c @ f) \<and> (link_up (send_script c) \<longrightarrow> link_up (send_script c'))"
proof (induction n arbitrary: f c rule: less_induct)
  case (less n)
  show ?case
  proof (cases "f = []")
    case True
    with less.prems show ?thesis by auto
  next
    case False
    define k where "k = length (take (min n READ_BUFFER_SIZE) f)"
    have k: "n - k < n" "take (min n READ_BUFFER_SIZE) f = take k f" "k \<le> length f" "n \<noteq> 0"
      using False less.prems(2) by (auto simp: k_def READ_BUFFER_SIZE_def min_def)
    obtain r1 c1 where s: "send_all c (take k f) = (r1, c1)" by fastforce
    note S = socket.send_delivers [OF s] socket.send_ready [OF s]
    from copy_loop_step [OF k(4) False, of c r1 c1] s k(2) less.prems
    have step: "(if r1 \<noteq> 0 then (- 1, c1) else copy_loop (n - k) (drop k f) c1) = (r, c')"
      unfolding k(2) using k(3) by (simp add: min_def)
    show ?thesis
    proof (cases "r1 = 0")
      case True
      with step have rest: "copy_loop (n - k) (drop k f) c1 = (r, c')" by simp
      from less.IH [OF k(1) rest] less.prems(2) S True k(3) show ?thesis by (auto simp: delivered_OK)
    next
      case False
      from delivered_prefix [OF delivered_stop [OF S(1) False, of "drop k f"]] step S False
      show ?thesis by (auto simp: delivered_def)
    qed
  qed
qed

section \<open>Ranges against their meaning\<close>

text \<open>
  The first and last byte that a range asks of a file of \<open>n\<close> bytes, in natural numbers: the
  last \<open>k\<close> bytes, or from a position up to the end or up to a given last byte.
\<close>

definition requested_bytes :: "http_request \<Rightarrow> nat \<Rightarrow> (nat \<times> nat) option" where
  "requested_bytes r n =
     (if n = 0 then None
      else if range_is_suffix r then Some (n - unat (range_start r), n - 1)
      else if n \<le> unat (range_start r) then None
      else if \<not> range_end_provided r then Some (unat (range_start r), n - 1)
      else if unat (range_end r) < unat (range_start r) then None
      else Some (unat (range_start r), min (unat (range_end r)) (n - 1)))"

text \<open>A range as one header sets it: never the last zero bytes.\<close>

definition wf_range :: "http_request \<Rightarrow> bool" where
  "wf_range r \<longleftrightarrow> (has_range r \<and> range_is_suffix r \<longrightarrow> range_start r \<noteq> 0)"

lemma unat_pred: "(x :: size_t) \<noteq> 0 \<Longrightarrow> unat (x - 1) = unat x - 1"
  by (simp add: unat_minus_one)

lemma unat_span: "(s :: size_t) \<le> e \<Longrightarrow> unat e < unat (n :: size_t) \<Longrightarrow> unat (e - s + 1) = unat e + 1 - unat s"
proof -
  assume a: "s \<le> e" "unat e < unat n"
  then have d: "unat (e - s) = unat e - unat s" by (simp add: unat_sub)
  with a have "unat (e - s) < unat n" by simp
  from unat_Suc_below [OF this] d a(1) show ?thesis by (simp add: word_le_nat_alt Suc_diff_le)
qed

lemma resolve_range_cases:
  assumes "has_range r" "wf_range r"
  shows "case resolve_range (Some r) n of
      None \<Rightarrow> requested_bytes r (unat n) = None
    | Some rng \<Rightarrow> br_partial rng \<and> requested_bytes r (unat n) = Some (unat (br_start rng), unat (br_end rng)) \<and>
        br_start rng \<le> br_end rng \<and> br_end rng < n \<and>
        unat (br_length rng) = unat (br_end rng) + 1 - unat (br_start rng)"
proof (cases "n = 0")
  case True
  then show ?thesis using assms by (simp add: resolve_range_def requested_bytes_def)
next
  case False
  note last = unat_pred [OF False]
  have pos: "0 < unat n" using False by (simp add: unat_gt_0)
  show ?thesis
  proof (cases "range_is_suffix r")
    case True
    with assms have k: "0 < unat (range_start r)" by (simp add: wf_range_def unat_gt_0)
    show ?thesis
    proof (cases "range_start r \<ge> n")
      case True
      with k assms pos last \<open>range_is_suffix r\<close> False show ?thesis
        using unat_span [of 0 "n - 1" n]
        by (simp add: resolve_range_def requested_bytes_def Let_def word_le_nat_alt word_less_nat_alt)
    next
      case small: False
      then have d: "unat (n - range_start r) = unat n - unat (range_start r)"
        by (simp add: unat_sub)
      with k assms pos last \<open>range_is_suffix r\<close> False small show ?thesis
        using unat_span [of "n - range_start r" "n - 1" n]
        by (simp add: resolve_range_def requested_bytes_def Let_def word_le_nat_alt word_less_nat_alt)
    qed
  next
    case fixed: False
    show ?thesis
      using assms(1) fixed False pos last unat_span [of "range_start r" "n - 1" n]
        unat_span [of "range_start r" "range_end r" n]
      by (auto simp: resolve_range_def requested_bytes_def Let_def word_le_nat_alt word_less_nat_alt min_def)
  qed
qed

text \<open>
  Also for the one other case, a suffix of zero bytes, the words are those numbers; the first
  byte is then the one after the last.
\<close>

lemma resolve_range_requested:
  assumes "has_range r"
  shows "case resolve_range (Some r) n of
      None \<Rightarrow> requested_bytes r (unat n) = None
    | Some rng \<Rightarrow> br_partial rng \<and> requested_bytes r (unat n) = Some (unat (br_start rng), unat (br_end rng)) \<and>
        br_end rng < n \<and> br_start rng \<le> n \<and> unat (br_length rng) = unat (br_end rng) + 1 - unat (br_start rng)"
proof (cases "wf_range r \<or> n = 0")
  case True
  then show ?thesis
  proof
    assume "n = 0"
    with assms show ?thesis by (simp add: resolve_range_def requested_bytes_def)
  next
    assume "wf_range r"
    from resolve_range_cases [OF assms this, of n] show ?thesis
      by (auto split: option.splits)
  qed
next
  case False
  then have "range_is_suffix r" "range_start r = 0" "n \<noteq> 0" by (auto simp: wf_range_def)
  with unat_pred [OF this(3)] assms show ?thesis
    by (simp add: resolve_range_def requested_bytes_def Let_def word_le_nat_alt word_less_nat_alt unat_gt_0)
qed

lemma resolve_range_full:
  "\<not> has_range r \<Longrightarrow> resolve_range (Some r) n =
     Some \<lparr>br_start = 0, br_end = (if n = 0 then 0 else n - 1), br_length = n, br_partial = False\<rparr>"
  by (simp add: resolve_range_def)

section \<open>The reply to a request for a file\<close>

lemma word_of_nat_unat: "of_nat (unat (x :: size_t)) = x"
  by simp

text \<open>Status, header and body of the reply, chosen by what was asked and what is on disk.\<close>

definition file_reply :: "os_view \<Rightarrow> http_request \<Rightarrow> file_info \<Rightarrow> bool \<Rightarrow> int \<times> string \<times> string" where
  "file_reply os request info keep_alive =
     (case os_fopen os (resolved_path info) of
        None \<Rightarrow> (500, simple_headers (Some request) 500 (of_nat (length server_error_body)) False, server_error_body)
      | Some file \<Rightarrow>
          if \<not> has_range request then
            (200, full_headers request info keep_alive, take (unat (info_size info)) file)
          else (case requested_bytes request (unat (info_size info)) of
              None \<Rightarrow> (416, range_error_headers (Some request) (info_size info) keep_alive, range_error_body)
            | Some (a, b) \<Rightarrow>
                if \<not> fseeko_ok os (resolved_path info) (of_nat a) then
                  (500, simple_headers (Some request) 500 (of_nat (length server_error_body)) False, server_error_body)
                else
                  (206, partial_headers request info
                     \<lparr>br_start = of_nat a, br_end = of_nat b, br_length = of_nat (b + 1 - a), br_partial = True\<rparr> keep_alive,
                   take (b + 1 - a) (drop a file))))"

lemma fclose_open_file [simp]: "fclose_file (c\<lparr>open_files := Suc (open_files c)\<rparr>) = c"
  by (simp add: fclose_file_def)

text \<open>The part of \<^verbatim>\<open>send_file_response\<close> after the header is formatted.\<close>

definition transfer ::
  "string \<Rightarrow> bool \<Rightarrow> string \<Rightarrow> size_t \<Rightarrow> int \<Rightarrow> response_result \<Rightarrow> conn \<Rightarrow> int \<times> response_result \<times> conn" where
  "transfer head is_head file len status result c =
     (let (sent, c) = send_all c head in
      if sent \<noteq> 0 then (- 1, result, fclose_file c)
      else if is_head then (0, \<lparr>status_code = status, body_bytes = 0\<rparr>, fclose_file c)
      else
        let (copied, c) = copy_loop (unat len) file c in
        if copied \<noteq> 0 then (- 1, result, fclose_file c)
        else (0, \<lparr>status_code = status, body_bytes = len\<rparr>, fclose_file c))"

lemma delivered_fclose: "delivered outgoing c data r c' \<Longrightarrow>
    delivered outgoing (c\<lparr>open_files := n\<rparr>) data r (fclose_file c')"
  by (simp add: delivered_def fclose_file_def)

lemma transfer_responds:
  assumes "is_head \<or> unat len \<le> length file"
  shows "responds c (head @ (if is_head then [] else take (unat len) file)) status (if is_head then 0 else len) result
    (transfer head is_head file len status result (c\<lparr>open_files := Suc (open_files c)\<rparr>))"
proof -
  define c0 where "c0 = c\<lparr>open_files := Suc (open_files c)\<rparr>"
  obtain r1 c1 where s: "send_all c0 head = (r1, c1)" by fastforce
  note S = socket.send_delivers [OF s] socket.send_rest [OF s] socket.send_ready [OF s]
  have closed_file: "delivered outgoing c0 d r c' \<longleftrightarrow> delivered outgoing c d r (fclose_file c')" for d r c'
    by (simp add: c0_def delivered_def fclose_file_def)
  show ?thesis
  proof (cases "r1 = 0 \<and> \<not> is_head")
    case False
    then show ?thesis
      using s S delivered_stop [OF S(1), of "if is_head then [] else take (unat len) file"]
      unfolding transfer_def c0_def [symmetric] responds_def
      by (auto simp: closed_file [symmetric]) (auto simp: c0_def fclose_file_def delivered_def)
  next
    case True
    obtain r2 c2 where l: "copy_loop (unat len) file c1 = (r2, c2)" by fastforce
    from copy_loop_delivers [OF l] copy_loop_frame [OF l] assms True
    have L: "delivered outgoing c1 (take (unat len) file) r2 c2" "r2 = 0 \<or> r2 = - 1"
      "link_up (send_script c1) \<Longrightarrow> r2 = 0 \<and> link_up (send_script c2)"
      "incoming c2 = incoming c1" "open_files c2 = open_files c1" "closes c2 = closes c1"
      by auto
    from delivered_append [OF _ L(1), of c0 head] S(1) True
    have "delivered outgoing c (head @ take (unat len) file) r2 (fclose_file c2)"
      by (simp add: closed_file)
    with L(2-) S(2,3) s l True show ?thesis
      unfolding transfer_def c0_def [symmetric] responds_def
      by (auto simp: c0_def fclose_file_def)
  qed
qed

lemma send_file_response_transfer:
  assumes "os_fopen os (resolved_path info) = Some file" "resolve_range (Some request) (info_size info) = Some rng"
    "br_partial rng \<longrightarrow> fseeko_ok os (resolved_path info) (br_start rng)" "length (mime_type info) \<le> 7900"
  shows "send_file_response os c request info ka result =
    transfer (if br_partial rng then partial_headers request info rng ka else full_headers request info ka)
      (req_method request = HTTP_METHOD_HEAD) (if br_partial rng then drop (unat (br_start rng)) file else file)
      (br_length rng) (if br_partial rng then 206 else 200) result (c\<lparr>open_files := Suc (open_files c)\<rparr>)"
  using assms full_headers_fit [of info request ka] partial_headers_fit [of info request rng ka]
  by (simp add: send_file_response_def transfer_def Let_def not_le)

lemma sends_body_request [simp]: "sends_body (Some r) \<longleftrightarrow> req_method r \<noteq> HTTP_METHOD_HEAD"
  by (simp add: sends_body_def)

lemma send_file_response_error_responds:
  assumes "send_file_response os c request info ka result =
      send_simple_response c (Some request) 500 server_error_body False result"
    "(status, head, body) =
      (500, simple_headers (Some request) 500 (of_nat (length server_error_body)) False, server_error_body)"
  shows "responds c (head @ (if req_method request = HTTP_METHOD_HEAD then [] else body)) status
    (if req_method request = HTTP_METHOD_HEAD then 0 else of_nat (length body)) result
    (send_file_response os c request info ka result)"
  using assms send_simple_response_responds [of 500 c "Some request" server_error_body False result]
  by (cases "req_method request = HTTP_METHOD_HEAD") simp_all

lemma send_file_response_partial_responds:
  assumes "length (mime_type info) \<le> 7900"
    "os_fopen os (resolved_path info) = Some f" "unat (info_size info) \<le> length f"
    "has_range request" "resolve_range (Some request) (info_size info) = Some rng"
    "file_reply os request info ka = (status, head, body)"
  shows "responds c (head @ (if req_method request = HTTP_METHOD_HEAD then [] else body)) status
    (if req_method request = HTTP_METHOD_HEAD then 0 else of_nat (length body)) result
    (send_file_response os c request info ka result)"
proof -
  from resolve_range_requested [OF assms(4), of "info_size info"] assms(5)
  have R: "br_partial rng"
    "requested_bytes request (unat (info_size info)) = Some (unat (br_start rng), unat (br_end rng))"
    "br_end rng < info_size info"
    "unat (br_length rng) = unat (br_end rng) + 1 - unat (br_start rng)" by auto
  have eq: "\<lparr>br_start = br_start rng, br_end = br_end rng, br_length = br_length rng, br_partial = True\<rparr> = rng"
    using R(1) by simp
  have blen: "of_nat (Suc (unat (br_end rng)) - unat (br_start rng)) = br_length rng"
    using R(4) by (metis Suc_eq_plus1 word_of_nat_unat)
  show ?thesis
  proof (cases "fseeko_ok os (resolved_path info) (br_start rng)")
    case False
    with assms R show ?thesis
      by (intro send_file_response_error_responds) (auto simp: file_reply_def send_file_response_def)
  next
    case seek: True
    from assms R seek eq blen have reply: "status = 206" "head = partial_headers request info rng ka"
      "body = take (unat (br_length rng)) (drop (unat (br_start rng)) f)"
      by (auto simp: file_reply_def)
    have "unat (br_length rng) \<le> length (drop (unat (br_start rng)) f)"
      using R(3,4) assms(3) by (simp add: word_less_nat_alt)
    with send_file_response_transfer [OF assms(2,5) _ assms(1), of c ka result] seek R(1) reply
      transfer_responds [of "req_method request = HTTP_METHOD_HEAD" "br_length rng" "drop (unat (br_start rng)) f" c head status result]
    show ?thesis by (cases "req_method request = HTTP_METHOD_HEAD") simp_all
  qed
qed

lemma send_file_response_responds:
  assumes "length (mime_type info) \<le> 7900"
    "\<And>file. os_fopen os (resolved_path info) = Some file \<Longrightarrow> unat (info_size info) \<le> length file"
    "file_reply os request info ka = (status, head, body)"
  shows "responds c (head @ (if req_method request = HTTP_METHOD_HEAD then [] else body)) status
    (if req_method request = HTTP_METHOD_HEAD then 0 else of_nat (length body)) result
    (send_file_response os c request info ka result)"
proof (cases "os_fopen os (resolved_path info)")
  case None
  with assms(3) show ?thesis
    by (intro send_file_response_error_responds) (auto simp: file_reply_def send_file_response_def)
next
  case (Some f)
  note len = assms(2) [OF Some]
  show ?thesis
  proof (cases "has_range request")
    case False
    with Some assms(3) have reply: "status = 200" "head = full_headers request info ka"
      "body = take (unat (info_size info)) f" by (auto simp: file_reply_def)
    from send_file_response_transfer [OF Some resolve_range_full [OF False] _ assms(1), of c ka result]
      transfer_responds [of "req_method request = HTTP_METHOD_HEAD" "info_size info" f c head status result] len reply
    show ?thesis by (cases "req_method request = HTTP_METHOD_HEAD") simp_all
  next
    case True
    show ?thesis
    proof (cases "resolve_range (Some request) (info_size info)")
      case None
      with Some assms(3) True resolve_range_requested [OF True, of "info_size info"]
        send_range_not_satisfiable_responds [of c "Some request" "info_size info" ka result]
      show ?thesis by (auto simp: file_reply_def send_file_response_def)
    next
      case (Some rng)
      from send_file_response_partial_responds [OF assms(1) \<open>os_fopen os _ = Some f\<close> len True this assms(3)]
      show ?thesis .
    qed
  qed
qed

section \<open>Message framing\<close>

text \<open>
  A header as a client reads it: lines, ended by the first empty line. A message is framed
  when its header is exactly its own lines and one of them announces the length of the body.
  It announces a status when its first line is a status line with that number and its text.
\<close>

definition header_block :: "string list \<Rightarrow> string" where
  "header_block ls = concat (map (\<lambda>l. l @ crlf) ls) @ crlf"

definition framed :: "string \<Rightarrow> string \<Rightarrow> bool" where
  "framed head body \<longleftrightarrow>
     head = header_block (header_lines head) \<and>
     (''Content-Length: '' @ to_dec (length body)) \<in> set (header_lines head)"

definition announces :: "string \<Rightarrow> int \<Rightarrow> bool" where
  "announces head status \<longleftrightarrow>
     (\<exists>version \<in> {''HTTP/1.0'', ''HTTP/1.1''}. \<exists>fields.
        header_lines head = (version @ '' '' @ printf_d status @ '' '' @ http_status_text status) # fields)"

definition framed_reply :: "int \<Rightarrow> string \<Rightarrow> string \<Rightarrow> bool" where
  "framed_reply status head body \<longleftrightarrow> framed head body \<and> announces head status"

lemma framed_replyD: "framed_reply status head body \<Longrightarrow> framed head body" "framed_reply status head body \<Longrightarrow> announces head status"
  by (simp_all add: framed_reply_def)

lemma header_lines_block:
  "list_all (\<lambda>l. l \<noteq> [] \<and> CR \<notin> set l) ls \<Longrightarrow> header_lines (header_block ls) = ls"
proof (induction ls)
  case Nil
  show ?case using header_lines_simps(1) [of "[]"] by (simp add: header_block_def)
next
  case (Cons l ls)
  then have "\<not> has_crlf (l @ [CR])" by (simp add: no_CR_no_crlf_snoc)
  with Cons header_lines_simps(2) [of l "header_block ls"] show ?case by (simp add: header_block_def)
qed

lemma CR_notin_pieces [simp]:
  "CR \<notin> set (to_dec n)" "CR \<notin> set (zu w)" "CR \<notin> set (printf_d i)" "CR \<notin> set (response_version req)"
  "CR \<notin> set (http_status_text status)" "CR \<notin> set (connection_token ka)"
proof -
  show dec: "CR \<notin> set (to_dec n)" for n using to_dec_digits [of n] by (auto simp: list_all_iff)
  then show "CR \<notin> set (zu w)" "CR \<notin> set (printf_d i)" by (auto simp: zu_def printf_d_def)
qed (simp_all add: response_version_def http_status_text_def connection_token_def split: option.split)

lemma response_version_nonempty [simp]: "response_version req \<noteq> []"
  by (simp add: response_version_def split: option.split)

lemma framed_reply_block:
  assumes "head = header_block ((response_version req @ '' '' @ printf_d status @ '' '' @ http_status_text status) # ls)"
    "list_all (\<lambda>l. l \<noteq> [] \<and> CR \<notin> set l) ls" "(''Content-Length: '' @ to_dec (length body)) \<in> set ls"
  shows "framed_reply status head body"
proof -
  have "header_lines head = (response_version req @ '' '' @ printf_d status @ '' '' @ http_status_text status) # ls"
    unfolding assms(1) using assms(2) by (intro header_lines_block) simp
  moreover have "response_version req \<in> {''HTTP/1.0'', ''HTTP/1.1''}"
    by (simp add: response_version_def split: option.split)
  ultimately show ?thesis
    using assms(1,3) by (auto simp: framed_reply_def framed_def announces_def)
qed

lemma status_texts: "printf_d 200 = ''200''" "printf_d 206 = ''206''" "printf_d 416 = ''416''" "http_status_text 200 = ''OK''"
  by code_simp+

lemma zu_of_nat: "n < 2 ^ 64 \<Longrightarrow> zu (of_nat n) = to_dec n"
  by (simp add: zu_def unat_of_nat)

lemma simple_headers_framed:
  assumes "length body < 2 ^ 64"
  shows "framed_reply status (simple_headers request status (of_nat (length body)) ka) body"
proof (rule framed_reply_block)
  show "simple_headers request status (of_nat (length body)) ka =
    header_block [response_version request @ '' '' @ printf_d status @ '' '' @ http_status_text status,
      ''Content-Type: text/plain'', ''Content-Length: '' @ to_dec (length body), ''Connection: '' @ connection_token ka]"
    using zu_of_nat [OF assms] by (simp add: simple_headers_def header_block_def)
qed simp_all

lemma range_error_headers_framed: "framed_reply 416 (range_error_headers request n ka) range_error_body"
proof (rule framed_reply_block)
  show "range_error_headers request n ka =
    header_block [response_version request @ '' '' @ printf_d 416 @ '' '' @ http_status_text 416,
      ''Content-Type: text/plain'', ''Content-Length: '' @ to_dec (length range_error_body),
      ''Content-Range: bytes */'' @ zu n, ''Connection: '' @ connection_token ka]"
    using zu_of_nat [of "length range_error_body"]
    by (simp add: status_texts range_error_headers_def header_block_def range_error_body_def)
qed simp_all

lemma full_headers_framed:
  assumes "CR \<notin> set (mime_type info)" "length body = unat (info_size info)"
  shows "framed_reply 200 (full_headers request info ka) body"
proof (rule framed_reply_block)
  show "full_headers request info ka =
    header_block [response_version (Some request) @ '' '' @ printf_d 200 @ '' '' @ http_status_text 200, ''Content-Type: '' @ mime_type info,
      ''Content-Length: '' @ zu (info_size info), ''Accept-Ranges: bytes'', ''Connection: '' @ connection_token ka]"
    by (simp add: status_texts full_headers_def header_block_def)
qed (use assms in \<open>simp_all add: zu_def\<close>)

lemma partial_headers_framed:
  assumes "CR \<notin> set (mime_type info)" "length body = unat (br_length rng)"
  shows "framed_reply 206 (partial_headers request info rng ka) body"
proof (rule framed_reply_block)
  show "partial_headers request info rng ka =
    header_block [response_version (Some request) @ '' '' @ printf_d 206 @ '' '' @ http_status_text 206, ''Content-Type: '' @ mime_type info,
      ''Content-Length: '' @ zu (br_length rng),
      ''Content-Range: bytes '' @ zu (br_start rng) @ ''-'' @ zu (br_end rng) @ ''/'' @ zu (info_size info),
      ''Accept-Ranges: bytes'', ''Connection: '' @ connection_token ka]"
    by (simp add: status_texts partial_headers_def header_block_def)
qed (use assms in \<open>simp_all add: zu_def\<close>)

lemma directory_headers_framed:
  assumes "length body = unat n"
  shows "framed_reply 200 (directory_headers request n ka) body"
proof (rule framed_reply_block)
  show "directory_headers request n ka =
    header_block [response_version (Some request) @ '' '' @ printf_d 200 @ '' '' @ http_status_text 200, ''Content-Type: text/html'',
      ''Content-Length: '' @ zu n, ''Connection: '' @ connection_token ka]"
    by (simp add: status_texts directory_headers_def header_block_def)
qed (use assms in \<open>simp_all add: zu_def\<close>)

lemma requested_bytes_bounds: "requested_bytes r n = Some (a, b) \<Longrightarrow> a \<le> Suc b \<and> b < n"
  by (auto simp: requested_bytes_def split: if_splits)

lemma file_reply_framed:
  assumes "CR \<notin> set (mime_type info)"
    "\<And>f. os_fopen os (resolved_path info) = Some f \<Longrightarrow> unat (info_size info) \<le> length f"
    "file_reply os request info ka = (status, head, body)"
  shows "framed_reply status head body"
proof -
  have error: "framed_reply 500 (simple_headers (Some request) 500 (of_nat (length server_error_body)) False) server_error_body"
    by (rule simple_headers_framed) (simp add: server_error_body_def)
  show ?thesis
  proof (cases "os_fopen os (resolved_path info)")
    case None
    with assms(3) error show ?thesis by (auto simp: file_reply_def)
  next
    case (Some f)
    note len = assms(2) [OF Some]
    show ?thesis
    proof (cases "has_range request")
      case False
      with assms(3) Some len show ?thesis by (auto simp: file_reply_def intro!: full_headers_framed assms(1))
    next
      case True
      show ?thesis
      proof (cases "requested_bytes request (unat (info_size info))")
        case None
        with assms(3) Some True range_error_headers_framed show ?thesis by (auto simp: file_reply_def)
      next
        case R: (Some ab)
        obtain a b where ab: "ab = (a, b)" by fastforce
        have bounds: "a \<le> Suc b" "b < unat (info_size info)"
          using requested_bytes_bounds [OF R [unfolded ab]] by auto
        then have "unat (of_nat (b + 1 - a) :: size_t) = b + 1 - a"
          using unsigned_less [of "info_size info", where 'a = nat] by (subst unat_of_nat) simp
        with assms(3) Some True R ab bounds len show ?thesis
          by (auto simp: file_reply_def split: if_splits intro!: error partial_headers_framed assms(1))
      qed
    qed
  qed
qed

lemma send_directory_response_responds:
  assumes "file_build_directory_listing os (c_str (path request)) (resolved_path info) = (FILE_RESULT_OK, Some page, len)"
    "unat len = length page"
  shows "responds c (directory_headers request len ka @ (if req_method request \<noteq> HTTP_METHOD_HEAD then page else [])) 200
    (if req_method request \<noteq> HTTP_METHOD_HEAD then len else 0) result (send_directory_response os c request info ka result)"
proof -
  have "\<not> RESPONSE_BUFFER_SIZE \<le> length (directory_headers request len ka)"
    using directory_headers_fit [of request len ka] by simp
  with assms show ?thesis
    by (intro responds_two_parts)
      (auto simp: send_directory_response_def Let_def split: prod.splits if_splits)
qed

section \<open>Properties\<close>

text \<open>\<^verbatim>\<open>send_all\<close> reports success exactly when every byte went out, and in any case only a
  prefix of the data did, in order, once; short writes and interruptions are absorbed, so
  that only an error of the socket makes it fail.\<close>

theorem send_all_delivers:
  assumes "send_all c data = (r, c')"
  shows "(\<exists>n \<le> length data. outgoing c' = outgoing c @ take n data \<and> (r = 0 \<longleftrightarrow> n = length data)) \<and>
    (link_up (send_script c) \<longrightarrow> r = 0)"
  using socket.send_delivers [OF assms] socket.send_ready [OF assms] by (simp add: delivered_def)

theorem send_all_delivers_witness:
  "let c = \<lparr>incoming = [], send_script = [Send_accepts 2, Send_eintr, Send_accepts 1], outgoing = ''x'', open_files = 0, closes = 0\<rparr>
   in fst (send_all c ''hello'') = 0 \<and> outgoing (snd (send_all c ''hello'')) = ''xhello''"
proof -
  define c where "c = \<lparr>incoming = [], send_script = [Send_accepts 2, Send_eintr, Send_accepts 1], outgoing = ''x'',
    open_files = 0, closes = 0\<rparr>"
  have up: "link_up (send_script c)" by (simp add: c_def link_up_def)
  obtain r c' where s: "send_all c ''hello'' = (r, c')" by fastforce
  from send_all_delivers [OF s] up s show ?thesis
    unfolding Let_def c_def [symmetric] by (auto simp: c_def)
qed

text \<open>C10: The range arithmetic is exact: for a range as one header sets it, on a file of any size,
  the words computed are the first and last byte that were asked for, with the length between
  them, and nothing wraps around; there is none exactly when the range cannot be satisfied.\<close>

theorem resolve_range_exact:
  assumes "has_range r" "wf_range r"
  shows "case resolve_range (Some r) n of
      None \<Rightarrow> requested_bytes r (unat n) = None
    | Some rng \<Rightarrow> br_partial rng \<and> requested_bytes r (unat n) = Some (unat (br_start rng), unat (br_end rng)) \<and>
        br_start rng \<le> br_end rng \<and> br_end rng < n \<and>
        unat (br_length rng) = unat (br_end rng) + 1 - unat (br_start rng)"
  by (rule resolve_range_cases [OF assms])

theorem resolve_range_exact_witness:
  "let r = zero_request\<lparr>has_range := True, range_is_suffix := True, range_start := 5\<rparr>
   in \<exists>rng. resolve_range (Some r) 12 = Some rng \<and> unat (br_start rng) = 7 \<and> unat (br_length rng) = 5"
proof -
  define r where "r = zero_request\<lparr>has_range := True, range_is_suffix := True, range_start := 5\<rparr>"
  have r: "has_range r" "wf_range r" by (simp_all add: r_def wf_range_def)
  have "requested_bytes r 12 = Some (7, 11)" by (simp add: r_def requested_bytes_def)
  with resolve_range_exact [OF r, of 12] show ?thesis
    unfolding Let_def r_def [symmetric] by (cases "resolve_range (Some r) 12") auto
qed

text \<open>C35: A request with two Range headers escapes the check of the parser for empty suffixes:
  a suffix range followed by a range that starts at 0 is resolved as the last 0 bytes of the
  file, the length wraps around to 0, and a partial response is announced whose first byte is
  after its last one.\<close>

theorem two_ranges_wrap_around:
  assumes "n \<noteq> 0"
  shows "resolve_range (Some (fold parse_header_line [''Range: bytes=-5'', ''Range: bytes=0-3''] zero_request)) n =
    Some \<lparr>br_start = n, br_end = n - 1, br_length = 0, br_partial = True\<rparr>"
proof -
  define r where "r = fold parse_header_line [''Range: bytes=-5'', ''Range: bytes=0-3''] zero_request"
  have "has_range r \<and> range_is_suffix r \<and> range_start r = 0"
    unfolding r_def by code_simp
  with assms show ?thesis unfolding r_def [symmetric] by (simp add: resolve_range_def Let_def word_le_nat_alt unat_gt_0)
qed

theorem two_ranges_wrap_around_witness:
  "br_length (the (resolve_range (Some (fold parse_header_line [''Range: bytes=-5'', ''Range: bytes=0-3''] zero_request)) 5)) = 0"
  by (subst two_ranges_wrap_around) simp_all

text \<open>C6: The reply to a request for a file is the one its specification gives: 500 when the file
  cannot be opened, 416 with the size for a range outside of it, 206 with exactly the bytes
  asked for, else 200 with the whole file; a HEAD request gets the same header and no body. As
  much of this as the socket takes is sent, the result holds the status and the bytes of the
  body, and the file is closed on every path.\<close>

theorem file_response_refines:
  assumes "length (mime_type info) \<le> 7900"
    "\<And>f. os_fopen os (resolved_path info) = Some f \<Longrightarrow> unat (info_size info) \<le> length f"
    "file_reply os request info keep_alive = (status, head, body)"
    "message = head @ (if req_method request = HTTP_METHOD_HEAD then [] else body)"
    "send_file_response os c request info keep_alive result = (r, result', c')"
  shows "(\<exists>n \<le> length message. outgoing c' = outgoing c @ take n message \<and> (r = 0 \<longleftrightarrow> n = length message)) \<and>
    (link_up (send_script c) \<longrightarrow> r = 0) \<and> open_files c' = open_files c \<and>
    (r = 0 \<longrightarrow> result' = \<lparr>status_code = status,
      body_bytes = (if req_method request = HTTP_METHOD_HEAD then 0 else of_nat (length body))\<rparr>)"
  using send_file_response_responds [OF assms(1-3), of c result] assms(4,5)
  by (simp add: responds_def delivered_def)

text \<open>C29: A file that got shorter after its size was taken is never passed off as complete: the
  response fails, so that the connection is closed before the announced length is reached,
  and what was sent is a prefix of header and file.\<close>

theorem truncated_file_fails:
  assumes "os_fopen os (resolved_path info) = Some f" "length f < unat (info_size info)"
    "\<not> has_range request" "req_method request \<noteq> HTTP_METHOD_HEAD" "length (mime_type info) \<le> 7900"
    "send_file_response os c request info keep_alive result = (r, result', c')"
  shows "r = - 1 \<and> prefix (outgoing c') (outgoing c @ full_headers request info keep_alive @ f) \<and>
    open_files c' = open_files c"
proof -
  define c0 where "c0 = c\<lparr>open_files := Suc (open_files c)\<rparr>"
  note T = send_file_response_transfer [OF assms(1) resolve_range_full [OF assms(3)] _ assms(5), of c keep_alive result,
      folded c0_def]
  obtain r1 c1 where s: "send_all c0 (full_headers request info keep_alive) = (r1, c1)" by fastforce
  obtain r2 c2 where l: "copy_loop (unat (info_size info)) f c1 = (r2, c2)" by fastforce
  note S = socket.send_delivers [OF s] socket.send_rest [OF s]
  note L = copy_loop_short [OF l assms(2)] copy_loop_frame [OF l]
  show ?thesis
  proof (cases "r1 = 0")
    case True
    with S(1) have "outgoing c1 = outgoing c @ full_headers request info keep_alive"
      by (simp add: delivered_OK c0_def)
    with T S(2) L s l True assms(4,6) show ?thesis by (auto simp: transfer_def c0_def fclose_file_def)
  next
    case False
    with T S(2) s assms(6) delivered_prefix [OF delivered_stop [OF S(1) False, of f]] show ?thesis
      by (auto simp: transfer_def c0_def fclose_file_def)
  qed
qed


text \<open>C30: The response for a directory is a framed 200 with the listing page of the request path:
  one link for each visible name, in the order of their bytes; the header alone for HEAD.\<close>

theorem directory_response_page:
  assumes "os_readdir os (resolved_path info) = Some names"
    "fst (file_build_directory_listing os (c_str (path request)) (resolved_path info)) = FILE_RESULT_OK"
    "send_directory_response os c request info keep_alive result = (r, result', c')" "link_up (send_script c)"
  shows "\<exists>head page entries. page = listing_html (c_str (path request)) entries \<and>
    mset entries = mset (listed os (resolved_path info) names) \<and>
    sorted_wrt (\<lambda>e f. lexordp_eq (map byte (entry_name e)) (map byte (entry_name f))) entries \<and>
    framed head page \<and> announces head 200 \<and> r = 0 \<and> status_code result' = 200 \<and>
    outgoing c' = outgoing c @ head @ (if req_method request = HTTP_METHOD_HEAD then [] else page)"
proof -
  obtain body len where b: "file_build_directory_listing os (c_str (path request)) (resolved_path info) = (FILE_RESULT_OK, body, len)"
    using assms(2) by (metis prod.collapse)
  from file_build_directory_listing_result [OF assms(1) b] obtain page where page: "body = Some page" "unat len = length page"
    "page = listing_html (c_str (path request)) (sort_entries (listed os (resolved_path info) names))" by blast
  from send_directory_response_responds [OF b [unfolded page(1)] page(2), of c keep_alive result] assms(3,4)
    directory_headers_framed [OF page(2) [symmetric], of request keep_alive] page(3) sort_entries_byte_order
  show ?thesis
    by (intro exI [of _ "directory_headers request len keep_alive"] exI [of _ page]
        exI [of _ "sort_entries (listed os (resolved_path info) names)"])
      (auto simp: responds_def delivered_def framed_reply_def split: if_splits)
qed

text \<open>The example file for the witnesses.\<close>

definition example_info :: file_info where
  "example_info = \<lparr>resolved_path = ''/srv/www/a.txt'', info_kind = FILE_KIND_REGULAR, info_size = 5, mime_type = ''text/plain''\<rparr>"

definition example_range :: http_request where
  "example_range = zero_request\<lparr>has_range := True, range_start := 1, range_end_provided := True, range_end := 3\<rparr>"

definition example_conn :: conn where
  "example_conn = \<lparr>incoming = [], send_script = [Send_accepts 3, Send_eintr], outgoing = [], open_files = 0, closes = 0\<rparr>"

definition example_result :: response_result where
  "example_result = \<lparr>status_code = 0, body_bytes = 0\<rparr>"

lemma example_file:
  "os_fopen sample_os (resolved_path example_info) = Some f \<longleftrightarrow> f = ''hello''"
  "wf_range example_range" "length (mime_type example_info) \<le> 7900" "CR \<notin> set (mime_type example_info)"
  "unat (info_size example_info) = 5" "link_up (send_script example_conn)" "req_method example_range \<noteq> HTTP_METHOD_HEAD"
  "file_reply sample_os example_range example_info True =
    (206, partial_headers example_range example_info
       \<lparr>br_start = 1, br_end = 3, br_length = 3, br_partial = True\<rparr> True, ''ell'')"
  by (auto simp: sample_os_def example_info_def example_range_def wf_range_def zero_request_def example_conn_def
      link_up_def file_reply_def requested_bytes_def fseeko_ok_def)

theorem file_response_refines_witness:
  "\<exists>result' c'. send_file_response sample_os example_conn example_range example_info True example_result = (0, result', c') \<and>
    result' = \<lparr>status_code = 206, body_bytes = 3\<rparr> \<and> open_files c' = 0"
proof -
  obtain r result' c' where s: "send_file_response sample_os example_conn example_range example_info True example_result =
      (r, result', c')"
    by (metis prod_cases3)
  have len: "unat (info_size example_info) \<le> length f" if "os_fopen sample_os (resolved_path example_info) = Some f" for f
    using that by (simp add: example_file)
  from file_response_refines [OF example_file(3) len example_file(8) refl s] s example_file(6,7)
  show ?thesis by (simp add: example_conn_def)
qed

theorem truncated_file_fails_witness:
  "fst (send_file_response sample_os example_conn zero_request (example_info\<lparr>info_size := 9\<rparr>) True example_result) = - 1"
proof -
  obtain r result' c' where s: "send_file_response sample_os example_conn zero_request (example_info\<lparr>info_size := 9\<rparr>) True
      example_result = (r, result', c')"
    by (metis prod_cases3)
  have f: "os_fopen sample_os (resolved_path (example_info\<lparr>info_size := 9\<rparr>)) = Some ''hello''"
    using example_file(1) by simp
  from truncated_file_fails [OF f _ _ _ _ s] s example_file(3) show ?thesis by (simp add: zero_request_def)
qed


theorem directory_response_page_witness:
  "let info = \<lparr>resolved_path = ''/srv/www/d'', info_kind = FILE_KIND_DIRECTORY, info_size = 0, mime_type = ''text/html''\<rparr>;
       request = zero_request\<lparr>path := ''/d/'' @ zeroed 1021\<rparr>
   in fst (send_directory_response sample_os example_conn request info True example_result) = 0"
proof -
  define info where "info = \<lparr>resolved_path = ''/srv/www/d'', info_kind = FILE_KIND_DIRECTORY, info_size = 0, mime_type = ''text/html''\<rparr>"
  define request where "request = zero_request\<lparr>path := ''/d/'' @ zeroed 1021\<rparr>"
  have p: "c_str (path request) = ''/d/''" by (simp add: request_def)
  obtain r result' c' where s: "send_directory_response sample_os example_conn request info True example_result = (r, result', c')"
    by (metis prod_cases3)
  have n: "os_readdir sample_os (resolved_path info) = Some [''.'', ''b'', ''..'', ''a'']"
    using sample_directory(1) by (simp add: info_def)
  have "fst (file_build_directory_listing sample_os (c_str (path request)) (resolved_path info)) = FILE_RESULT_OK"
    unfolding p using file_build_directory_listing_total [OF sample_directory(1,2)]
    by (simp add: info_def sample_directory(3))
  from directory_response_page [OF n this s example_file(6)] s show ?thesis
    unfolding info_def [symmetric] request_def [symmetric] Let_def by auto
qed

end
