(* ===== verification/Connection.thy ===== *)
theory Connection
  imports Response AccessLog
begin

text \<open>
  One connection, from the first byte to \<^verbatim>\<open>close\<close>: \<^verbatim>\<open>read_next_request\<close> and \<^verbatim>\<open>handle_client\<close> of
  \<^verbatim>\<open>src/server.c\<close>, with their helpers.

  The buffer of 8192 bytes with its count is the list of the bytes buffered. A \<^verbatim>\<open>recv\<close> takes
  what is there, up to the room left in the buffer; the rest of a chunk stays for the next
  call. The end of the incoming list is the end of the stream. The environment of a
  connection is what the server can ask the system: the file system at each request, the
  local time at each log entry, and the peer's address. The log is shared between threads, so
  the calls of \<^verbatim>\<open>access_log_write\<close> are recorded in their order, as entries to be written.
\<close>

section \<open>Reading a request\<close>

fun find_header_end :: "string \<Rightarrow> nat option" where
  "find_header_end (a # b # c # d # rest) =
     (if a = CR \<and> b = LF \<and> c = CR \<and> d = LF then Some 4
      else map_option Suc (find_header_end (b # c # d # rest)))"
| "find_header_end _ = None"

definition extract_request_line :: "string \<Rightarrow> string \<Rightarrow> string" where
  "extract_request_line buffer request_line =
     (let line_len = (case find_crlf buffer of None \<Rightarrow> length buffer | Some n \<Rightarrow> n);
          line_len = (if line_len \<ge> length request_line then length request_line - 1 else line_len)
      in memcpy_at (memcpy_at request_line 0 (take line_len buffer)) line_len [NUL])"

text \<open>What is still to come: the bytes, and a bound on the calls of \<^verbatim>\<open>recv\<close> that deliver them.\<close>

fun recv_work :: "recv_event list \<Rightarrow> nat" where
  "recv_work [] = 0"
| "recv_work (Recv_bytes s # es) = 1 + length s + recv_work es"
| "recv_work (_ # es) = 1 + recv_work es"

text \<open>
  The loop of \<^verbatim>\<open>read_next_request\<close>. The code tests whether the buffer is exactly full; it is
  never more than full (lemma \<open>read_loop_bounded\<close>).
\<close>

function read_loop ::
  "recv_event list \<Rightarrow> string \<Rightarrow> http_request \<Rightarrow> string \<Rightarrow> int \<times> recv_event list \<times> string \<times> http_request \<times> string" where
  "read_loop events buffer request request_line =
     (case find_header_end buffer of
        Some header_length \<Rightarrow>
          let request_line = extract_request_line (take header_length buffer) request_line;
              (parsed, request) = http_parse_request (take header_length buffer) request
          in if parsed \<noteq> HTTP_PARSE_OK then (- 1, events, buffer, request, request_line)
             else (1, events, drop header_length buffer, request, request_line)
      | None \<Rightarrow>
          if length buffer \<ge> READ_BUFFER_SIZE then (- 1, events, buffer, request, request_line)
          else
            (case events of
               [] \<Rightarrow> ((if buffer = [] then 0 else - 1), [], buffer, request, request_line)
             | Recv_eintr # events \<Rightarrow> read_loop events buffer request request_line
             | Recv_fails # events \<Rightarrow> (- 1, events, buffer, request, request_line)
             | Recv_bytes chunk # events \<Rightarrow>
                 if chunk = [] then ((if buffer = [] then 0 else - 1), events, buffer, request, request_line)
                 else
                   let room = READ_BUFFER_SIZE - length buffer;
                       later = (if drop room chunk = [] then events else Recv_bytes (drop room chunk) # events)
                   in read_loop later (buffer @ take room chunk) request request_line))"
  by pat_completeness auto

termination
  by (relation "measure (\<lambda>(events, _, _, _). recv_work events)") auto

definition read_next_request ::
  "conn \<Rightarrow> string \<Rightarrow> http_request \<Rightarrow> string \<Rightarrow> int \<times> conn \<times> string \<times> http_request \<times> string" where
  "read_next_request c buffer request request_line =
     (let (r, events, buffer, request, request_line) = read_loop (incoming c) buffer request request_line
      in (r, c\<lparr>incoming := events\<rparr>, buffer, request, request_line))"

definition get_client_ip :: "string option \<Rightarrow> string" where
  "get_client_ip peer =
     (case peer of Some name \<Rightarrow> if length name < 128 then name else ''-'' | None \<Rightarrow> ''-'')"

section \<open>Serving a connection\<close>

record conn_env =
  env_doc_root :: string
  env_os :: "nat \<Rightarrow> os_view"
  env_clock :: "nat \<Rightarrow> tm"
  env_peer :: "string option"

definition no_result :: response_result where
  "no_result = \<lparr>status_code = 0, body_bytes = 0\<rparr>"

text \<open>One request that was read: the branches of the loop body up to the log entry.\<close>

definition error_body :: "int \<Rightarrow> string" where
  "error_body status = printf_d status @ '' '' @ http_status_text status @ [LF]"

definition answer_request ::
  "os_view \<Rightarrow> string \<Rightarrow> conn \<Rightarrow> http_request \<Rightarrow> bool \<Rightarrow> int \<times> response_result \<times> conn" where
  "answer_request os doc_root c request keep_going =
     (if req_method request = HTTP_METHOD_UNSUPPORTED then
        send_simple_response c (Some request) 501 (''Not Implemented'' @ [LF]) keep_going no_result
      else
        let (result, info) = file_stat_path os doc_root (c_str (path request)) in
        if result \<noteq> FILE_RESULT_OK then
          let status = status_from_file_result result
          in send_simple_response c (Some request) status (error_body status) keep_going no_result
        else if info_kind info = FILE_KIND_DIRECTORY then
          send_directory_response os c request info keep_going no_result
        else send_file_response os c request info keep_going no_result)"

definition invalid_line :: string where
  "invalid_line = ''<invalid request>''"

definition snprintf_to :: "string \<Rightarrow> string \<Rightarrow> string" where
  "snprintf_to dest text = memcpy_at dest 0 (take (length dest - 1) text @ [NUL])"

lemma find_header_end_bounds: "find_header_end s = Some n \<Longrightarrow> 4 \<le> n \<and> n \<le> length s"
  by (induction s arbitrary: n rule: find_header_end.induct) (fastforce split: if_splits)+

declare read_loop.simps [simp del]

text \<open>The branches of one pass.\<close>

lemma read_loop_found:
  "find_header_end buffer = Some n \<Longrightarrow> read_loop events buffer request line =
     (if fst (http_parse_request (take n buffer) request) \<noteq> HTTP_PARSE_OK
      then (- 1, events, buffer, snd (http_parse_request (take n buffer) request), extract_request_line (take n buffer) line)
      else (1, events, drop n buffer, snd (http_parse_request (take n buffer) request), extract_request_line (take n buffer) line))"
  by (subst read_loop.simps) (simp add: Let_def case_prod_beta)

lemma read_loop_full:
  "find_header_end buffer = None \<Longrightarrow> READ_BUFFER_SIZE \<le> length buffer \<Longrightarrow>
     read_loop events buffer request line = (- 1, events, buffer, request, line)"
  by (subst read_loop.simps) simp

lemma read_loop_waiting:
  assumes "find_header_end buffer = None" "length buffer < READ_BUFFER_SIZE"
  shows "read_loop [] buffer request line = ((if buffer = [] then 0 else - 1), [], buffer, request, line)"
    "read_loop (Recv_eintr # es) buffer request line = read_loop es buffer request line"
    "read_loop (Recv_fails # es) buffer request line = (- 1, es, buffer, request, line)"
    "read_loop (Recv_bytes [] # es) buffer request line = ((if buffer = [] then 0 else - 1), es, buffer, request, line)"
    "chunk \<noteq> [] \<Longrightarrow> length buffer + length chunk \<le> READ_BUFFER_SIZE \<Longrightarrow>
      read_loop (Recv_bytes chunk # es) buffer request line = read_loop es (buffer @ chunk) request line"
    "READ_BUFFER_SIZE < length buffer + length chunk \<Longrightarrow>
      read_loop (Recv_bytes chunk # es) buffer request line =
        read_loop (Recv_bytes (drop (READ_BUFFER_SIZE - length buffer) chunk) # es)
          (buffer @ take (READ_BUFFER_SIZE - length buffer) chunk) request line"
  using assms by (subst read_loop.simps; auto simp: Let_def)+

lemma read_loop_cases [case_names found full waiting]:
  assumes "\<And>n. find_header_end buffer = Some n \<Longrightarrow> P"
    "find_header_end buffer = None \<Longrightarrow> READ_BUFFER_SIZE \<le> length buffer \<Longrightarrow> P"
    "find_header_end buffer = None \<Longrightarrow> length buffer < READ_BUFFER_SIZE \<Longrightarrow> P"
  shows P
  using assms by (cases "find_header_end buffer") (auto simp: not_less [symmetric])

text \<open>What the next call of \<^verbatim>\<open>recv\<close> does to a buffer with room.\<close>

lemma recv_cases [consumes 1, case_names closed eintr fails eof fits cut]:
  assumes "length b < READ_BUFFER_SIZE"
  obtains "es = []"
    | es' where "es = Recv_eintr # es'"
    | es' where "es = Recv_fails # es'"
    | es' where "es = Recv_bytes [] # es'"
    | chunk es' where "es = Recv_bytes chunk # es'" "chunk \<noteq> []" "length b + length chunk \<le> READ_BUFFER_SIZE"
    | room chunk es' where "es = Recv_bytes chunk # es'" "room = READ_BUFFER_SIZE - length b"
        "0 < room" "room < length chunk"
proof (cases es)
  case (Cons e es')
  then show thesis
  proof (cases e)
    case (Recv_bytes chunk)
    with Cons assms that(4) [of es'] that(5) [of chunk es'] that(6) [of chunk es' "READ_BUFFER_SIZE - length b"]
    show thesis by fastforce
  qed (use Cons that in blast)+
qed (rule that)

text \<open>
  An induction that follows the calls of \<^verbatim>\<open>recv\<close>: a chunk that fits is appended, one that does
  not is cut, which happens at most once before the buffer is full.
\<close>

lemma read_loop_induct [case_names found full closed eintr fails eof fits cut]:
  assumes "\<And>es b n. find_header_end b = Some n \<Longrightarrow> P es b (read_loop es b r l)"
    "\<And>es b. find_header_end b = None \<Longrightarrow> READ_BUFFER_SIZE \<le> length b \<Longrightarrow> P es b (- 1, es, b, r, l)"
    "\<And>b. find_header_end b = None \<Longrightarrow> length b < READ_BUFFER_SIZE \<Longrightarrow>
       P [] b ((if b = [] then 0 else - 1), [], b, r, l)"
    "\<And>es b. find_header_end b = None \<Longrightarrow> length b < READ_BUFFER_SIZE \<Longrightarrow>
       P es b (read_loop es b r l) \<Longrightarrow> P (Recv_eintr # es) b (read_loop es b r l)"
    "\<And>es b. find_header_end b = None \<Longrightarrow> length b < READ_BUFFER_SIZE \<Longrightarrow> P (Recv_fails # es) b (- 1, es, b, r, l)"
    "\<And>es b. find_header_end b = None \<Longrightarrow> length b < READ_BUFFER_SIZE \<Longrightarrow>
       P (Recv_bytes [] # es) b ((if b = [] then 0 else - 1), es, b, r, l)"
    "\<And>es b chunk. find_header_end b = None \<Longrightarrow> length b < READ_BUFFER_SIZE \<Longrightarrow> chunk \<noteq> [] \<Longrightarrow>
       length b + length chunk \<le> READ_BUFFER_SIZE \<Longrightarrow> P es (b @ chunk) (read_loop es (b @ chunk) r l) \<Longrightarrow>
       P (Recv_bytes chunk # es) b (read_loop es (b @ chunk) r l)"
    "\<And>es b chunk room. find_header_end b = None \<Longrightarrow> room = READ_BUFFER_SIZE - length b \<Longrightarrow>
       0 < room \<Longrightarrow> room < length chunk \<Longrightarrow>
       P (Recv_bytes (drop room chunk) # es) (b @ take room chunk)
         (read_loop (Recv_bytes (drop room chunk) # es) (b @ take room chunk) r l) \<Longrightarrow>
       P (Recv_bytes chunk # es) b (read_loop (Recv_bytes (drop room chunk) # es) (b @ take room chunk) r l)"
  shows "P es b (read_loop es b r l)"
proof (induction "recv_work es" arbitrary: es b rule: less_induct)
  case less
  show ?case
  proof (cases b rule: read_loop_cases)
    case (found n)
    then show ?thesis by (rule assms(1))
  next
    case full
    then show ?thesis using assms(2) by (simp add: read_loop_full)
  next
    case waiting
    note step = read_loop_waiting [OF waiting]
    from waiting(2) show ?thesis
    proof (cases rule: recv_cases [of b es])
      case closed
      with assms(3) [OF waiting] step(1) show ?thesis by simp
    next
      case (eintr es')
      with assms(4) [OF waiting less.hyps] step(2) show ?thesis by simp
    next
      case (fails es')
      with assms(5) [OF waiting] step(3) show ?thesis by simp
    next
      case (eof es')
      with assms(6) [OF waiting] step(4) show ?thesis by simp
    next
      case (fits chunk es')
      with assms(7) [OF waiting fits(2,3) less.hyps] step(5) [OF fits(2,3)] show ?thesis by simp
    next
      case (cut room chunk es')
      with assms(8) [OF waiting(1) cut(2-4) less.hyps] step(6) [of chunk, folded cut(2)] show ?thesis by simp
    qed
  qed
qed

text \<open>A request that is read uses up bytes, which bounds the requests of a connection.\<close>

lemma read_loop_progress:
  "case read_loop events buffer request line of (r, events', buffer', _) \<Rightarrow>
     (r = 0 \<or> r = 1 \<or> r = - 1) \<and>
     (r = 1 \<longrightarrow> length buffer' + recv_work events' < length buffer + recv_work events)"
proof (induction events buffer request line rule: read_loop_induct)
  case (found es b n)
  then show ?case using find_header_end_bounds [OF found] by (auto simp: read_loop_found)
qed (auto split: prod.splits)

lemma read_loop_bounded:
  "length b \<le> READ_BUFFER_SIZE \<Longrightarrow> length (fst (snd (snd (read_loop es b r l)))) \<le> READ_BUFFER_SIZE"
proof (induction es b r l rule: read_loop_induct)
  case (found es b n)
  then show ?case by (auto simp: read_loop_found)
qed simp_all

section \<open>Frames\<close>

text \<open>No response function reads the socket, closes it, or leaves a file open.\<close>

definition same_io :: "conn \<Rightarrow> conn \<Rightarrow> bool" where
  "same_io c c' \<longleftrightarrow> incoming c' = incoming c \<and> open_files c' = open_files c \<and> closes c' = closes c"

lemma same_io_refl [simp, intro]: "same_io c c"
  by (simp add: same_io_def)

lemma same_io_trans: "same_io c d \<Longrightarrow> same_io d e \<Longrightarrow> same_io c e"
  by (simp add: same_io_def)

lemma same_io_fclose: "same_io (c\<lparr>open_files := Suc (open_files c)\<rparr>) c' \<Longrightarrow> same_io c (fclose_file c')"
  by (simp add: same_io_def fclose_file_def)

lemma same_io_incoming: "same_io c c' \<Longrightarrow> incoming c' = incoming c"
  by (simp add: same_io_def)

lemma send_all_same_io [frame]: "send_all c data = (r, c') \<Longrightarrow> same_io c c'"
  using socket.send_rest [of c data] by (simp add: same_io_def)

lemma copy_loop_same_io [frame]: "copy_loop n f c = (r, c') \<Longrightarrow> same_io c c'"
  using copy_loop_frame [of n f c] by (simp add: same_io_def)

lemma responds_same_io: "responds c m st b res (r, res', c') \<Longrightarrow> same_io c c'"
  by (simp add: responds_def same_io_def)

lemma send_simple_response_same_io [frame]:
  "send_simple_response c request status body ka result = (r, result', c') \<Longrightarrow> same_io c c'"
  by (auto simp: send_simple_response_def Let_def split: if_splits prod.splits
      intro: same_io_trans dest!: send_all_same_io)

lemma transfer_same_io [frame]:
  "transfer head is_head f len status result (c\<lparr>open_files := Suc (open_files c)\<rparr>) = (r, result', c') \<Longrightarrow> same_io c c'"
  by (auto simp: transfer_def Let_def split: if_splits prod.splits
      intro!: same_io_fclose intro: same_io_trans dest!: send_all_same_io copy_loop_same_io)

lemma send_file_response_alternatives:
  "send_file_response os c request info ka result =
     (case os_fopen os (resolved_path info) of
        None \<Rightarrow> send_simple_response c (Some request) 500 server_error_body False result
      | Some f \<Rightarrow>
          (case resolve_range (Some request) (info_size info) of
             None \<Rightarrow> send_range_not_satisfiable c (Some request) (info_size info) ka result
           | Some rng \<Rightarrow>
               if br_partial rng \<and> \<not> fseeko_ok os (resolved_path info) (br_start rng) then
                 send_simple_response c (Some request) 500 server_error_body False result
               else
                 let head = (if br_partial rng then partial_headers request info rng ka else full_headers request info ka)
                 in if length head \<ge> RESPONSE_BUFFER_SIZE then (- 1, result, c)
                    else transfer head (req_method request = HTTP_METHOD_HEAD)
                      (if br_partial rng then drop (unat (br_start rng)) f else f) (br_length rng)
                      (if br_partial rng then 206 else 200) result (c\<lparr>open_files := Suc (open_files c)\<rparr>)))"
  by (simp add: send_file_response_def transfer_def Let_def split: option.split)

lemma send_file_response_same_io [frame]:
  "send_file_response os c request info ka result = (r, result', c') \<Longrightarrow> same_io c c'"
  using send_range_not_satisfiable_responds [of c "Some request" "info_size info" ka result]
  unfolding send_file_response_alternatives
  by (auto simp: Let_def split: option.splits if_splits dest: responds_same_io send_simple_response_same_io transfer_same_io)

lemma send_directory_response_same_io [frame]:
  "send_directory_response os c request info ka result = (r, result', c') \<Longrightarrow> same_io c c'"
  by (auto simp: send_directory_response_def Let_def
      split: if_splits prod.splits file_result.splits option.splits intro: same_io_trans
      dest!: send_all_same_io dest: send_simple_response_same_io)

lemma answer_request_same_io [frame]:
  "answer_request os doc_root c request keep_going = (r, result, c') \<Longrightarrow> same_io c c'"
  by (auto simp: answer_request_def Let_def split: if_splits prod.splits
      dest: send_simple_response_same_io send_file_response_same_io send_directory_response_same_io)

section \<open>The loop of a connection\<close>

definition log_call :: "conn_env \<Rightarrow> nat \<Rightarrow> string \<Rightarrow> response_result \<Rightarrow> log_entry" where
  "log_call env k request_line response =
     Entry (get_client_ip (env_peer env)) (c_str request_line) (status_code response) (body_bytes response) (env_clock env k)"

definition bad_request_body :: string where
  "bad_request_body = ''Bad Request'' @ [LF]"

function handle_loop ::
  "conn_env \<Rightarrow> nat \<Rightarrow> conn \<Rightarrow> string \<Rightarrow> http_request \<Rightarrow> string \<Rightarrow> log_entry list \<times> conn" where
  "handle_loop env k c buffer request request_line =
     (let (read_result, c, buffer, request, request_line) = read_next_request c buffer request request_line in
      if read_result = 0 then ([], c)
      else if read_result < 0 then
        let request_line = (if buffer \<noteq> [] then extract_request_line buffer request_line
                            else snprintf_to request_line invalid_line);
            (_, response, c) = send_simple_response c None 400 bad_request_body False no_result
        in ([log_call env k request_line response], c)
      else
        let keep_going = http_should_keep_alive (Some request);
            (sent, response, c) = answer_request (env_os env k) (env_doc_root env) c request keep_going
        in if sent \<noteq> 0 then ([], c)
           else
             let entry = log_call env k request_line response in
             if \<not> keep_going then ([entry], c)
             else
               let (entries, c) = handle_loop env (Suc k) c buffer request request_line
               in (entry # entries, c))"
  by pat_completeness auto

termination
proof (relation "measure (\<lambda>(env, k, c, buffer, request, line). length buffer + recv_work (incoming c))", goal_cases)
  case 1
  show ?case by simp
next
  case (2 env k c buffer request line x rr y c1 ya buffer1 yb request1 line1 kg xb sent yc response c2)
  then obtain es where l: "read_loop (incoming c) buffer request line = (rr, es, buffer1, request1, line1)"
    and c1: "c1 = c\<lparr>incoming := es\<rparr>"
    by (auto simp: read_next_request_def split: prod.splits)
  from read_loop_progress [where events = "incoming c" and buffer = buffer and request = request and line = line] l 2 have
    "length buffer1 + recv_work es < length buffer + recv_work (incoming c)" by auto
  moreover from 2 have "answer_request (env_os env k) (env_doc_root env) c1 request1 kg = (sent, response, c2)" by simp
  from same_io_incoming [OF answer_request_same_io [OF this]] have "incoming c2 = es" by (simp add: c1)
  ultimately show ?case by simp
qed

text \<open>\<^verbatim>\<open>handle_client\<close>, from uninitialised \<^verbatim>\<open>request\<close> and \<^verbatim>\<open>request_line\<close> of any contents.\<close>

definition handle_client :: "conn_env \<Rightarrow> http_request \<Rightarrow> string \<Rightarrow> conn \<Rightarrow> log_entry list \<times> conn" where
  "handle_client env request request_line c =
     (let (entries, c) = handle_loop env 0 c [] request request_line
      in (entries, c\<lparr>closes := Suc (closes c)\<rparr>))"

declare handle_loop.simps [simp del]

section \<open>Reading, on the byte stream\<close>

text \<open>
  The bytes a peer sends, whatever the cuts into chunks and the interruptions. In a steady
  list of events \<^verbatim>\<open>recv\<close> never fails and the stream ends only at the end of the list.
\<close>

fun stream_of :: "recv_event list \<Rightarrow> string" where
  "stream_of [] = []"
| "stream_of (Recv_bytes s # es) = s @ stream_of es"
| "stream_of (_ # es) = stream_of es"

definition steady :: "recv_event list \<Rightarrow> bool" where
  "steady es \<longleftrightarrow> list_all (\<lambda>e. e \<noteq> Recv_fails \<and> e \<noteq> Recv_bytes []) es"

lemma steady_simps [simp]:
  "steady []" "steady (e # es) \<longleftrightarrow> e \<noteq> Recv_fails \<and> e \<noteq> Recv_bytes [] \<and> steady es"
  by (simp_all add: steady_def)

lemma find_header_end_append: "find_header_end a = Some n \<Longrightarrow> find_header_end (a @ b) = Some n"
  by (induction a arbitrary: n rule: find_header_end.induct) (auto split: if_splits)

lemma find_header_end_short: "length s < 4 \<Longrightarrow> find_header_end s = None"
  using find_header_end_bounds [of s] by (cases "find_header_end s") fastforce+

lemma find_header_end_take: "find_header_end s = Some n \<Longrightarrow> n \<le> k \<Longrightarrow> find_header_end (take k s) = Some n"
proof (induction s arbitrary: n k rule: find_header_end.induct)
  case (1 a b c d rest)
  have k: "4 \<le> k" using find_header_end_bounds [OF 1(2)] 1(3) by simp
  then obtain j where j: "k = Suc (Suc (Suc (Suc j)))" by (metis add_2_eq_Suc' le_Suc_ex numeral_2_eq_2 numeral_Bit0 add_Suc)
  show ?case
  proof (cases "a = CR \<and> b = LF \<and> c = CR \<and> d = LF")
    case True
    with 1(2) show ?thesis by (simp add: j)
  next
    case False
    with 1(2) obtain m where m: "find_header_end (b # c # d # rest) = Some m" "n = Suc m" by auto
    with 1(1) [OF False m(1), of "Suc (Suc (Suc j))"] 1(3) False show ?thesis by (auto simp: j)
  qed
qed auto

lemma find_header_end_crlf: "find_header_end s = Some n \<Longrightarrow> \<exists>m. find_crlf s = Some m \<and> m + 4 \<le> n"
  by (induction s arbitrary: n rule: find_header_end.induct) (fastforce split: if_splits)+

lemma find_crlf_append_Some: "find_crlf s = Some n \<Longrightarrow> find_crlf (s @ t) = Some n"
  by (induction s arbitrary: n rule: find_crlf.induct) (auto split: if_splits)

text \<open>The request line as it is logged: cut at the first line end, at 255 bytes, and at a NUL.\<close>

definition request_line_text :: "string \<Rightarrow> string" where
  "request_line_text buffer =
     c_str (take 255 (case find_crlf buffer of None \<Rightarrow> buffer | Some n \<Rightarrow> take n buffer))"

lemma c_str_memcpy_line:
  assumes "length dest = 256" "length src \<le> 255"
  shows "c_str (memcpy_at (memcpy_at dest 0 src) (length src) [NUL]) = c_str src"
    "length (memcpy_at (memcpy_at dest 0 src) (length src) [NUL]) = 256"
  using assms by (simp_all add: memcpy_at_def)

lemma extract_request_line_text:
  assumes "length line = 256"
  shows "c_str (extract_request_line buffer line) = request_line_text buffer"
    "length (extract_request_line buffer line) = 256"
proof -
  define body where "body = (case find_crlf buffer of None \<Rightarrow> buffer | Some n \<Rightarrow> take n buffer)"
  define len where "len = (case find_crlf buffer of None \<Rightarrow> length buffer | Some n \<Rightarrow> n)"
  have len: "take len buffer = body" "length body = len"
    using find_crlf_SomeD(2) [of buffer] by (auto simp: body_def len_def split: option.splits)
  define n where "n = (if len \<ge> 256 then 255 else len)"
  have n: "take n buffer = take 255 body" "length (take n buffer) = n"
    using len by (auto simp: n_def)
  have E: "extract_request_line buffer line = memcpy_at (memcpy_at line 0 (take n buffer)) (length (take n buffer)) [NUL]"
    unfolding n(2) using assms by (simp add: extract_request_line_def Let_def n_def len_def)
  have "length (take n buffer) \<le> 255" by (simp add: n(1))
  note c = c_str_memcpy_line [OF assms this]
  show "c_str (extract_request_line buffer line) = request_line_text buffer"
    unfolding E c(1) by (simp add: n(1) request_line_text_def body_def)
  show "length (extract_request_line buffer line) = 256"
    unfolding E by (rule c(2))
qed

lemma request_line_text_append:
  assumes "find_header_end s = Some n"
  shows "request_line_text (s @ t) = request_line_text (take n s)"
proof -
  obtain m where m: "find_crlf (take n s) = Some m" "m + 4 \<le> n"
    using find_header_end_crlf [OF find_header_end_take [OF assms order.refl]] by auto
  with find_crlf_append_Some [OF m(1), of "drop n s @ t"] find_header_end_bounds [OF assms]
  show ?thesis by (simp add: request_line_text_def min_def flip: append_assoc)
qed

lemma http_parse_request_any: "raw \<noteq> [] \<Longrightarrow> http_parse_request raw r = http_parse_request raw zero_request"
  by (simp add: http_parse_request_def)

text \<open>
  What one call of \<^verbatim>\<open>read_next_request\<close> makes of the stream \<open>s\<close>, of which \<open>b\<close> is buffered.
\<close>

definition reads ::
  "string \<Rightarrow> http_request \<Rightarrow> string \<Rightarrow> int \<times> recv_event list \<times> string \<times> http_request \<times> string \<Rightarrow> bool" where
  "reads s r l outcome \<longleftrightarrow>
     (case outcome of (x, es, b, r', l') \<Rightarrow>
        (case find_header_end (take READ_BUFFER_SIZE s) of
           Some n \<Rightarrow>
             if fst (http_parse_request (take n s) zero_request) = HTTP_PARSE_OK then
               x = 1 \<and> b @ stream_of es = drop n s \<and> steady es \<and> length b \<le> READ_BUFFER_SIZE \<and>
               r' = snd (http_parse_request (take n s) zero_request) \<and> l' = extract_request_line (take n s) l
             else x = - 1 \<and> b \<noteq> [] \<and> request_line_text b = request_line_text (take n s) \<and>
               l' = extract_request_line (take n s) l
         | None \<Rightarrow> l' = l \<and> (if s = [] then x = 0 else x = - 1 \<and> b = take READ_BUFFER_SIZE s)))"

lemma read_loop_reads:
  "length b \<le> READ_BUFFER_SIZE \<Longrightarrow> steady es \<Longrightarrow> reads (b @ stream_of es) r l (read_loop es b r l)"
proof (induction es b r l rule: read_loop_induct)
  case (found es b n)
  note bounds = find_header_end_bounds [OF found(1)]
  have t: "take n (b @ stream_of es) = take n b" using bounds by simp
  have f: "find_header_end (take READ_BUFFER_SIZE (b @ stream_of es)) = Some n"
    using find_header_end_append [OF found(1), of "take (READ_BUFFER_SIZE - length b) (stream_of es)"] found(2) by simp
  have p: "http_parse_request (take n b) r = http_parse_request (take n b) zero_request"
    by (rule http_parse_request_any) (use bounds in auto)
  have "b \<noteq> []" using bounds by auto
  moreover have "request_line_text b = request_line_text (take n b)"
    using request_line_text_append [OF found(1), of "[]"] by simp
  ultimately show ?case
    using found bounds t unfolding reads_def f read_loop_found [OF found(1)] p
    by (auto simp del: take_append)
next
  case (full es b)
  then show ?case by (auto simp: reads_def READ_BUFFER_SIZE_def)
next
  case (closed b)
  then show ?case by (simp add: reads_def)
next
  case (cut es b chunk room)
  have e: "(b @ take room chunk) @ stream_of (Recv_bytes (drop room chunk) # es) = b @ stream_of (Recv_bytes chunk # es)"
    by (metis append.assoc append_take_drop_id stream_of.simps(2))
  have "length (b @ take room chunk) \<le> READ_BUFFER_SIZE" "steady (Recv_bytes (drop room chunk) # es)"
    using cut(2-4,7) by simp_all
  from cut(5) [OF this] show ?case unfolding e .
qed simp_all

section \<open>What a conversation should be\<close>

text \<open>
  The reply to one request: status, header and body. A 500 for a listing that cannot be built
  or a file that cannot be opened announces \<^verbatim>\<open>Connection: close\<close> whatever was asked.
\<close>

definition request_reply :: "os_view \<Rightarrow> string \<Rightarrow> http_request \<Rightarrow> bool \<Rightarrow> int \<times> string \<times> string" where
  "request_reply os doc_root request ka =
     (let plain = (\<lambda>status body ka. (status, simple_headers (Some request) status (of_nat (length body)) ka, body)) in
      if req_method request = HTTP_METHOD_UNSUPPORTED then plain 501 (''Not Implemented'' @ [LF]) ka
      else
        (case file_stat_path os doc_root (c_str (path request)) of (result, info) \<Rightarrow>
           if result \<noteq> FILE_RESULT_OK then
             plain (status_from_file_result result) (error_body (status_from_file_result result)) ka
           else if info_kind info = FILE_KIND_DIRECTORY then
             (case file_build_directory_listing os (c_str (path request)) (resolved_path info) of
                (FILE_RESULT_OK, Some page, len) \<Rightarrow> (200, directory_headers request len ka, page)
              | _ \<Rightarrow> plain 500 server_error_body False)
           else file_reply os request info ka))"

definition reply_body :: "http_request \<Rightarrow> string \<Rightarrow> string" where
  "reply_body request body = (if req_method request = HTTP_METHOD_HEAD then [] else body)"

definition bad_request_reply :: "conn_env \<Rightarrow> nat \<Rightarrow> string \<Rightarrow> string \<times> log_entry" where
  "bad_request_reply env k buffer =
     (simple_headers None 400 (of_nat (length bad_request_body)) False @ bad_request_body,
      Entry (get_client_ip (env_peer env)) (request_line_text buffer) 400 (of_nat (length bad_request_body)) (env_clock env k))"

definition request_answer :: "conn_env \<Rightarrow> nat \<Rightarrow> string \<Rightarrow> http_request \<Rightarrow> string \<times> log_entry" where
  "request_answer env k raw request =
     (case request_reply (env_os env k) (env_doc_root env) request (keep_alive_requested request) of
        (status, head, body) \<Rightarrow>
          (head @ reply_body request body,
           Entry (get_client_ip (env_peer env)) (request_line_text raw) status
             (of_nat (length (reply_body request body))) (env_clock env k)))"

text \<open>
  The messages and log entries for a byte stream: one request after the other, until one does
  not want the connection kept, or what remains is no complete request that fits the buffer,
  which is answered 400 unless it is empty.
\<close>

function conversation :: "conn_env \<Rightarrow> nat \<Rightarrow> string \<Rightarrow> (string \<times> log_entry) list" where
  "conversation env k s =
     (case find_header_end (take READ_BUFFER_SIZE s) of
        None \<Rightarrow> if s = [] then [] else [bad_request_reply env k (take READ_BUFFER_SIZE s)]
      | Some n \<Rightarrow>
          (case http_parse_request (take n s) zero_request of (result, request) \<Rightarrow>
             if result \<noteq> HTTP_PARSE_OK then [bad_request_reply env k (take n s)]
             else request_answer env k (take n s) request #
               (if keep_alive_requested request then conversation env (Suc k) (drop n s) else [])))"
  by pat_completeness auto
termination
  by (relation "measure (\<lambda>(_, _, s). length s)") (fastforce dest: find_header_end_bounds)+

declare conversation.simps [simp del]

lemma conversation_Nil [simp]: "conversation env k [] = []"
  by (subst conversation.simps) simp

text \<open>The files do not shrink between \<^verbatim>\<open>stat\<close> and reading.\<close>

definition stable_files :: "os_view \<Rightarrow> bool" where
  "stable_files os \<longleftrightarrow>
     (\<forall>p f st. os_fopen os p = Some f \<longrightarrow> os_stat os p = Inr st \<longrightarrow> st_mode st = S_REG \<longrightarrow>
        unat (of_int (st_size st) :: size_t) \<le> length f)"

lemma file_stat_path_regular:
  assumes "file_stat_path os doc_root p = (FILE_RESULT_OK, info)" "info_kind info \<noteq> FILE_KIND_DIRECTORY"
  shows "length (mime_type info) \<le> 73 \<and> (\<exists>st. os_stat os (resolved_path info) = Inr st \<and> st_mode st = S_REG \<and>
    info_size info = of_int (st_size st))"
  using assms length_mime_type
  by (auto simp: file_stat_path_def Let_def split: prod.splits if_splits sum.splits st_mode.splits)

lemma file_kind_cases: "k \<noteq> FILE_KIND_DIRECTORY \<longleftrightarrow> k = FILE_KIND_REGULAR"
  by (cases k) auto

lemma status_from_file_result_bounds [simp]:
  "0 \<le> status_from_file_result r" "status_from_file_result r < 1000"
  by (simp_all add: status_from_file_result_def split: file_result.split)

lemma plain_responds:
  assumes "0 \<le> status" "status < 1000"
  shows "responds c
    (simple_headers (Some request) status (of_nat (length body)) ka @ reply_body request body) status
    (of_nat (length (reply_body request body))) result (send_simple_response c (Some request) status body ka result)"
  using send_simple_response_responds [OF assms, of c "Some request" body ka result]
  by (simp add: reply_body_def split: if_splits)

lemma listing_length:
  assumes "file_build_directory_listing os request_path resolved = (FILE_RESULT_OK, Some page, len)"
  shows "unat len = length page"
proof -
  obtain names where "os_readdir os resolved = Some names"
    using assms by (cases "os_readdir os resolved") (auto simp: file_build_directory_listing_def)
  from file_build_directory_listing_result [OF this assms] show ?thesis by auto
qed

lemma directory_responds:
  assumes "(case file_build_directory_listing os (c_str (path request)) (resolved_path info) of
      (FILE_RESULT_OK, Some page, len) \<Rightarrow> (200, directory_headers request len ka, page)
    | _ \<Rightarrow> (500, simple_headers (Some request) 500 (of_nat (length server_error_body)) False, server_error_body)) =
    (status, head, body)"
  shows "responds c (head @ reply_body request body) status (of_nat (length (reply_body request body))) result
    (send_directory_response os c request info ka result)"
proof -
  obtain r page len where b: "file_build_directory_listing os (c_str (path request)) (resolved_path info) = (r, page, len)"
    by (metis prod_cases3)
  show ?thesis
  proof (cases "r = FILE_RESULT_OK \<and> page \<noteq> None")
    case False
    then have "send_directory_response os c request info ka result =
        send_simple_response c (Some request) 500 server_error_body False result"
      "(status, head, body) = (500, simple_headers (Some request) 500 (of_nat (length server_error_body)) False, server_error_body)"
      using assms by (auto simp: send_directory_response_def b split: file_result.splits option.splits)
    with plain_responds [of 500 c request server_error_body False result] show ?thesis by simp
  next
    case True
    then obtain p where p: "r = FILE_RESULT_OK" "page = Some p" by auto
    with assms b have reply: "status = 200" "head = directory_headers request len ka" "body = p" by simp_all
    note len = listing_length [OF b [unfolded p]]
    then have "of_nat (length p) = len" by (metis word_of_nat_unat)
    with send_directory_response_responds [OF b [unfolded p] len, of c ka result] reply show ?thesis
      by (simp add: reply_body_def split: if_splits)
  qed
qed

text \<open>
  How the server classifies a request; the two facts about a regular file and a listing that
  every statement on the answer needs.
\<close>

lemma request_cases [case_names unsupported error directory regular]:
  obtains "req_method request = HTTP_METHOD_UNSUPPORTED"
    | result info where "req_method request \<noteq> HTTP_METHOD_UNSUPPORTED" "result \<noteq> FILE_RESULT_OK"
        "file_stat_path os doc_root (c_str (path request)) = (result, info)"
    | info where "req_method request \<noteq> HTTP_METHOD_UNSUPPORTED" "info_kind info = FILE_KIND_DIRECTORY"
        "file_stat_path os doc_root (c_str (path request)) = (FILE_RESULT_OK, info)"
    | info where "req_method request \<noteq> HTTP_METHOD_UNSUPPORTED" "info_kind info \<noteq> FILE_KIND_DIRECTORY"
        "file_stat_path os doc_root (c_str (path request)) = (FILE_RESULT_OK, info)"
  by (metis surj_pair)

lemma stable_regular:
  assumes "stable_files os" "file_stat_path os doc_root p = (FILE_RESULT_OK, info)" "info_kind info \<noteq> FILE_KIND_DIRECTORY"
    "os_fopen os (resolved_path info) = Some f"
  shows "unat (info_size info) \<le> length f"
  using file_stat_path_regular [OF assms(2,3)] assms(1,4) by (auto simp: stable_files_def)

lemma answer_request_responds:
  assumes "stable_files os" "request_reply os doc_root request ka = (status, head, body)"
  shows "responds c (head @ reply_body request body) status (of_nat (length (reply_body request body))) no_result
    (answer_request os doc_root c request ka)"
proof (cases rule: request_cases [of request _ os doc_root])
  case unsupported
  with assms(2) plain_responds [of 501 c request "''Not Implemented'' @ [LF]" ka no_result] show ?thesis
    by (auto simp: request_reply_def answer_request_def)
next
  case (error result info)
  with assms(2) plain_responds [of "status_from_file_result result" c request
      "error_body (status_from_file_result result)" ka no_result]
  show ?thesis by (auto simp: request_reply_def answer_request_def Let_def)
next
  case (directory info)
  with assms(2) directory_responds [where os = os and request = request and info = info and ka = ka] show ?thesis
    by (simp add: request_reply_def answer_request_def Let_def)
next
  case (regular info)
  have "length (mime_type info) \<le> 7900" using file_stat_path_regular [OF regular(3,2)] by simp
  moreover have "file_reply os request info ka = (status, head, body)"
    using regular assms(2) by (simp add: request_reply_def Let_def)
  ultimately have "responds c (head @ (if req_method request = HTTP_METHOD_HEAD then [] else body)) status
    (if req_method request = HTTP_METHOD_HEAD then 0 else of_nat (length body)) no_result
    (send_file_response os c request info ka no_result)"
    using stable_regular [OF assms(1) regular(3,2)] by (intro send_file_response_responds)
  then show ?thesis using regular by (simp add: answer_request_def reply_body_def split: if_splits)
qed

section \<open>The loop carries out the conversation\<close>

lemma bad_request_responds:
  "responds c (simple_headers None 400 (of_nat (length bad_request_body)) False @ bad_request_body) 400
     (of_nat (length bad_request_body)) no_result (send_simple_response c None 400 bad_request_body False no_result)"
  using send_simple_response_responds [of 400 c None bad_request_body False no_result] by (simp add: sends_body_def)

definition carries_out :: "conn \<Rightarrow> (string \<times> log_entry) list \<Rightarrow> log_entry list \<times> conn \<Rightarrow> bool" where
  "carries_out c replies outcome \<longleftrightarrow>
     (case outcome of (entries, c') \<Rightarrow>
        outgoing c' = outgoing c @ concat (map fst replies) \<and> entries = map snd replies \<and>
        open_files c' = open_files c \<and> closes c' = closes c)"

lemma carries_out_Nil: "carries_out c [] ([], c\<lparr>incoming := es\<rparr>)"
  by (simp add: carries_out_def)

lemma respondsD:
  assumes "responds c m st n res (r, res', c')" "link_up (send_script c)"
  shows "r = 0" "outgoing c' = outgoing c @ m" "res' = \<lparr>status_code = st, body_bytes = n\<rparr>" "link_up (send_script c')"
    "incoming c' = incoming c" "open_files c' = open_files c" "closes c' = closes c"
  using assms by (auto simp: responds_def delivered_OK)

lemma handle_loop_step:
  assumes "read_loop (incoming c) b r l = (x, es, b1, r1, l1)"
  shows "handle_loop env k c b r l =
    (if x = 0 then ([], c\<lparr>incoming := es\<rparr>)
     else if x < 0 then
       (case send_simple_response (c\<lparr>incoming := es\<rparr>) None 400 bad_request_body False no_result of (_, response, c2) \<Rightarrow>
          ([log_call env k (if b1 \<noteq> [] then extract_request_line b1 l1 else snprintf_to l1 invalid_line) response], c2))
     else
       (case answer_request (env_os env k) (env_doc_root env) (c\<lparr>incoming := es\<rparr>) r1 (keep_alive_requested r1) of
          (sent, response, c2) \<Rightarrow>
            if sent \<noteq> 0 then ([], c2)
            else if \<not> keep_alive_requested r1 then ([log_call env k l1 response], c2)
            else (case handle_loop env (Suc k) c2 b1 r1 l1 of (entries, c3) \<Rightarrow> (log_call env k l1 response # entries, c3))))"
  by (subst handle_loop.simps)
    (simp add: read_next_request_def assms Let_def http_should_keep_alive_def split: prod.split)

lemma handle_loop_bad_request:
  assumes "read_loop (incoming c) b r l = (- 1, es, b1, r1, l1)" "b1 \<noteq> []"
    "request_line_text b1 = request_line_text t" "length l1 = 256" "link_up (send_script c)"
  shows "carries_out c [bad_request_reply env k t] (handle_loop env k c b r l)"
proof -
  define c1 where "c1 = c\<lparr>incoming := es\<rparr>"
  obtain q response c2 where send: "send_simple_response c1 None 400 bad_request_body False no_result = (q, response, c2)"
    by (metis prod_cases3)
  have "link_up (send_script c1)" using assms(5) by (simp add: c1_def)
  note D = respondsD [OF bad_request_responds [of c1, unfolded send] this]
  have "handle_loop env k c b r l = ([log_call env k (extract_request_line b1 l1) response], c2)"
    using send assms(2) by (simp add: handle_loop_step [OF assms(1)] c1_def)
  with D assms(3) extract_request_line_text(1) [OF assms(4), of b1] show ?thesis
    by (simp add: carries_out_def bad_request_reply_def log_call_def c1_def)
qed

lemma handle_loop_answer:
  assumes "stable_files (env_os env k)" "read_loop (incoming c) b r l = (1, es, b1, request, l1)"
    "c_str l1 = request_line_text raw" "link_up (send_script c)" "request_answer env k raw request = (m, e)"
  shows "\<exists>c2. handle_loop env k c b r l =
      (if keep_alive_requested request then
         (case handle_loop env (Suc k) c2 b1 request l1 of (entries, c3) \<Rightarrow> (e # entries, c3))
       else ([e], c2)) \<and>
    outgoing c2 = outgoing c @ m \<and> incoming c2 = es \<and> link_up (send_script c2) \<and>
    open_files c2 = open_files c \<and> closes c2 = closes c"
proof -
  define c1 where "c1 = c\<lparr>incoming := es\<rparr>"
  have c1: "link_up (send_script c1)" using assms(4) by (simp add: c1_def)
  obtain status head body where reply:
    "request_reply (env_os env k) (env_doc_root env) request (keep_alive_requested request) = (status, head, body)"
    by (metis prod_cases3)
  obtain q response c2 where send:
    "answer_request (env_os env k) (env_doc_root env) c1 request (keep_alive_requested request) = (q, response, c2)"
    by (metis prod_cases3)
  note D = respondsD [OF answer_request_responds [OF assms(1) reply, of c1, unfolded send] c1]
  have "m = head @ reply_body request body" "e = log_call env k l1 response"
    using assms(3,5) D(3) by (auto simp: request_answer_def reply log_call_def)
  with D send show ?thesis
    by (intro exI [of _ c2]) (simp add: handle_loop_step [OF assms(2)] c1_def)
qed

lemma handle_loop_carries_out:
  assumes stable: "\<And>k. stable_files (env_os env k)"
  shows "length b \<le> READ_BUFFER_SIZE \<Longrightarrow> steady (incoming c) \<Longrightarrow> length l = 256 \<Longrightarrow> link_up (send_script c) \<Longrightarrow>
    carries_out c (conversation env k (b @ stream_of (incoming c))) (handle_loop env k c b r l)"
proof (induction "length (b @ stream_of (incoming c))" arbitrary: k c b r l rule: less_induct)
  case less
  define s where "s = b @ stream_of (incoming c)"
  obtain x es b1 r1 l1 where rd: "read_loop (incoming c) b r l = (x, es, b1, r1, l1)" by (metis prod_cases5)
  note R = read_loop_reads [OF less.prems(1,2), of r l, folded s_def, unfolded rd reads_def prod.case]
  note bad = handle_loop_bad_request [of c b r l es b1 r1 l1, OF _ _ _ _ less.prems(4)]
  show ?case
  proof (cases "find_header_end (take READ_BUFFER_SIZE s)")
    case None
    note conv = conversation.simps [of env k s, unfolded None option.case]
    show ?thesis
    proof (cases "s = []")
      case True
      with R None rd conv carries_out_Nil show ?thesis by (simp add: s_def [symmetric] handle_loop_step [OF rd])
    next
      case False
      with R None have "x = - 1" "b1 = take READ_BUFFER_SIZE s" "l1 = l" by simp_all
      with bad [of "take READ_BUFFER_SIZE s"] rd less.prems(3) False conv show ?thesis
        by (simp add: s_def [symmetric] READ_BUFFER_SIZE_def)
    qed
  next
    case (Some n)
    obtain result request where p: "http_parse_request (take n s) zero_request = (result, request)" by fastforce
    note conv = conversation.simps [of env k s, unfolded Some option.case p prod.case]
    note line = extract_request_line_text [OF less.prems(3), of "take n s"]
    show ?thesis
    proof (cases "result = HTTP_PARSE_OK")
      case False
      with R Some p bad [of "take n s"] rd line(2) conv show ?thesis by (simp add: s_def [symmetric])
    next
      case True
      with R Some p have x: "x = 1" "b1 @ stream_of es = drop n s" "steady es" "length b1 \<le> READ_BUFFER_SIZE"
        "r1 = request" "l1 = extract_request_line (take n s) l" by simp_all
      obtain m e where answer: "request_answer env k (take n s) request = (m, e)" by fastforce
      have "c_str l1 = request_line_text (take n s)" using line(1) x(6) by simp
      from handle_loop_answer [OF stable rd [unfolded x(1,5)] this less.prems(4) answer] obtain c2 where
        step: "handle_loop env k c b r l = (if keep_alive_requested request then
           (case handle_loop env (Suc k) c2 b1 request l1 of (entries, c3) \<Rightarrow> (e # entries, c3)) else ([e], c2))"
        and c2: "outgoing c2 = outgoing c @ m" "incoming c2 = es" "link_up (send_script c2)"
          "open_files c2 = open_files c" "closes c2 = closes c" by blast
      have "length (b1 @ stream_of (incoming c2)) < length (b @ stream_of (incoming c))"
        using find_header_end_bounds [OF Some] x(2) c2(2) by (auto simp: s_def [symmetric])
      from less.hyps [OF this, of l1 "Suc k" request] x c2 line(2)
      have "carries_out c2 (conversation env (Suc k) (drop n s)) (handle_loop env (Suc k) c2 b1 request l1)" by simp
      with step c2 conv True answer show ?thesis
        by (auto simp: carries_out_def s_def [symmetric] split: if_splits)
    qed
  qed
qed

section \<open>Consequences\<close>

lemma handle_loop_same_io:
  "open_files (snd (handle_loop env k c b r l)) = open_files c \<and> closes (snd (handle_loop env k c b r l)) = closes c"
proof (induction env k c b r l rule: handle_loop.induct)
  case (1 env k c b r l)
  obtain x es b1 r1 l1 where rd: "read_loop (incoming c) b r l = (x, es, b1, r1, l1)" by (metis prod_cases5)
  define c1 where "c1 = c\<lparr>incoming := es\<rparr>"
  have c1: "open_files c1 = open_files c" "closes c1 = closes c" by (simp_all add: c1_def)
  obtain q response c2 where bad: "send_simple_response c1 None 400 bad_request_body False no_result = (q, response, c2)"
    by (metis prod_cases3)
  obtain sent answer c3 where ans: "answer_request (env_os env k) (env_doc_root env) c1 r1 (keep_alive_requested r1) = (sent, answer, c3)"
    by (metis prod_cases3)
  have rn: "read_next_request c b r l = (x, c1, b1, r1, l1)" by (simp add: read_next_request_def rd c1_def)
  have io: "open_files c2 = open_files c" "closes c2 = closes c" "open_files c3 = open_files c" "closes c3 = closes c"
    using send_simple_response_same_io [OF bad] answer_request_same_io [OF ans] c1 by (simp_all add: same_io_def)
  have ih: "x \<noteq> 0 \<Longrightarrow> \<not> x < 0 \<Longrightarrow> sent = 0 \<Longrightarrow> keep_alive_requested r1 \<Longrightarrow>
      open_files (snd (handle_loop env (Suc k) c3 b1 r1 l1)) = open_files c \<and>
      closes (snd (handle_loop env (Suc k) c3 b1 r1 l1)) = closes c"
    using 1 [OF rn [symmetric] refl refl refl refl _ _ refl] ans io by (simp add: http_should_keep_alive_def)
  show ?case
    using io c1 ih by (auto simp: handle_loop_step [OF rd] c1_def [symmetric] bad ans split: prod.split)
qed

lemma conversation_all:
  assumes "\<And>j t. P (bad_request_reply env j t)"
    "\<And>j t request. http_parse_request t zero_request = (HTTP_PARSE_OK, request) \<Longrightarrow> P (request_answer env j t request)"
  shows "list_all P (conversation env k s)"
proof (induction "length s" arbitrary: k s rule: less_induct)
  case less
  have "length (drop n s) < length s" if "find_header_end (take READ_BUFFER_SIZE s) = Some n" for n
    using find_header_end_bounds [OF that] by auto
  from less [OF this] assms show ?case
    by (subst conversation.simps) (simp split: option.split prod.split)
qed

lemma find_header_end_last:
  assumes "CR \<notin> set a"
  shows "find_header_end (a @ crlf @ crlf) = Some (length a + 4)"
  using assms
proof (induction a)
  case (Cons x a)
  then show ?case
    by (cases a; cases "tl a"; cases "tl (tl a)") (auto simp: numeral_eq_Suc)
qed simp

lemma CR_notin_mime_type: "CR \<notin> set (file_mime_type s)"
proof -
  have "\<forall>(e, m) \<in> set mime_table. CR \<notin> set m" by (simp add: mime_table_def)
  then show ?thesis
    by (auto simp: file_mime_type_def octet_stream_def split: option.split dest!: map_of_SomeD)
qed

lemma length_error_body: "0 \<le> status \<Longrightarrow> status < 1000 \<Longrightarrow> length (error_body status) \<le> 26"
  using length_status_text [of status] length_printf_d [of status] by (simp add: error_body_def)

definition known_status :: "int \<Rightarrow> bool" where
  "known_status status \<longleftrightarrow> status \<in> {200, 206, 400, 403, 404, 416, 500, 501}"

lemma file_reply_status: "file_reply os request info ka = (status, head, body) \<Longrightarrow> known_status status"
  by (auto simp: file_reply_def known_status_def split: option.splits if_splits)

lemma request_reply_framed:
  assumes "stable_files os" "request_reply os doc_root request ka = (status, head, body)"
  shows "framed_reply status head body \<and> known_status status"
proof (cases rule: request_cases [of request _ os doc_root])
  case unsupported
  with assms(2) simple_headers_framed [of "''Not Implemented'' @ [LF]"] show ?thesis
    by (auto simp: request_reply_def known_status_def)
next
  case (error result info)
  then have "known_status (status_from_file_result result)"
    by (cases result) (auto simp: known_status_def status_from_file_result_def)
  with error assms(2) length_error_body [of "status_from_file_result result"] show ?thesis
    by (auto simp: request_reply_def Let_def intro!: simple_headers_framed)
next
  case (directory info)
  have err: "framed_reply 500 (simple_headers (Some request) 500 (of_nat (length server_error_body)) False) server_error_body"
    by (rule simple_headers_framed) (simp add: server_error_body_def)
  from directory assms(2) show ?thesis
    by (auto simp: request_reply_def Let_def known_status_def intro!: directory_headers_framed err listing_length [symmetric]
        split: prod.splits file_result.splits option.splits)
next
  case (regular info)
  have "CR \<notin> set (mime_type info)"
    using regular CR_notin_mime_type
    by (auto simp: file_stat_path_def Let_def split: prod.splits if_splits sum.splits st_mode.splits)
  moreover have "file_reply os request info ka = (status, head, body)"
    using regular assms(2) by (simp add: request_reply_def Let_def)
  ultimately show ?thesis
    using file_reply_framed [OF _ stable_regular [OF assms(1) regular(3,2)]] file_reply_status by blast
qed

text \<open>The line logged for a HEAD request begins with its method.\<close>

lemma parsed_HEAD_line:
  assumes "http_parse_request raw r0 = (HTTP_PARSE_OK, request)" "req_method request = HTTP_METHOD_HEAD"
  shows "prefix ''HEAD'' (request_line_text raw)"
proof -
  obtain m t v rest where p: "request_parts raw m t v rest"
    using http_parse_request_OK_parts assms(1) by (metis fst_conv)
  from assms(1) have "request = finish_request rest (request_line_fields m t v)"
    unfolding http_parse_request_parts [OF p] by (auto simp: Let_def split: if_splits)
  with assms(2) have "c_str (take 15 m) = ''HEAD''"
    using finish_request_frame [of rest "request_line_fields m t v"]
    by (auto simp: same_request_line_def request_line_fields_def parse_method_def split: if_splits)
  then have "take 15 m = ''HEAD'' @ dropWhile (\<lambda>c. c \<noteq> NUL) (take 15 m)"
    unfolding c_str_def by (metis takeWhile_dropWhile_id)
  then obtain m' where m: "m = ''HEAD'' @ m'" by (metis append.assoc append_take_drop_id)
  from p have "find_crlf raw = Some (length (m @ '' '' @ t @ '' '' @ v))"
    using find_crlf_append [of "m @ '' '' @ t @ '' '' @ v" rest] by (simp add: request_parts_def)
  with p have "request_line_text raw = c_str (take 255 (m @ '' '' @ t @ '' '' @ v))"
    by (simp add: request_line_text_def request_parts_def)
  then show ?thesis by (simp add: m)
qed

text \<open>
  A message and its log entry: a framed header that announces the status logged, with its body
  or, for a request whose line begins with HEAD, without; the count logged is that of the body.
\<close>

fun framed_message :: "string \<Rightarrow> log_entry \<Rightarrow> bool" where
  "framed_message m (Entry ip line status bytes t) \<longleftrightarrow>
     known_status status \<and>
     (\<exists>head body. framed head body \<and> announces head status \<and>
       (m = head @ body \<or> m = head \<and> prefix ''HEAD'' line) \<and> bytes = of_nat (length m - length head))"

lemma bad_request_reply_framed: "case_prod framed_message (bad_request_reply env j t)"
proof -
  have "framed_reply 400 (simple_headers None 400 (of_nat (length bad_request_body)) False) bad_request_body"
    by (rule simple_headers_framed) (simp add: bad_request_body_def)
  then show ?thesis
    unfolding bad_request_reply_def prod.case framed_message.simps
    by (intro conjI exI [of _ "simple_headers None 400 (of_nat (length bad_request_body)) False"] exI [of _ bad_request_body])
      (simp_all add: known_status_def framed_reply_def)
qed

lemma request_answer_framed:
  assumes "\<And>k. stable_files (env_os env k)" "http_parse_request t zero_request = (HTTP_PARSE_OK, request)"
  shows "case_prod framed_message (request_answer env j t request)"
proof -
  obtain status head body where reply:
    "request_reply (env_os env j) (env_doc_root env) request (keep_alive_requested request) = (status, head, body)"
    by (metis prod_cases3)
  note F = request_reply_framed [OF assms(1) reply]
  show ?thesis
    unfolding request_answer_def reply prod.case framed_message.simps
    using F parsed_HEAD_line [OF assms(2)]
    by (intro conjI exI [of _ head] exI [of _ body]) (auto simp: framed_reply_def reply_body_def)
qed

lemma handle_client_carries_out:
  assumes "\<And>k. stable_files (env_os env k)" "steady (incoming c)" "link_up (send_script c)" "length request_line = 256"
    "handle_client env request request_line c = (entries, c')"
  shows "outgoing c' = outgoing c @ concat (map fst (conversation env 0 (stream_of (incoming c)))) \<and>
    entries = map snd (conversation env 0 (stream_of (incoming c))) \<and>
    closes c' = Suc (closes c) \<and> open_files c' = open_files c"
proof -
  obtain c1 where h: "handle_loop env 0 c [] request request_line = (entries, c1)"
    and c': "c' = c1\<lparr>closes := Suc (closes c1)\<rparr>"
    using assms(5) by (auto simp: handle_client_def split: prod.splits)
  from handle_loop_carries_out [OF assms(1), of "[]" c request_line 0 request] assms(2-4) h
  show ?thesis by (simp add: carries_out_def c')
qed

lemma handle_client_io:
  "closes (snd (handle_client env request request_line c)) = Suc (closes c) \<and>
   open_files (snd (handle_client env request request_line c)) = open_files c"
  using handle_loop_same_io [of env 0 c "[]" request request_line]
  by (simp add: handle_client_def case_prod_beta)

section \<open>Properties\<close>

text \<open>C1: \<^verbatim>\<open>handle_client\<close> carries out the conversation: on a connection that works, the bytes it
  sends and the entries it logs are, one after the other, those of the requests in the byte
  stream of the peer, each answered as specified, up to the first request that does not want
  the connection kept or the first invalid one, which gets a 400. The connection is then
  closed, once, and no file stays open.\<close>

theorem handle_client_refines_conversation:
  assumes "\<And>k. stable_files (env_os env k)" "steady (incoming c)" "link_up (send_script c)" "length request_line = 256"
    "handle_client env request request_line c = (entries, c')"
  shows "outgoing c' = outgoing c @ concat (map fst (conversation env 0 (stream_of (incoming c)))) \<and>
    entries = map snd (conversation env 0 (stream_of (incoming c))) \<and>
    closes c' = Suc (closes c) \<and> open_files c' = open_files c"
  by (rule handle_client_carries_out [OF assms])

text \<open>C11: The outcome of a connection does not depend on how the network cuts the bytes into
  chunks, nor on interrupted calls: two peers that send the same bytes get the same bytes
  back, and the same entries are logged.\<close>

theorem chunking_is_invisible:
  assumes "\<And>k. stable_files (env_os env k)" "steady (incoming c)" "steady chunks"
    "stream_of chunks = stream_of (incoming c)" "link_up (send_script c)" "length request_line = 256"
  shows "let (entries, c') = handle_client env request request_line c;
             (entries2, c2) = handle_client env request request_line (c\<lparr>incoming := chunks\<rparr>)
         in entries2 = entries \<and> outgoing c2 = outgoing c'"
proof -
  obtain entries c' entries2 c2 where h: "handle_client env request request_line c = (entries, c')"
    "handle_client env request request_line (c\<lparr>incoming := chunks\<rparr>) = (entries2, c2)"
    by fastforce
  obtain d1 d2 where d: "handle_loop env 0 c [] request request_line = (entries, d1)" "c' = d1\<lparr>closes := Suc (closes d1)\<rparr>"
    "handle_loop env 0 (c\<lparr>incoming := chunks\<rparr>) [] request request_line = (entries2, d2)" "c2 = d2\<lparr>closes := Suc (closes d2)\<rparr>"
    using h by (auto simp: handle_client_def split: prod.splits)
  from handle_loop_carries_out [OF assms(1), of "[]" c request_line 0 request]
    handle_loop_carries_out [OF assms(1), of "[]" "c\<lparr>incoming := chunks\<rparr>" request_line 0 request] assms d
  show ?thesis by (simp add: carries_out_def h)
qed

text \<open>C18: Whatever the peer sends and however sending and the file system behave, \<^verbatim>\<open>handle_client\<close>
  comes to its end (it is a total function of the finite input), closes the connection exactly
  once, and leaves no file open.\<close>

theorem handle_client_closes_once:
  "closes (snd (handle_client env request request_line c)) = Suc (closes c) \<and>
   open_files (snd (handle_client env request request_line c)) = open_files c"
  by (rule handle_client_io)

text \<open>C16: What \<^verbatim>\<open>handle_client\<close> sends can be told apart by the peer and is logged truly: the bytes
  sent on a working connection are, one after the other, one message for each log entry. Its
  header is made of whole lines, ends at its first empty line, begins with a status line of the
  very status that is logged, with its text, and announces the length of the body. The body
  follows, except for a request logged as HEAD, and the count logged is that of the bytes of
  the body that went out.\<close>

theorem messages_framed_and_logged:
  assumes "\<And>k. stable_files (env_os env k)" "steady (incoming c)" "link_up (send_script c)" "length request_line = 256"
    "handle_client env request request_line c = (entries, c')"
  shows "\<exists>messages. outgoing c' = outgoing c @ concat messages \<and> list_all2 framed_message messages entries"
proof -
  define conv where "conv = conversation env 0 (stream_of (incoming c))"
  have "list_all (case_prod framed_message) conv"
    unfolding conv_def by (rule conversation_all [OF bad_request_reply_framed request_answer_framed [OF assms(1)]])
  then have "list_all2 framed_message (map fst conv) (map snd conv)"
    by (simp add: list_all2_map1 list_all2_map2 list.rel_refl_strong list_all_iff case_prod_beta list_all2_same)
  with handle_client_carries_out [OF assms] show ?thesis
    unfolding conv_def [symmetric] by (intro exI [of _ "map fst conv"]) simp
qed

lemma split_lines_single: "LF \<notin> set l \<Longrightarrow> l \<noteq> [] \<Longrightarrow> split_lines l = [l]"
proof (induction l)
  case (Cons c l)
  then show ?case by (cases l) auto
qed simp

text \<open>C36: The log can be forged: when a peer sends a first line that holds a bare line feed, with
  any text behind it, \<^verbatim>\<open>handle_client\<close> logs one request, and \<^verbatim>\<open>access_log_write\<close> makes two lines of
  it, the second of which begins with the text of the peer.\<close>

theorem log_line_injection:
  assumes "set forged \<inter> {CR, LF, NUL} = {}" "length forged \<le> 200" "\<And>k. wf_tm (env_clock env k)"
    "LF \<notin> set (get_client_ip (env_peer env))" "\<And>k. stable_files (env_os env k)" "link_up (send_script c)"
    "steady (incoming c)" "stream_of (incoming c) = ''x'' @ LF # forged @ crlf @ crlf" "length request_line = 256"
    "handle_client env request request_line c = (entries, c')"
  shows "length entries = 1 \<and>
    (\<exists>first second. map_option (\<lambda>l. split_lines (log_file l)) (fold write_entry entries (Some \<lparr>log_file = []\<rparr>)) =
       Some [first, forged @ second])"
proof -
  define line where "line = CHR ''x'' # LF # forged"
  define s where "s = line @ crlf @ crlf"
  have cr: "CR \<notin> set line" "NUL \<notin> set line" using assms(1) by (auto simp: line_def)
  have n: "find_header_end (take READ_BUFFER_SIZE s) = Some (length line + 4)" "take (length line + 4) s = s"
    "drop (length line + 4) s = []"
    using find_header_end_last [OF cr(1)] assms(2) by (simp_all add: s_def line_def READ_BUFFER_SIZE_def)
  have "find_crlf s = Some (length line)"
    unfolding s_def by (rule find_crlf_append [OF no_CR_no_crlf_snoc [OF cr(1)]])
  then have logged: "request_line_text s = line"
    using assms(2) cr(2) by (simp add: request_line_text_def s_def line_def)
  have "\<exists>m status bytes. conversation env 0 s =
      [(m, Entry (get_client_ip (env_peer env)) line status bytes (env_clock env 0))]"
    using n logged by (subst conversation.simps)
      (auto simp: bad_request_reply_def request_answer_def split: prod.splits)
  with handle_client_carries_out [OF assms(5,7,6,9,10)] assms(8) obtain status bytes where
    e: "entries = [Entry (get_client_ip (env_peer env)) line status bytes (env_clock env 0)]"
    by (auto simp: s_def line_def)
  define first where "first = get_client_ip (env_peer env) @ '' - - ['' @ timestamp_text (env_clock env 0) @ ''] '' @ [DQUOTE, CHR ''x'']"
  define second where "second = [DQUOTE] @ '' '' @ printf_d status @ '' '' @ to_dec (unat bytes)"
  have "LF \<notin> set first" using assms(3,4) timestamp_chars(2) by (simp add: first_def)
  moreover have "LF \<notin> set (forged @ second)"
    using assms(1) isdigit_notin [OF to_dec_digits] by (auto simp: second_def printf_d_def)
  ultimately have "split_lines (first @ LF # (forged @ second) @ [LF]) = [first, forged @ second]"
    using split_lines_line [of first "(forged @ second) @ [LF]"] split_lines_line [of "forged @ second" "[]"] by simp
  moreover have "fold write_entry entries (Some \<lparr>log_file = []\<rparr>) =
      Some \<lparr>log_file = first @ LF # (forged @ second) @ [LF]\<rparr>"
    by (simp add: e access_log_write_def entry_text_def first_def second_def line_def)
  ultimately show ?thesis using e by auto
qed

text \<open>An example: one client, two pipelined requests, on the sample file system.\<close>

definition example_env :: conn_env where
  "example_env = \<lparr>env_doc_root = ''www'', env_os = (\<lambda>_. sample_os),
     env_clock = (\<lambda>_. \<lparr>tm_sec = 1, tm_min = 2, tm_hour = 3, tm_mday = 4, tm_mon = 5, tm_year = 126, tm_gmtoff = 0\<rparr>),
     env_peer = Some ''10.0.0.9''\<rparr>"

definition example_bytes :: string where
  "example_bytes = ''GET /a.txt HTTP/1.1'' @ crlf @ crlf @ ''HEAD /b HTTP/1.0'' @ crlf @ crlf"

lemma example_env_stable: "stable_files (env_os example_env k)"
  by (simp add: example_env_def stable_files_def sample_os_def)

theorem handle_client_refines_conversation_witness:
  "\<exists>entries c'. handle_client example_env zero_request (zeroed 256) (example_conn\<lparr>incoming := [Recv_bytes example_bytes]\<rparr>) =
      (entries, c') \<and> entries = map snd (conversation example_env 0 example_bytes) \<and> closes c' = 1"
proof -
  define c where "c = example_conn\<lparr>incoming := [Recv_bytes example_bytes]\<rparr>"
  obtain entries c' where h: "handle_client example_env zero_request (zeroed 256) c = (entries, c')" by fastforce
  have "steady (incoming c)" "link_up (send_script c)" "length (zeroed 256) = 256"
    by (simp_all add: c_def example_bytes_def example_conn_def link_up_def)
  from handle_client_refines_conversation [OF example_env_stable this h] h show ?thesis
    unfolding c_def by (simp add: example_conn_def)
qed

theorem chunking_is_invisible_witness:
  "fst (handle_client example_env zero_request (zeroed 256) (example_conn\<lparr>incoming := [Recv_bytes (take 9 example_bytes), Recv_eintr, Recv_bytes (drop 9 example_bytes)]\<rparr>)) =
   fst (handle_client example_env zero_request (zeroed 256) (example_conn\<lparr>incoming := [Recv_bytes example_bytes]\<rparr>))"
proof -
  define c where "c = example_conn\<lparr>incoming := [Recv_bytes example_bytes]\<rparr>"
  define chunks where "chunks = [Recv_bytes (take 9 example_bytes), Recv_eintr, Recv_bytes (drop 9 example_bytes)]"
  have "steady (incoming c)" "steady chunks" "stream_of chunks = stream_of (incoming c)" "link_up (send_script c)"
    "length (zeroed 256) = 256"
    by (simp_all add: c_def chunks_def example_bytes_def example_conn_def link_up_def)
  from chunking_is_invisible [OF example_env_stable this] show ?thesis
    by (simp add: c_def chunks_def case_prod_beta)
qed

theorem messages_framed_and_logged_witness:
  "let c = example_conn\<lparr>incoming := [Recv_bytes example_bytes]\<rparr>
   in \<exists>messages. outgoing (snd (handle_client example_env zero_request (zeroed 256) c)) = concat messages \<and>
     list_all2 framed_message messages (fst (handle_client example_env zero_request (zeroed 256) c))"
proof -
  define c where "c = example_conn\<lparr>incoming := [Recv_bytes example_bytes]\<rparr>"
  have "steady (incoming c)" "link_up (send_script c)" "length (zeroed 256) = 256" "outgoing c = []"
    by (simp_all add: c_def example_bytes_def example_conn_def link_up_def)
  from messages_framed_and_logged [OF example_env_stable this(1-3) surjective_pairing] this(4) show ?thesis
    unfolding c_def [symmetric] Let_def by simp
qed

theorem log_line_injection_witness:
  "let bytes = ''x'' @ LF # ''10.0.0.1 - - forged'' @ crlf @ crlf; c = example_conn\<lparr>incoming := [Recv_bytes bytes]\<rparr>
   in \<exists>first second. map_option (\<lambda>l. split_lines (log_file l))
       (fold write_entry (fst (handle_client example_env zero_request (zeroed 256) c)) (Some \<lparr>log_file = []\<rparr>)) =
     Some [first, ''10.0.0.1 - - forged'' @ second]"
proof -
  define bytes where "bytes = ''x'' @ LF # ''10.0.0.1 - - forged'' @ crlf @ crlf"
  define c where "c = example_conn\<lparr>incoming := [Recv_bytes bytes]\<rparr>"
  have c: "link_up (send_script c)" "steady (incoming c)" "stream_of (incoming c) = bytes" "length (zeroed 256) = 256"
    by (simp_all add: c_def bytes_def example_conn_def link_up_def)
  have e: "wf_tm (env_clock example_env k)" "LF \<notin> set (get_client_ip (env_peer example_env))" for k
    by (simp_all add: example_env_def wf_tm_def get_client_ip_def)
  from log_line_injection [of "''10.0.0.1 - - forged''", OF _ _ e example_env_stable c(1,2) c(3) [unfolded bytes_def] c(4) surjective_pairing]
  show ?thesis unfolding bytes_def [symmetric] c_def [symmetric] Let_def by simp
qed

end
