(* ===== verification/Server.thy ===== *)
theory Server
  imports ThreadPool Connection
begin

text \<open>
  The life of the server, \<^verbatim>\<open>src/server.c\<close> from \<^verbatim>\<open>create_listening_socket\<close> on: start, accept loop,
  stop, release.

  What the process holds of the system is the record \<open>sys\<close>: the outcomes of the coming
  allocations, the number of open log streams, of existing queues, and the open sockets.
  What the network and the file system answer is the record \<open>net\<close>. The threads of the running
  server are a step relation: the accepting thread at the points of its loop, the workers of
  the pool with their handler, and signals, whose handler calls \<^verbatim>\<open>server_stop\<close> on some thread at
  any time, also on one that holds the mutex of the queue.
\<close>

section \<open>Configuration and resources\<close>

record server_config =
  cfg_host :: string
  cfg_port :: int
  cfg_thread_count :: int
  cfg_queue_capacity :: int
  cfg_doc_root :: string
  cfg_access_log :: string

record sys =
  sys_heap :: heap
  sys_streams :: nat
  sys_queues :: nat
  sys_fds :: "fd list"

text \<open>One entry of the address list: what \<^verbatim>\<open>socket\<close>, \<^verbatim>\<open>bind\<close> and \<^verbatim>\<open>listen\<close> will do with it.\<close>

record attempt =
  at_socket :: "fd option"
  at_bind :: bool
  at_listen :: bool

record net =
  net_getaddrinfo :: "string \<Rightarrow> string \<Rightarrow> attempt list option"
  net_fopen_append :: "string \<Rightarrow> string option"

definition close_fd :: "fd \<Rightarrow> fd list \<Rightarrow> fd list" where
  "close_fd fd fds = remove1 fd fds"

section \<open>The listening socket\<close>

fun try_addresses :: "attempt list \<Rightarrow> fd list \<Rightarrow> fd \<times> fd list" where
  "try_addresses [] fds = (- 1, fds)"
| "try_addresses (rp # rest) fds =
     (case at_socket rp of
        None \<Rightarrow> try_addresses rest fds
      | Some listen_fd \<Rightarrow>
          let fds = listen_fd # fds in
          if at_bind rp \<and> at_listen rp then (listen_fd, fds)
          else try_addresses rest (close_fd listen_fd fds))"

definition create_listening_socket :: "net \<Rightarrow> server_config \<Rightarrow> fd list \<Rightarrow> fd \<times> fd list" where
  "create_listening_socket net config fds =
     (case net_getaddrinfo net (cfg_host config) (printf_d (cfg_port config)) of
        None \<Rightarrow> (- 1, fds)
      | Some addresses \<Rightarrow> try_addresses addresses fds)"

section \<open>Start and release\<close>

record server =
  srv_config :: server_config
  listen_fd :: fd
  should_stop :: bool
  srv_queue :: "socket_queue option"
  srv_log :: "access_log option"

definition socket_queue_destroy :: "socket_queue option \<Rightarrow> nat \<Rightarrow> nat" where
  "socket_queue_destroy queue queues = (case queue of None \<Rightarrow> queues | Some _ \<Rightarrow> queues - 1)"

definition server_init :: "net \<Rightarrow> server_config \<Rightarrow> sys \<Rightarrow> int \<times> server \<times> sys" where
  "server_init net config sys =
     (let server = \<lparr>srv_config = config, listen_fd = - 1, should_stop = False, srv_queue = None, srv_log = None\<rparr>;
          (queue, heap) = socket_queue_init (of_int (cfg_queue_capacity config)) (sys_heap sys);
          sys = sys\<lparr>sys_heap := heap\<rparr>
      in if queue = None then (- 1, server, sys)
         else
           let server = server\<lparr>srv_queue := queue\<rparr>;
               sys = sys\<lparr>sys_queues := Suc (sys_queues sys)\<rparr>;
               (log, heap, streams) =
                 access_log_open (net_fopen_append net) (Some (cfg_access_log config)) (sys_heap sys) (sys_streams sys);
               sys = sys\<lparr>sys_heap := heap, sys_streams := streams\<rparr>
           in if log = None then
                (- 1, server\<lparr>srv_queue := None\<rparr>, sys\<lparr>sys_queues := socket_queue_destroy queue (sys_queues sys)\<rparr>)
              else
                let server = server\<lparr>srv_log := log\<rparr>;
                    (fd, fds) = create_listening_socket net config (sys_fds sys);
                    server = server\<lparr>listen_fd := fd\<rparr>;
                    sys = sys\<lparr>sys_fds := fds\<rparr>
                in if fd < 0 then
                     (- 1, server\<lparr>srv_log := None, srv_queue := None\<rparr>,
                      sys\<lparr>sys_streams := access_log_close log (sys_streams sys),
                          sys_queues := socket_queue_destroy queue (sys_queues sys)\<rparr>)
                   else (0, server, sys))"

definition close_listen_fd :: "server \<Rightarrow> sys \<Rightarrow> server \<times> sys" where
  "close_listen_fd server sys =
     (if listen_fd server \<ge> 0
      then (server\<lparr>listen_fd := - 1\<rparr>, sys\<lparr>sys_fds := close_fd (listen_fd server) (sys_fds sys)\<rparr>)
      else (server, sys))"

definition server_stop :: "server \<Rightarrow> sys \<Rightarrow> server \<times> sys" where
  "server_stop server sys =
     (let (server, sys) = close_listen_fd (server\<lparr>should_stop := True\<rparr>) sys
      in (server\<lparr>srv_queue := socket_queue_shutdown (srv_queue server)\<rparr>, sys))"

definition server_destroy :: "server \<Rightarrow> sys \<Rightarrow> server \<times> sys" where
  "server_destroy server sys =
     (let (server, sys) = close_listen_fd server sys;
          sys = sys\<lparr>sys_streams := access_log_close (srv_log server) (sys_streams sys),
                    sys_queues := socket_queue_destroy (srv_queue server) (sys_queues sys)\<rparr>
      in (server\<lparr>srv_log := None, srv_queue := None\<rparr>, sys))"

section \<open>A full queue\<close>

definition unavailable_body :: string where
  "unavailable_body = ''Service Unavailable'' @ [LF]"

text \<open>The branch for \<^verbatim>\<open>QUEUE_FULL\<close>: answer 503, log it with the line \<^verbatim>\<open>-\<close>, close.\<close>

definition reject_client :: "string option \<Rightarrow> tm \<Rightarrow> conn \<Rightarrow> log_entry \<times> conn" where
  "reject_client peer local_time c =
     (let (_, response, c) = send_simple_response c None 503 unavailable_body False no_result
      in (Entry (get_client_ip peer) ''-'' (status_code response) (body_bytes response) local_time,
          c\<lparr>closes := Suc (closes c)\<rparr>))"

section \<open>The running server\<close>

text \<open>
  The accepting thread is about to test \<^verbatim>\<open>should_stop\<close>, in \<^verbatim>\<open>accept\<close>, in \<^verbatim>\<open>socket_queue_enqueue\<close> with a
  new socket, answering 503 on it, at the shutdown in \<^verbatim>\<open>thread_pool_stop\<close>, at its joins, or has
  returned. Client sockets are recorded when \<^verbatim>\<open>accept\<close> returns them, when they have been
  answered 503, and when they are dropped because the queue is closed; \<open>run_fds\<close> is what the
  process has open, and \<open>run_replies\<close> holds each connection answered 503, before and after, with
  its log entry.

  \<^verbatim>\<open>server_stop\<close> runs in a signal handler, on some thread, in two steps: first the flag and the
  listening socket, then the mutex and the shutdown. Between them \<open>run_signal\<close> holds. When the
  handler interrupts a thread that holds the mutex of the queue, it waits for a mutex that its
  own thread will never release: then \<open>run_locked\<close> holds, and nothing that needs the mutex
  happens any more.
\<close>

datatype main_point = Testing | Accepting | Holding fd | Rejecting fd | Stopping | Joining | Returned

record server_state =
  run_pool :: pool_state
  run_root :: string
  run_stop :: bool
  run_listen :: fd
  run_main :: main_point
  run_accepted :: "fd list"
  run_rejected :: "fd list"
  run_dropped :: "fd list"
  run_fds :: "fd list"
  run_replies :: "(conn \<times> log_entry \<times> conn) list"
  run_signal :: bool
  run_locked :: bool

definition begin_join :: "server_state \<Rightarrow> server_state" where
  "begin_join s = s\<lparr>run_main := Joining, run_pool := thread_pool_stop (run_pool s)\<rparr>"

text \<open>A connection at its beginning, whatever the peer and the network will do.\<close>

definition fresh_conn :: "conn \<Rightarrow> bool" where
  "fresh_conn c \<longleftrightarrow> outgoing c = [] \<and> open_files c = 0 \<and> closes c = 0"

definition close_times :: "nat \<Rightarrow> fd \<Rightarrow> fd list \<Rightarrow> fd list" where
  "close_times n fd fds = (close_fd fd ^^ n) fds"

text \<open>
  The steps of the threads: the loop of \<^verbatim>\<open>server_run\<close>, the workers, whose handler is
  \<^verbatim>\<open>handle_client\<close>, and the second part of a signal handler.
\<close>

inductive run_step :: "server_state \<Rightarrow> server_state \<Rightarrow> bool" where
  test_stop: "run_main s = Testing \<Longrightarrow> run_stop s \<Longrightarrow> run_step s (s\<lparr>run_main := Stopping\<rparr>)"
| test_go: "run_main s = Testing \<Longrightarrow> \<not> run_stop s \<Longrightarrow> run_step s (s\<lparr>run_main := Accepting\<rparr>)"
| accept: "run_main s = Accepting \<Longrightarrow> client_fd \<ge> 0 \<Longrightarrow> client_fd \<notin> set (run_fds s) \<Longrightarrow>
    run_step s (s\<lparr>run_main := Holding client_fd, run_accepted := run_accepted s @ [client_fd],
      run_fds := client_fd # run_fds s\<rparr>)"
| accept_again: "run_main s = Accepting \<Longrightarrow> run_step s (s\<lparr>run_main := Testing\<rparr>)"
| accept_stop: "run_main s = Accepting \<Longrightarrow> run_stop s \<Longrightarrow> run_step s (s\<lparr>run_main := Stopping\<rparr>)"
| enqueue: "run_main s = Holding client_fd \<Longrightarrow> \<not> run_locked s \<Longrightarrow> submit_step (run_pool s) client_fd QUEUE_OK p \<Longrightarrow>
    run_step s (s\<lparr>run_main := Testing, run_pool := p\<rparr>)"
| full: "run_main s = Holding client_fd \<Longrightarrow> \<not> run_locked s \<Longrightarrow> submit_step (run_pool s) client_fd QUEUE_FULL p \<Longrightarrow>
    run_step s (s\<lparr>run_main := Rejecting client_fd, run_pool := p\<rparr>)"
| reject: "run_main s = Rejecting client_fd \<Longrightarrow> fresh_conn c \<Longrightarrow> reject_client peer local_time c = (entry, c') \<Longrightarrow>
    run_step s (s\<lparr>run_main := Testing, run_rejected := run_rejected s @ [client_fd],
      run_fds := close_times (closes c') client_fd (run_fds s), run_replies := run_replies s @ [(c, entry, c')]\<rparr>)"
| drop: "run_main s = Holding client_fd \<Longrightarrow> \<not> run_locked s \<Longrightarrow> submit_step (run_pool s) client_fd r p \<Longrightarrow>
    r \<noteq> QUEUE_OK \<Longrightarrow> r \<noteq> QUEUE_FULL \<Longrightarrow>
    run_step s (s\<lparr>run_main := Testing, run_pool := p, run_dropped := run_dropped s @ [client_fd],
      run_fds := close_fd client_fd (run_fds s)\<rparr>)"
| stop_pool: "run_main s = Stopping \<Longrightarrow> \<not> run_locked s \<Longrightarrow> run_step s (begin_join s)"
| joined: "run_main s = Joining \<Longrightarrow> all_done (run_pool s) \<Longrightarrow> \<not> run_signal s \<Longrightarrow>
    run_step s (s\<lparr>run_main := Returned, run_pool := threads_joined (run_pool s)\<rparr>)"
| dequeue: "\<not> run_locked s \<Longrightarrow> worker_step (run_pool s) p \<Longrightarrow> finished p = finished (run_pool s) \<Longrightarrow>
    run_step s (s\<lparr>run_pool := p\<rparr>)"
| handle: "worker_step (run_pool s) p \<Longrightarrow> finished p = finished (run_pool s) @ [client_fd] \<Longrightarrow> fresh_conn c \<Longrightarrow>
    env_doc_root env = run_root s \<Longrightarrow> handle_client env request request_line c = (entries, c') \<Longrightarrow>
    run_step s (s\<lparr>run_pool := p, run_fds := close_times (closes c') client_fd (run_fds s)\<rparr>)"
| handler_shutdown: "run_signal s \<Longrightarrow> \<not> run_locked s \<Longrightarrow>
    run_step s (s\<lparr>run_signal := False, run_pool := pool_shutdown (run_pool s)\<rparr>)"

text \<open>A thread may hold the mutex: in the enqueue, in a shutdown, or at the queue as a worker.\<close>

definition in_section :: "server_state \<Rightarrow> bool" where
  "in_section s \<longleftrightarrow> (\<exists>fd. run_main s = Holding fd) \<or> run_main s = Stopping \<or> run_signal s \<or>
     (\<exists>w \<in> set (workers (run_pool s)). at_dequeue w)"

text \<open>The first part of \<^verbatim>\<open>server_stop\<close>: the flag, and the listening socket.\<close>

definition stop_accepting :: "server_state \<Rightarrow> server_state" where
  "stop_accepting s = s\<lparr>run_stop := True, run_listen := - 1,
     run_fds := (if run_listen s \<ge> 0 then close_fd (run_listen s) (run_fds s) else run_fds s)\<rparr>"

inductive signal_step :: "server_state \<Rightarrow> server_state \<Rightarrow> bool" where
  outside: "run_main s \<noteq> Returned \<Longrightarrow> signal_step s ((stop_accepting s)\<lparr>run_signal := True\<rparr>)"
| inside: "run_main s \<noteq> Returned \<Longrightarrow> in_section s \<Longrightarrow> signal_step s ((stop_accepting s)\<lparr>run_locked := True\<rparr>)"

definition server_step :: "server_state \<Rightarrow> server_state \<Rightarrow> bool" where
  "server_step s t \<longleftrightarrow> run_step s t \<or> signal_step s t"

text \<open>
  \<^verbatim>\<open>server_run\<close>: 1 when the pool does not start; else the loop, and 0 when it has returned; with
  the server and what the process has open after it.
\<close>

definition running :: "server \<Rightarrow> pool_state \<Rightarrow> fd list \<Rightarrow> server_state" where
  "running server pool fds = \<lparr>run_pool = pool, run_root = cfg_doc_root (srv_config server), run_stop = should_stop server,
     run_listen = listen_fd server, run_main = Testing, run_accepted = [], run_rejected = [], run_dropped = [],
     run_fds = fds, run_replies = [], run_signal = False, run_locked = False\<rparr>"

inductive server_run :: "server \<Rightarrow> sys \<Rightarrow> int \<Rightarrow> server \<Rightarrow> sys \<Rightarrow> bool" where
  not_started: "srv_queue server = Some q \<Longrightarrow>
    thread_pool_start q (cfg_thread_count (srv_config server)) (sys_heap sys) = (code, pool, heap) \<Longrightarrow> code \<noteq> 0 \<Longrightarrow>
    server_run server sys 1
      (server\<lparr>srv_queue := Some (case pool of None \<Rightarrow> q | Some p \<Rightarrow> pool_queue p)\<rparr>) (sys\<lparr>sys_heap := heap\<rparr>)"
| returned: "srv_queue server = Some q \<Longrightarrow>
    thread_pool_start q (cfg_thread_count (srv_config server)) (sys_heap sys) = (0, Some pool, heap) \<Longrightarrow>
    server_step\<^sup>*\<^sup>* (running server pool (sys_fds sys)) s \<Longrightarrow> run_main s = Returned \<Longrightarrow>
    server_run server sys 0
      (server\<lparr>listen_fd := run_listen s, should_stop := run_stop s, srv_queue := Some (pool_queue (run_pool s))\<rparr>)
      (sys\<lparr>sys_heap := heap, sys_fds := run_fds s\<rparr>)"

section \<open>The invariant of the running server\<close>

definition held :: "main_point \<Rightarrow> fd list" where
  "held m = (case m of Holding fd \<Rightarrow> [fd] | Rejecting fd \<Rightarrow> [fd] | _ \<Rightarrow> [])"

lemma held_simps [simp]:
  "held Testing = []" "held Accepting = []" "held (Holding fd) = [fd]" "held (Rejecting fd) = [fd]"
  "held Stopping = []" "held Joining = []" "held Returned = []"
  by (simp_all add: held_def)

definition server_inv :: "nat \<Rightarrow> server_state \<Rightarrow> bool" where
  "server_inv n s \<longleftrightarrow>
     reachable (run_pool s) \<and> length (workers (run_pool s)) = n \<and>
     mset (run_accepted s) = mset (accepted (run_pool s)) + mset (run_rejected s) + mset (run_dropped s) + mset (held (run_main s)) \<and>
     (run_main s = Joining \<or> run_main s = Returned \<longrightarrow> q_shutdown (pool_queue (run_pool s))) \<and>
     (run_main s = Returned \<longrightarrow> all_done (run_pool s) \<and> thread_table (run_pool s) = None)"

lemma worker_step_accepted: "worker_step s t \<Longrightarrow> accepted t = accepted s"
  by (induction rule: worker_step.induct) simp_all

lemma worker_step_keeps_closed: "worker_step s t \<Longrightarrow> reachable s \<Longrightarrow> q_shutdown (pool_queue s) \<Longrightarrow> q_shutdown (pool_queue t)"
  using worker_step_closed reachable_inv by blast

lemma all_done_no_step: "worker_step s t \<Longrightarrow> all_done s \<Longrightarrow> False"
  by (induction rule: worker_step.induct) (auto simp: all_done_def list_all_length)

lemma submit_step_refused: "submit_step s fd r t \<Longrightarrow> r \<noteq> QUEUE_OK \<Longrightarrow> t = s"
  by (induction rule: submit_step.induct) auto

lemma submit_step_queued:
  assumes "submit_step s fd QUEUE_OK t"
  shows "accepted t = accepted s @ [fd] \<and> length (workers t) = length (workers s) \<and> finished t = finished s"
  using assms by (auto elim!: submit_okE signal_not_empty.cases)

lemma pool_shutdown_effect [simp]:
  "accepted (pool_shutdown s) = accepted s" "length (workers (pool_shutdown s)) = length (workers s)"
  "q_shutdown (pool_queue (pool_shutdown s))" "finished (pool_shutdown s) = finished s"
  "thread_table (pool_shutdown s) = thread_table s"
  by (simp_all add: pool_shutdown_def shutdown_locked_def)

lemma threads_joined_simps [simp]:
  "pool_queue (threads_joined p) = pool_queue p" "workers (threads_joined p) = workers p"
  "accepted (threads_joined p) = accepted p" "finished (threads_joined p) = finished p"
  "thread_table (threads_joined p) = None" "all_done (threads_joined p) = all_done p"
  by (simp_all add: threads_joined_def all_done_def)

lemma thread_pool_stop_effect:
  assumes "reachable p"
  shows "reachable (thread_pool_stop p)" "q_shutdown (pool_queue (thread_pool_stop p))"
    "accepted (thread_pool_stop p) = accepted p" "length (workers (thread_pool_stop p)) = length (workers p)"
    "finished (thread_pool_stop p) = finished p"
  using thread_pool_stop_closed [OF reachable_inv [OF assms]] reachable.step [OF assms pool_step.shutdown] assms
  by (auto simp: thread_pool_stop_def)

lemma all_done_shutdown: "all_done p \<Longrightarrow> all_done (pool_shutdown p)"
  by (simp add: all_done_def pool_shutdown_def list_all_length wake_def)

lemma reachable_shutdown [intro]: "reachable s \<Longrightarrow> reachable (pool_shutdown s)"
  by (rule reachable.step [OF _ pool_step.shutdown])

lemma run_step_inv: "run_step s t \<Longrightarrow> server_inv n s \<Longrightarrow> server_inv n t"
proof (induction rule: run_step.induct)
  case (enqueue s fd p)
  have "reachable p" using enqueue reachable.step [OF _ pool_step.submit] by (auto simp: server_inv_def)
  with enqueue submit_step_queued [OF enqueue(3)] show ?case by (auto simp: server_inv_def)
next
  case (full s fd p)
  with submit_step_refused [OF full(3)] show ?case by (auto simp: server_inv_def)
next
  case (drop s fd r p)
  with submit_step_refused [OF drop(3,4)] show ?case by (auto simp: server_inv_def)
next
  case (stop_pool s)
  with thread_pool_stop_effect [of "run_pool s"] show ?case by (auto simp: server_inv_def begin_join_def)
next
  case (joined s)
  with reachable.step [OF _ pool_step.join] show ?case by (auto simp: server_inv_def)
next
  case (dequeue s p)
  have "reachable p" using dequeue reachable.step [OF _ pool_step.worker] by (auto simp: server_inv_def)
  with dequeue worker_step_accepted [OF dequeue(2)] worker_step_length [OF dequeue(2)]
    worker_step_keeps_closed [OF dequeue(2)] all_done_no_step [OF dequeue(2)] show ?case
    by (auto simp: server_inv_def)
next
  case (handle s p)
  have "reachable p" using handle reachable.step [OF _ pool_step.worker] by (auto simp: server_inv_def)
  with handle worker_step_accepted [OF handle(1)] worker_step_length [OF handle(1)]
    worker_step_keeps_closed [OF handle(1)] all_done_no_step [OF handle(1)] show ?case
    by (auto simp: server_inv_def)
qed (auto simp: server_inv_def all_done_shutdown)

lemma stop_accepting_simps [simp]:
  "run_pool (stop_accepting s) = run_pool s" "run_main (stop_accepting s) = run_main s"
  "run_accepted (stop_accepting s) = run_accepted s" "run_rejected (stop_accepting s) = run_rejected s"
  "run_dropped (stop_accepting s) = run_dropped s" "run_replies (stop_accepting s) = run_replies s"
  "run_stop (stop_accepting s)" "run_signal (stop_accepting s) = run_signal s" "run_locked (stop_accepting s) = run_locked s"
  "run_listen (stop_accepting s) = - 1"
  by (simp_all add: stop_accepting_def)

lemma signal_step_inv: "signal_step s t \<Longrightarrow> server_inv n s \<Longrightarrow> server_inv n t"
  by (induction rule: signal_step.induct) (simp_all add: server_inv_def)

lemma server_step_inv: "server_step s t \<Longrightarrow> server_inv n s \<Longrightarrow> server_inv n t"
  unfolding server_step_def using run_step_inv signal_step_inv by blast

lemma run_steps_server: "run_step\<^sup>*\<^sup>* s t \<Longrightarrow> server_step\<^sup>*\<^sup>* s t"
  by (erule rtranclp_mono [THEN predicate2D, rotated]) (auto simp: server_step_def)

lemma server_steps_inv: "server_step\<^sup>*\<^sup>* s t \<Longrightarrow> server_inv n s \<Longrightarrow> server_inv n t"
  by (induction rule: rtranclp_induct) (auto intro: server_step_inv)

lemma running_inv:
  assumes "reachable pool" "accepted pool = []"
  shows "server_inv (length (workers pool)) (running server pool fds)"
  using assms by (simp add: server_inv_def running_def)

lemma server_inv_balance:
  assumes "server_inv n s"
  shows "mset (run_accepted s) = mset (finished (run_pool s)) + mset (handling (workers (run_pool s))) +
    mset (queue_list (pool_queue (run_pool s))) + mset (run_rejected s) + mset (run_dropped s) + mset (held (run_main s))"
proof -
  note D = pool_invD [OF reachable_inv, of "run_pool s"]
  from assms have "mset (accepted (run_pool s)) =
      mset (finished (run_pool s)) + mset (handling (workers (run_pool s))) + mset (queue_list (pool_queue (run_pool s)))"
    using D(2,3) by (simp add: server_inv_def)
  with assms show ?thesis by (simp add: server_inv_def)
qed

lemma server_inv_returned:
  assumes "server_inv n s" "run_main s = Returned" "n \<noteq> 0"
  shows "handling (workers (run_pool s)) = []" "queue_list (pool_queue (run_pool s)) = []"
proof -
  from assms have fin: "all_done (run_pool s)" and pool: "pool_inv (run_pool s)" and w: "workers (run_pool s) \<noteq> []"
    by (auto simp: server_inv_def reachable_inv)
  from all_done_drained [OF pool fin w] all_done_handling [OF fin [unfolded all_done_def]]
  show "handling (workers (run_pool s)) = []" "queue_list (pool_queue (run_pool s)) = []" by simp_all
qed

section \<open>What the running server has open\<close>

text \<open>
  Every open descriptor is one of before, the listening socket, or an accepted connection that
  is neither handled nor closed by the accepting thread.
\<close>

definition listening :: "server_state \<Rightarrow> fd multiset" where
  "listening s = (if run_listen s \<ge> 0 then {#run_listen s#} else {#})"

definition fd_inv :: "fd multiset \<Rightarrow> server_state \<Rightarrow> bool" where
  "fd_inv b s \<longleftrightarrow>
     mset (run_fds s) + mset (finished (run_pool s)) + mset (run_rejected s) + mset (run_dropped s) =
       b + listening s + mset (run_accepted s)"

lemma fd_inv_open:
  assumes "fd_inv b s" "server_inv n s"
  shows "mset (run_fds s) = b + listening s + mset (handling (workers (run_pool s))) +
    mset (queue_list (pool_queue (run_pool s))) + mset (held (run_main s))"
  using assms(1) server_inv_balance [OF assms(2)] by (simp add: fd_inv_def)

lemma mset_close_fd: "fd \<in># mset fds \<Longrightarrow> mset fds = add_mset fd (mset (close_fd fd fds))"
  by (simp add: close_fd_def)

lemma close_times_simps [simp]: "close_times 0 fd fds = fds" "close_times (Suc 0) fd fds = close_fd fd fds"
  by (simp_all add: close_times_def)

lemma mem_handling: "x \<in> set (handling ws) \<longleftrightarrow> Handling x \<in> set ws"
  by (induction ws) (auto split: worker.split)

lemma worker_step_handled:
  "worker_step s p \<Longrightarrow> finished p = finished s @ [x] \<Longrightarrow> x \<in> set (handling (workers s)) \<and> Ready \<in> set (workers p)"
proof (induction rule: worker_step.induct)
  case (handled i s y)
  then show ?case by (auto simp: mem_handling set_update_memI) (metis nth_mem)
qed simp_all

lemma reject_client_effect:
  assumes "reject_client peer local_time c = (entry, c')"
  shows "closes c' = Suc (closes c)"
    "link_up (send_script c) \<Longrightarrow>
      outgoing c' = outgoing c @ simple_headers None 503 (of_nat (length unavailable_body)) False @ unavailable_body \<and>
      entry = Entry (get_client_ip peer) ''-'' 503 (of_nat (length unavailable_body)) local_time"
    "outgoing c' = outgoing c \<Longrightarrow> entry = Entry (get_client_ip peer) ''-'' 0 0 local_time"
proof -
  obtain r response c1 where s: "send_simple_response c None 503 unavailable_body False no_result = (r, response, c1)"
    by (metis prod_cases3)
  have e: "entry = Entry (get_client_ip peer) ''-'' (status_code response) (body_bytes response) local_time"
    "c' = c1\<lparr>closes := Suc (closes c1)\<rparr>"
    using assms by (simp_all add: reject_client_def s)
  have R: "responds c (simple_headers None 503 (of_nat (length unavailable_body)) False @ unavailable_body) 503
      (of_nat (length unavailable_body)) no_result (r, response, c1)"
    using send_simple_response_responds [of 503 c None unavailable_body False no_result] s by (simp add: sends_body_def)
  have "response = no_result" if "outgoing c1 = outgoing c"
    using R that by (auto simp: responds_def delivered_OK unavailable_body_def)
  with R respondsD [OF R] e show "closes c' = Suc (closes c)"
    "link_up (send_script c) \<Longrightarrow>
      outgoing c' = outgoing c @ simple_headers None 503 (of_nat (length unavailable_body)) False @ unavailable_body \<and>
      entry = Entry (get_client_ip peer) ''-'' 503 (of_nat (length unavailable_body)) local_time"
    "outgoing c' = outgoing c \<Longrightarrow> entry = Entry (get_client_ip peer) ''-'' 0 0 local_time"
    by (auto simp: responds_def no_result_def)
qed

lemma worker_step_finished: "worker_step s p \<Longrightarrow> finished p = finished s \<or> (\<exists>x. finished p = finished s @ [x])"
  by (induction rule: worker_step.induct) auto

lemma run_step_fds: "run_step s t \<Longrightarrow> server_inv n s \<Longrightarrow> fd_inv b s \<Longrightarrow> fd_inv b t"
proof (induction rule: run_step.induct)
  case (enqueue s fd p)
  with submit_step_queued [OF enqueue(3)] show ?case by (simp add: fd_inv_def listening_def)
next
  case (full s fd p)
  with submit_step_refused [OF full(3)] show ?case by (simp add: fd_inv_def listening_def)
next
  case (reject s fd c peer local_time entry c')
  have "fd \<in># mset (run_fds s)" using fd_inv_open [OF reject(5,4)] reject(1) by simp
  with reject reject_client_effect(1) [OF reject(3)] mset_close_fd [of fd "run_fds s"] show ?case
    by (simp add: fd_inv_def listening_def fresh_conn_def)
next
  case (drop s fd r p)
  have "fd \<in># mset (run_fds s)" using fd_inv_open [OF drop(7,6)] drop(1) by simp
  with drop submit_step_refused [OF drop(3,4)] mset_close_fd [of fd "run_fds s"] show ?case
    by (simp add: fd_inv_def listening_def)
next
  case (stop_pool s)
  with thread_pool_stop_effect [of "run_pool s"] show ?case
    by (simp add: fd_inv_def listening_def begin_join_def server_inv_def)
next
  case (handle s p fd c env request request_line entries c')
  have "fd \<in># mset (run_fds s)"
    using fd_inv_open [OF handle(7,6)] worker_step_handled [OF handle(1,2)] by simp
  moreover have "closes c' = Suc 0"
    using handle_client_io [of env request request_line c] handle(3,5) by (simp add: fresh_conn_def)
  ultimately show ?case
    using handle mset_close_fd [of fd "run_fds s"] by (simp add: fd_inv_def listening_def)
qed (simp_all add: fd_inv_def listening_def)

lemma signal_step_fds: "signal_step s t \<Longrightarrow> server_inv n s \<Longrightarrow> fd_inv b s \<Longrightarrow> fd_inv b t"
proof -
  assume step: "signal_step s t" and inv: "server_inv n s" "fd_inv b s"
  have "mset (run_fds s) = mset (run_fds (stop_accepting s)) + listening s"
  proof (cases "run_listen s \<ge> 0")
    case True
    with fd_inv_open [OF inv(2,1)] have "run_listen s \<in># mset (run_fds s)" by (simp add: listening_def)
    with mset_close_fd [OF this] True show ?thesis by (simp add: stop_accepting_def listening_def)
  qed (simp add: stop_accepting_def listening_def)
  with inv(2) have "fd_inv b (stop_accepting s)" by (simp add: fd_inv_def listening_def [of "stop_accepting s"] ac_simps)
  with step show "fd_inv b t" by (cases rule: signal_step.cases) (simp_all add: fd_inv_def listening_def)
qed

lemma server_steps_fds: "server_step\<^sup>*\<^sup>* s t \<Longrightarrow> server_inv n s \<Longrightarrow> fd_inv b s \<Longrightarrow> fd_inv b t"
proof (induction rule: rtranclp_induct)
  case (step t u)
  with server_steps_inv [OF step(1,4)] show ?case
    unfolding server_step_def using run_step_fds signal_step_fds by blast
qed

section \<open>Stopping\<close>

text \<open>
  A deadlock lasts: the thread that is stuck in the handler, and every thread that needs the
  mutex, stays where it is.
\<close>

definition deadlocked :: "server_state \<Rightarrow> bool" where
  "deadlocked s \<longleftrightarrow> run_locked s \<and> run_main s \<noteq> Returned \<and> in_section s"

lemma all_done_not_at_dequeue: "all_done p \<Longrightarrow> w \<in> set (workers p) \<Longrightarrow> \<not> at_dequeue w"
  by (auto simp: all_done_def list_all_iff)

lemma run_step_deadlocked: "run_step s t \<Longrightarrow> deadlocked s \<Longrightarrow> deadlocked t"
proof (induction rule: run_step.induct)
  case (joined s)
  then show ?case using all_done_not_at_dequeue by (auto simp: deadlocked_def in_section_def)
next
  case (handle s p)
  have "\<exists>w \<in> set (workers p). at_dequeue w"
    using worker_step_handled [OF handle(1,2)] at_dequeue_simps(1) by blast
  with handle show ?case by (simp add: deadlocked_def in_section_def)
qed (auto simp: deadlocked_def in_section_def)

lemma signal_step_deadlocked: "signal_step s t \<Longrightarrow> deadlocked s \<Longrightarrow> deadlocked t"
  by (induction rule: signal_step.induct) (auto simp: deadlocked_def in_section_def)

lemma server_steps_deadlocked: "server_step\<^sup>*\<^sup>* s t \<Longrightarrow> deadlocked s \<Longrightarrow> deadlocked t"
  by (induction rule: rtranclp_induct) (auto simp: server_step_def intro: run_step_deadlocked signal_step_deadlocked)

lemma run_step_keeps_flags: "run_step s t \<Longrightarrow> run_stop t = run_stop s \<and> run_locked t = run_locked s"
  by (induction rule: run_step.induct) (simp_all add: begin_join_def)

lemma run_step_keeps_closed:
  "run_step s t \<Longrightarrow> server_inv n s \<Longrightarrow> q_shutdown (pool_queue (run_pool s)) \<Longrightarrow> q_shutdown (pool_queue (run_pool t))"
proof (induction rule: run_step.induct)
  case (enqueue s fd p)
  then show ?case by (auto elim!: submit_okE simp: enqueue_locked_def)
next
  case (full s fd p)
  with submit_step_refused [OF full(3)] show ?case by simp
next
  case (drop s fd r p)
  with submit_step_refused [OF drop(3,4)] show ?case by simp
next
  case (stop_pool s)
  with thread_pool_stop_effect [of "run_pool s"] show ?case by (simp add: server_inv_def begin_join_def)
next
  case (dequeue s p)
  with worker_step_keeps_closed [OF dequeue(2)] show ?case by (simp add: server_inv_def)
next
  case (handle s p)
  with worker_step_keeps_closed [OF handle(1)] show ?case by (simp add: server_inv_def)
qed simp_all

text \<open>What a stop has brought about: a lock, a pending handler, or a closed queue.\<close>

definition stop_inv :: "server_state \<Rightarrow> bool" where
  "stop_inv s \<longleftrightarrow> (run_locked s \<longrightarrow> deadlocked s) \<and>
     (run_stop s \<longrightarrow> run_locked s \<or> run_signal s \<or> q_shutdown (pool_queue (run_pool s)))"

lemma run_step_stop_inv:
  assumes "run_step s t" "server_inv n s" "stop_inv s"
  shows "stop_inv t"
proof -
  have "run_signal t \<or> q_shutdown (pool_queue (run_pool t))" if "run_signal s"
    using assms(1) that by (induction rule: run_step.induct) (simp_all add: begin_join_def)
  with run_step_keeps_flags [OF assms(1)] run_step_keeps_closed [OF assms(1,2)] run_step_deadlocked [OF assms(1)] assms(3)
  show ?thesis by (auto simp: stop_inv_def)
qed

lemma signal_step_stop_inv: "signal_step s t \<Longrightarrow> stop_inv s \<Longrightarrow> stop_inv t"
  by (induction rule: signal_step.induct) (auto simp: stop_inv_def deadlocked_def in_section_def)

lemma server_steps_stop_inv: "server_step\<^sup>*\<^sup>* s t \<Longrightarrow> server_inv n s \<Longrightarrow> stop_inv s \<Longrightarrow> stop_inv t"
proof (induction rule: rtranclp_induct)
  case (step t u)
  with server_steps_inv [OF step(1,4)] show ?case
    unfolding server_step_def using run_step_stop_inv signal_step_stop_inv by blast
qed

text \<open>The steps the threads can still take once the queue is closed.\<close>

fun main_rank :: "main_point \<Rightarrow> nat" where
  "main_rank Returned = 0"
| "main_rank Joining = 1"
| "main_rank Stopping = 2"
| "main_rank Testing = 3"
| "main_rank (Rejecting _) = 4"
| "main_rank (Holding _) = 5"
| "main_rank Accepting = 6"

definition stop_work :: "server_state \<Rightarrow> nat" where
  "stop_work s = pool_work (run_pool s) + main_rank (run_main s) + (if run_signal s then 1 else 0)"

lemma pool_shutdown_closed:
  assumes "pool_inv p" "q_shutdown (pool_queue p)"
  shows "pool_shutdown p = p"
proof -
  have "map wake (workers p) = workers p"
    using pool_invD(4) [OF assms] by (intro map_idI) (auto simp: wake_def)
  moreover have "shutdown_locked (pool_queue p) = pool_queue p" using assms(2) by (simp add: shutdown_locked_def)
  ultimately show ?thesis by (simp add: pool_shutdown_def)
qed

lemma run_step_work:
  "run_step s t \<Longrightarrow> server_inv n s \<Longrightarrow> run_stop s \<Longrightarrow> q_shutdown (pool_queue (run_pool s)) \<Longrightarrow> stop_work t < stop_work s"
proof (induction rule: run_step.induct)
  case (enqueue s fd p)
  then show ?case by (auto elim!: submit_okE simp: enqueue_locked_def)
next
  case (full s fd p)
  with submit_step_refused [OF full(3)] show ?case by (simp add: stop_work_def)
next
  case (drop s fd r p)
  with submit_step_refused [OF drop(3,4)] show ?case by (simp add: stop_work_def)
next
  case (stop_pool s)
  with pool_shutdown_closed [OF reachable_inv] show ?case
    by (simp add: server_inv_def begin_join_def thread_pool_stop_def stop_work_def)
next
  case (dequeue s p)
  with worker_step_closed [OF dequeue(2) reachable_inv] show ?case by (simp add: stop_work_def server_inv_def)
next
  case (handle s p)
  with worker_step_closed [OF handle(1) reachable_inv] show ?case by (simp add: stop_work_def server_inv_def)
next
  case (handler_shutdown s)
  with pool_shutdown_closed [OF reachable_inv] show ?case by (simp add: stop_work_def server_inv_def)
qed (simp_all add: stop_work_def pool_work_def)

lemma run_steps_work:
  assumes "(run_step ^^ m) s t" "server_inv n s" "run_stop s" "q_shutdown (pool_queue (run_pool s))" "\<not> run_locked s"
  shows "m + stop_work t \<le> stop_work s \<and> server_inv n t \<and> run_stop t \<and> q_shutdown (pool_queue (run_pool t)) \<and> \<not> run_locked t"
  using assms(1)
proof (induction m arbitrary: t)
  case 0
  then show ?case using assms by simp
next
  case (Suc m)
  then obtain u where u: "(run_step ^^ m) s u" "run_step u t" by auto
  note I = Suc.IH [OF u(1)]
  then have "server_inv n u" by simp
  from run_step_work [OF u(2) this] run_step_inv [OF u(2) this] run_step_keeps_closed [OF u(2) this]
    run_step_keeps_flags [OF u(2)] I show ?case by simp
qed

lemma submit_possible: "\<exists>r p. submit_step s fd r p"
proof -
  obtain r q where e: "enqueue_locked fd (pool_queue s) = (r, q)" by fastforce
  show ?thesis
  proof (cases "r = QUEUE_OK")
    case True
    have "\<exists>ws. signal_not_empty (workers s) ws"
      using signal_not_empty.intros by (metis in_set_conv_nth)
    with True e submit_step.queued show ?thesis by metis
  next
    case False
    with e submit_step.refused show ?thesis by metis
  qed
qed

lemma holding_step: "run_main s = Holding fd \<Longrightarrow> \<not> run_locked s \<Longrightarrow> \<exists>u. run_step s u"
  using submit_possible [of "run_pool s" fd] run_step.enqueue run_step.full run_step.drop by metis

lemma ex_fresh_conn: "\<exists>c. fresh_conn c"
  by (intro exI [of _ "\<lparr>incoming = [], send_script = [], outgoing = [], open_files = 0, closes = 0\<rparr>"])
    (simp add: fresh_conn_def)

lemma worker_run_step:
  assumes "worker_step (run_pool s) p" "\<not> run_locked s"
  shows "\<exists>u. run_step s u"
  using worker_step_finished [OF assms(1)]
proof
  assume "\<exists>x. finished p = finished (run_pool s) @ [x]"
  then obtain x where x: "finished p = finished (run_pool s) @ [x]" ..
  obtain c where c: "fresh_conn c" using ex_fresh_conn ..
  define env where "env = \<lparr>env_doc_root = run_root s, env_os = undefined, env_clock = undefined, env_peer = None\<rparr>"
  have "env_doc_root env = run_root s" by (simp add: env_def)
  from run_step.handle [OF assms(1) x c this prod.collapse [symmetric]] show ?thesis by blast
qed (use assms run_step.dequeue in blast)

lemma stop_progress:
  assumes "server_inv n s" "run_stop s" "q_shutdown (pool_queue (run_pool s))" "\<not> run_locked s" "run_main s \<noteq> Returned"
  shows "\<exists>u. run_step s u"
proof (cases "run_main s")
  case Testing
  with assms run_step.test_stop show ?thesis by blast
next
  case Accepting
  with assms run_step.accept_stop show ?thesis by blast
next
  case (Holding fd)
  with assms holding_step show ?thesis by blast
next
  case (Rejecting fd)
  obtain c where "fresh_conn c" using ex_fresh_conn ..
  from run_step.reject [OF Rejecting this prod.collapse [symmetric]] show ?thesis by blast
next
  case Stopping
  with assms run_step.stop_pool show ?thesis by blast
next
  case Joining
  show ?thesis
  proof (cases "run_signal s")
    case True
    with assms run_step.handler_shutdown show ?thesis by blast
  next
    case False
    show ?thesis
    proof (cases "all_done (run_pool s)")
      case True
      with Joining False run_step.joined show ?thesis by blast
    next
      case False
      from assms(1) have "pool_inv (run_pool s)" by (simp add: server_inv_def reachable_inv)
      from closed_progress [OF this assms(3) False] worker_run_step assms(4) show ?thesis by blast
    qed
  qed
qed (use assms in simp)

lemma stopped_server_returns:
  assumes "server_inv n s" "run_stop s" "q_shutdown (pool_queue (run_pool s))" "\<not> run_locked s"
  shows "\<exists>t. run_step\<^sup>*\<^sup>* s t \<and> run_main t = Returned"
proof -
  from bounded_run_ends [of run_step s "stop_work s"] run_steps_work [OF _ assms] obtain m t where
    t: "(run_step ^^ m) s t" "\<forall>u. \<not> run_step t u" by fastforce
  with run_steps_work [OF t(1) assms] stop_progress [of n t] have "run_main t = Returned" by blast
  with relpowp_imp_rtranclp [OF t(1)] show ?thesis by blast
qed

text \<open>A run that is always possible: one connection is accepted, and then a signal arrives.\<close>

lemma accept_run:
  assumes "\<not> should_stop server" "0 \<le> x" "x \<notin> set fds"
  shows "server_step\<^sup>*\<^sup>* (running server pool fds)
    ((running server pool fds)\<lparr>run_main := Holding x, run_accepted := [x], run_fds := x # fds\<rparr>)"
proof -
  define s where "s = running server pool fds"
  have s: "run_main s = Testing" "\<not> run_stop s" "run_accepted s = []" "run_fds s = fds"
    using assms(1) by (simp_all add: s_def running_def)
  have "run_step s (s\<lparr>run_main := Accepting\<rparr>)" by (rule run_step.test_go [OF s(1,2)])
  moreover have "run_step (s\<lparr>run_main := Accepting\<rparr>) (s\<lparr>run_main := Holding x, run_accepted := [x], run_fds := x # fds\<rparr>)"
    using run_step.accept [of "s\<lparr>run_main := Accepting\<rparr>" x] s(3,4) assms(2,3) by simp
  ultimately have "run_step\<^sup>*\<^sup>* s (s\<lparr>run_main := Holding x, run_accepted := [x], run_fds := x # fds\<rparr>)"
    by (meson converse_rtranclp_into_rtranclp r_into_rtranclp)
  then show ?thesis unfolding s_def by (rule run_steps_server)
qed

lemma accept_then_stop:
  assumes "\<not> should_stop server" "0 \<le> x" "x \<notin> set fds"
  shows "\<exists>s. server_step\<^sup>*\<^sup>* (running server pool fds) s \<and>
    run_accepted s = [x] \<and> run_stop s \<and> \<not> run_locked s \<and> q_shutdown (pool_queue (run_pool s))"
proof -
  define s where "s = (running server pool fds)\<lparr>run_main := Holding x, run_accepted := [x], run_fds := x # fds\<rparr>"
  define t where "t = (stop_accepting s)\<lparr>run_signal := True\<rparr>"
  have s: "run_main s \<noteq> Returned" "\<not> run_locked s" "run_accepted s = [x]" by (simp_all add: s_def running_def)
  have "server_step s t" unfolding t_def server_step_def using signal_step.outside [OF s(1)] by blast
  moreover have "server_step t (t\<lparr>run_signal := False, run_pool := pool_shutdown (run_pool t)\<rparr>)"
    unfolding server_step_def using run_step.handler_shutdown [of t] s(2) by (simp add: t_def)
  ultimately have "server_step\<^sup>*\<^sup>* s (t\<lparr>run_signal := False, run_pool := pool_shutdown (run_pool t)\<rparr>)"
    by (meson converse_rtranclp_into_rtranclp r_into_rtranclp)
  with accept_run [OF assms, of pool, folded s_def] show ?thesis
    by (intro exI [of _ "t\<lparr>run_signal := False, run_pool := pool_shutdown (run_pool t)\<rparr>"])
      (auto simp: t_def s intro: rtranclp_trans)
qed

section \<open>Resources\<close>

definition resources :: "sys \<Rightarrow> nat \<times> nat \<times> fd list" where
  "resources sys = (sys_streams sys, sys_queues sys, sys_fds sys)"

text \<open>\<^verbatim>\<open>socket\<close> returns -1 or a descriptor that is not negative.\<close>

definition valid_net :: "net \<Rightarrow> bool" where
  "valid_net net \<longleftrightarrow>
     (\<forall>host port addresses. net_getaddrinfo net host port = Some addresses \<longrightarrow>
        (\<forall>rp \<in> set addresses. \<forall>fd. at_socket rp = Some fd \<longrightarrow> fd \<ge> 0))"

lemma try_addresses_fds:
  assumes "try_addresses addresses fds = (fd, fds')" "\<forall>rp \<in> set addresses. \<forall>fd. at_socket rp = Some fd \<longrightarrow> fd \<ge> 0"
  shows "if fd < 0 then fds' = fds else fds' = fd # fds"
  using assms
proof (induction addresses fds arbitrary: fd fds' rule: try_addresses.induct)
  case (2 rp rest fds)
  then show ?case by (auto simp: Let_def close_fd_def split: option.splits if_splits)
qed simp

lemma create_listening_socket_fds:
  assumes "create_listening_socket net config fds = (fd, fds')" "valid_net net"
  shows "if fd < 0 then fds' = fds else fds' = fd # fds"
  using assms try_addresses_fds [of _ fds fd fds']
  by (auto simp: create_listening_socket_def valid_net_def split: option.splits)

lemma access_log_open_streams:
  "access_log_open f p heap streams = (log, heap', streams') \<Longrightarrow>
   streams' = (case log of None \<Rightarrow> streams | Some _ \<Rightarrow> Suc streams)"
  by (auto simp: access_log_open_def Let_def split: option.splits prod.splits if_splits)

lemma server_init_resources:
  assumes "server_init net config sys = (code, server, sys')" "valid_net net"
  shows "if code = 0 then listen_fd server \<ge> 0 \<and> srv_queue server \<noteq> None \<and> srv_log server \<noteq> None \<and>
      resources sys' = (Suc (sys_streams sys), Suc (sys_queues sys), listen_fd server # sys_fds sys)
    else code = - 1 \<and> resources sys' = resources sys \<and> srv_queue server = None \<and> srv_log server = None"
proof -
  obtain queue heap where q: "socket_queue_init (of_int (cfg_queue_capacity config)) (sys_heap sys) = (queue, heap)" by fastforce
  obtain log heap2 streams where l:
    "access_log_open (net_fopen_append net) (Some (cfg_access_log config)) heap (sys_streams sys) = (log, heap2, streams)"
    by (metis prod_cases3)
  obtain fd fds where f: "create_listening_socket net config (sys_fds sys) = (fd, fds)" by fastforce
  note F = create_listening_socket_fds [OF f assms(2)] access_log_open_streams [OF l]
  show ?thesis
  proof (cases "queue = None")
    case True
    with assms(1) q show ?thesis by (auto simp: server_init_def resources_def)
  next
    case queue: False
    show ?thesis
    proof (cases log)
      case None
      with assms(1) q l F(2) queue show ?thesis
        by (auto simp: server_init_def resources_def socket_queue_destroy_def)
    next
      case (Some lg)
      with assms(1) q l f F queue show ?thesis
        by (auto simp: server_init_def resources_def socket_queue_destroy_def access_log_close_def split: if_splits)
    qed
  qed
qed

lemma init_destroy_resources:
  assumes "valid_net net" "server_init net config sys = (0, server, sys1)"
    "(server2, sys2) = (if stopped then server_stop server sys1 else (server, sys1))"
  shows "resources (snd (server_destroy server2 sys2)) = resources sys"
  using server_init_resources [OF assms(2,1)] assms(3)
  by (cases stopped) (auto simp: server_stop_def server_destroy_def close_listen_fd_def close_fd_def resources_def Let_def
      access_log_close_def socket_queue_destroy_def socket_queue_shutdown_def split: option.splits if_splits)

text \<open>A server that has been started and run: what it had open is given back.\<close>

lemma server_init_fresh:
  assumes "server_init net config sys = (0, server, sys1)"
  shows "\<exists>q. srv_queue server = Some q \<and> wf_queue q \<and> queue_list q = [] \<and> \<not> q_shutdown q"
    "srv_config server = config" "\<not> should_stop server"
proof -
  obtain queue heap where q: "socket_queue_init (of_int (cfg_queue_capacity config)) (sys_heap sys) = (queue, heap)" by fastforce
  with assms have "srv_queue server = queue \<and> queue \<noteq> None"
    by (auto simp: server_init_def Let_def split: prod.splits if_splits)
  with q socket_queue_init_wf show "\<exists>q. srv_queue server = Some q \<and> wf_queue q \<and> queue_list q = [] \<and> \<not> q_shutdown q"
    by (cases queue) auto
  show "srv_config server = config" "\<not> should_stop server"
    using assms by (auto simp: server_init_def Let_def split: prod.splits if_splits)
qed

lemma server_destroy_resources:
  assumes "srv_queue server \<noteq> None" "srv_log server \<noteq> None" "listen_fd server \<ge> 0 \<Longrightarrow> listen_fd server \<in> set (sys_fds sys)"
  shows "sys_streams (snd (server_destroy server sys)) = sys_streams sys - 1"
    "sys_queues (snd (server_destroy server sys)) = sys_queues sys - 1"
    "mset (sys_fds sys) = mset (sys_fds (snd (server_destroy server sys))) +
      (if listen_fd server \<ge> 0 then {#listen_fd server#} else {#})"
  using assms mset_close_fd [of "listen_fd server" "sys_fds sys"]
  by (auto simp: server_destroy_def close_listen_fd_def access_log_close_def socket_queue_destroy_def Let_def
      split: option.splits prod.splits)

lemma server_run_resources:
  assumes "valid_net net" "server_init net config sys = (0, server, sys1)" "server_run server sys1 code server2 sys2"
  shows "sys_streams (snd (server_destroy server2 sys2)) = sys_streams sys"
    "sys_queues (snd (server_destroy server2 sys2)) = sys_queues sys"
    "mset (sys_fds (snd (server_destroy server2 sys2))) = mset (sys_fds sys)"
proof -
  have init: "listen_fd server \<ge> 0" "srv_log server \<noteq> None" "sys_streams sys1 = Suc (sys_streams sys)"
    "sys_queues sys1 = Suc (sys_queues sys)" "sys_fds sys1 = listen_fd server # sys_fds sys"
    using server_init_resources [OF assms(2,1)] by (simp_all add: resources_def)
  have "srv_queue server2 \<noteq> None \<and> srv_log server2 \<noteq> None \<and> sys_streams sys2 = sys_streams sys1 \<and>
    sys_queues sys2 = sys_queues sys1 \<and>
    mset (sys_fds sys2) = mset (sys_fds sys) + (if listen_fd server2 \<ge> 0 then {#listen_fd server2#} else {#})"
    using assms(3)
  proof (cases rule: server_run.cases)
    case (returned q pool heap s)
    with server_init_fresh [OF assms(2)] have "wf_queue q" "queue_list q = []" "\<not> q_shutdown q" by auto
    from thread_pool_start_cases [OF this returned(5)] obtain n where
      pool: "reachable pool" "n \<noteq> 0" "pool = new_pool q n" by (auto split: if_splits)
    then have new: "accepted pool = []" "finished pool = []" "length (workers pool) = n" by (simp_all add: new_pool_def)
    note inv = server_steps_inv [OF returned(6) running_inv [OF pool(1) new(1)], unfolded new(3)]
    have "fd_inv (mset (sys_fds sys)) (running server pool (sys_fds sys1))"
      using new(2) init(1,5) by (simp add: fd_inv_def running_def listening_def)
    from server_steps_fds [OF returned(6) running_inv [OF pool(1) new(1)] this]
    have "mset (run_fds s) = mset (sys_fds sys) + listening s"
      using fd_inv_open [OF _ inv] server_inv_returned [OF inv returned(7) pool(2)] returned(7) by simp
    with returned init show ?thesis by (simp add: listening_def)
  qed (use init in simp)
  with server_destroy_resources [of server2 sys2] init
  show "sys_streams (snd (server_destroy server2 sys2)) = sys_streams sys"
    "sys_queues (snd (server_destroy server2 sys2)) = sys_queues sys"
    "mset (sys_fds (snd (server_destroy server2 sys2))) = mset (sys_fds sys)"
    by (auto split: if_splits simp flip: set_mset_mset)
qed

section \<open>Properties\<close>

text \<open>C37: What \<^verbatim>\<open>server_init\<close> takes of the system is given back: when it fails, at whatever step,
  no stream, queue or socket stays; when it succeeds, the listening socket, the log and the
  queue exist, and \<^verbatim>\<open>server_destroy\<close> releases exactly these, whether or not \<^verbatim>\<open>server_stop\<close> has
  closed the listening socket before.\<close>

theorem server_resources_balanced:
  assumes "valid_net net" "server_init net config sys = (code, server, sys1)"
    "(server2, sys2) = (if stopped then server_stop server sys1 else (server, sys1))"
  shows "if code = 0
    then resources sys1 = (Suc (sys_streams sys), Suc (sys_queues sys), listen_fd server # sys_fds sys) \<and>
      resources (snd (server_destroy server2 sys2)) = resources sys
    else resources sys1 = resources sys"
  using server_init_resources [OF assms(2,1)] init_destroy_resources [OF assms(1) _ assms(3)] assms(2)
  by (auto simp: resources_def)

text \<open>C5: The running server loses no connection and serves none twice: in every state it can
  reach, each accepted socket is in exactly one place (handled to the end, in a handler, in
  the queue, answered 503, dropped because the queue was closed, or in the hands of the
  accepting thread); when \<^verbatim>\<open>server_run\<close> has returned, only those handled, answered 503 and
  dropped are left.\<close>

theorem server_loses_no_connection:
  assumes "reachable pool" "accepted pool = []" "workers pool \<noteq> []" "server_step\<^sup>*\<^sup>* (running server pool fds) s"
  shows "mset (run_accepted s) = mset (finished (run_pool s)) + mset (handling (workers (run_pool s))) +
      mset (queue_list (pool_queue (run_pool s))) + mset (run_rejected s) + mset (run_dropped s) + mset (held (run_main s)) \<and>
    (run_main s = Returned \<longrightarrow>
      mset (run_accepted s) = mset (finished (run_pool s)) + mset (run_rejected s) + mset (run_dropped s))"
proof -
  note inv = server_steps_inv [OF assms(4) running_inv [OF assms(1,2)]]
  with server_inv_balance [OF inv] server_inv_returned [OF inv] assms(3) show ?thesis by simp
qed

lemma running_stop_inv: "\<not> should_stop server \<Longrightarrow> stop_inv (running server pool fds)"
  by (simp add: stop_inv_def running_def)

text \<open>C13: A stop signal ends the server, unless the handler met the mutex. In every state reached
  after a signal: (1) When a handler has interrupted a thread inside a critical section of the
  queue, \<^verbatim>\<open>server_run\<close> never returns, whatever happens. (2) Otherwise the handler can go on, and
  then the queue is closed. (3) From there on, every run of the threads without a further signal
  ends within \<open>stop_work\<close> steps, and it ends only when \<^verbatim>\<open>server_run\<close> has returned, with all workers
  gone: the accepting thread cannot hang, whether it was in \<^verbatim>\<open>accept\<close>, with a socket in its hands
  or at the joins, and neither can a worker. (That a call of \<^verbatim>\<open>accept\<close> or of a handler returns is
  a step of the run.)\<close>

theorem server_returns_after_stop:
  assumes "reachable pool" "accepted pool = []" "\<not> should_stop server"
    "server_step\<^sup>*\<^sup>* (running server pool fds) s" "run_stop s"
  shows "(run_locked s \<longrightarrow> (\<forall>t. server_step\<^sup>*\<^sup>* s t \<longrightarrow> run_main t \<noteq> Returned)) \<and>
    (\<not> run_locked s \<longrightarrow> \<not> q_shutdown (pool_queue (run_pool s)) \<longrightarrow>
      (\<exists>t. run_step s t \<and> run_stop t \<and> \<not> run_locked t \<and> q_shutdown (pool_queue (run_pool t)))) \<and>
    (\<not> run_locked s \<longrightarrow> q_shutdown (pool_queue (run_pool s)) \<longrightarrow>
      (\<forall>m t. (run_step ^^ m) s t \<longrightarrow> m \<le> stop_work s \<and>
        (run_main t = Returned \<and> all_done (run_pool t) \<or> (\<exists>u. run_step t u))))"
proof (intro conjI impI allI)
  note inv = server_steps_inv [OF assms(4) running_inv [OF assms(1,2)]]
  note stop = server_steps_stop_inv [OF assms(4) running_inv [OF assms(1,2)] running_stop_inv [OF assms(3)]]
  show "run_main t \<noteq> Returned" if "run_locked s" "server_step\<^sup>*\<^sup>* s t" for t
    using server_steps_deadlocked [OF that(2)] stop that(1) by (simp add: stop_inv_def deadlocked_def)
  show "\<exists>t. run_step s t \<and> run_stop t \<and> \<not> run_locked t \<and> q_shutdown (pool_queue (run_pool t))"
    if "\<not> run_locked s" "\<not> q_shutdown (pool_queue (run_pool s))"
  proof -
    from stop that assms(5) have "run_signal s" by (simp add: stop_inv_def)
    from run_step.handler_shutdown [OF this that(1)] assms(5) that(1) show ?thesis by (intro exI) auto
  qed
  fix m t assume s: "\<not> run_locked s" "q_shutdown (pool_queue (run_pool s))" "(run_step ^^ m) s t"
  note W = run_steps_work [OF s(3) inv assms(5) s(2,1)]
  then show "m \<le> stop_work s" by simp
  from W have "run_main t = Returned \<Longrightarrow> all_done (run_pool t)" by (simp add: server_inv_def)
  with W stop_progress [of _ t] show "run_main t = Returned \<and> all_done (run_pool t) \<or> (\<exists>u. run_step t u)" by blast
qed

text \<open>The deadlock is there to be met: as long as a worker is at the queue, a signal can cause it.\<close>

theorem signal_can_deadlock:
  assumes "run_main s \<noteq> Returned" "w \<in> set (workers (run_pool s))" "at_dequeue w"
  shows "\<exists>t. server_step s t \<and> run_stop t \<and> (\<forall>u. server_step\<^sup>*\<^sup>* t u \<longrightarrow> run_main u \<noteq> Returned)"
proof -
  define t where "t = (stop_accepting s)\<lparr>run_locked := True\<rparr>"
  have "in_section s" using assms(2,3) by (auto simp: in_section_def)
  with assms(1) signal_step.inside have "server_step s t" by (auto simp: t_def server_step_def)
  moreover have "deadlocked t" using assms by (auto simp: t_def deadlocked_def in_section_def)
  ultimately show ?thesis
    using server_steps_deadlocked [of t] by (intro exI [of _ t]) (auto simp: t_def deadlocked_def)
qed

definition reply_503 :: "conn \<times> log_entry \<times> conn \<Rightarrow> bool" where
  "reply_503 r = (case r of (c, entry, c') \<Rightarrow>
     closes c' = 1 \<and>
     (link_up (send_script c) \<longrightarrow> (\<exists>head ip t. framed head unavailable_body \<and> announces head 503 \<and>
        outgoing c' = head @ unavailable_body \<and> entry = Entry ip ''-'' 503 20 t)) \<and>
     (outgoing c' = [] \<longrightarrow> (\<exists>ip t. entry = Entry ip ''-'' 0 0 t)))"

lemma reject_client_reply_503:
  assumes "reject_client peer local_time c = (entry, c')" "fresh_conn c"
  shows "reply_503 (c, entry, c')"
proof -
  have l: "length unavailable_body = 20" by (simp add: unavailable_body_def)
  have "framed_reply 503 (simple_headers None 503 (of_nat (length unavailable_body)) False) unavailable_body"
    by (rule simple_headers_framed) (simp add: l)
  with reject_client_effect [OF assms(1)] assms(2) show ?thesis
    by (auto simp: reply_503_def fresh_conn_def framed_reply_def l)
qed

lemma run_step_replies:
  "run_step s t \<Longrightarrow> list_all reply_503 (run_replies s) \<and> length (run_replies s) = length (run_rejected s) \<Longrightarrow>
   list_all reply_503 (run_replies t) \<and> length (run_replies t) = length (run_rejected t)"
  by (induction rule: run_step.induct) (simp_all add: begin_join_def reject_client_reply_503)

lemma signal_step_replies: "signal_step s t \<Longrightarrow> run_replies t = run_replies s \<and> run_rejected t = run_rejected s"
  by (induction rule: signal_step.induct) simp_all

lemma server_steps_replies:
  "server_step\<^sup>*\<^sup>* s t \<Longrightarrow> list_all reply_503 (run_replies s) \<and> length (run_replies s) = length (run_rejected s) \<Longrightarrow>
   list_all reply_503 (run_replies t) \<and> length (run_replies t) = length (run_rejected t)"
  by (induction rule: rtranclp_induct) (auto simp: server_step_def dest: run_step_replies signal_step_replies)

lemma submit_step_result:
  assumes "submit_step p fd r q"
  shows "r = (if q_shutdown (pool_queue p) then QUEUE_CLOSED
    else if q_count (pool_queue p) = q_capacity (pool_queue p) then QUEUE_FULL else QUEUE_OK)"
  using assms by (induction rule: submit_step.induct) (auto simp: enqueue_locked_def split: if_splits)

lemma holding_decides:
  assumes "run_step s t" "run_main s = Holding fd" "run_main t \<noteq> Holding fd"
  shows "run_main t = (if \<not> q_shutdown (pool_queue (run_pool s)) \<and>
      q_count (pool_queue (run_pool s)) = q_capacity (pool_queue (run_pool s)) then Rejecting fd else Testing)"
  using assms
proof (induction rule: run_step.induct)
  case (enqueue s x p)
  with submit_step_result [OF enqueue(3)] show ?case by (auto split: if_splits)
next
  case (full s x p)
  with submit_step_result [OF full(3)] show ?case by (auto split: if_splits)
next
  case (drop s x r p)
  with submit_step_result [OF drop(3)] show ?case by (auto split: if_splits)
qed simp_all

text \<open>C38: A full queue is answered with 503. In every state the server can reach: a connection goes
  to the 503 branch exactly when the queue is full and open at its enqueue; and every connection
  that has been through it was closed once and, unless sending failed, got a framed message whose
  status line says 503 and whose body is the text of the code, and was logged with the line \<^verbatim>\<open>-\<close>,
  that status and the 20 bytes of the body; when nothing could be sent, status 0 was logged.\<close>

theorem overload_is_answered:
  assumes "server_step\<^sup>*\<^sup>* (running server pool fds) s"
  shows "length (run_replies s) = length (run_rejected s) \<and>
    list_all (\<lambda>(c, entry, c'). closes c' = 1 \<and>
      (link_up (send_script c) \<longrightarrow> (\<exists>head ip t. framed head unavailable_body \<and> announces head 503 \<and>
         outgoing c' = head @ unavailable_body \<and> entry = Entry ip ''-'' 503 20 t)) \<and>
      (outgoing c' = [] \<longrightarrow> (\<exists>ip t. entry = Entry ip ''-'' 0 0 t))) (run_replies s) \<and>
    (\<forall>t fd. run_step s t \<longrightarrow> run_main s = Holding fd \<longrightarrow> run_main t \<noteq> Holding fd \<longrightarrow>
      (run_main t = Rejecting fd \<longleftrightarrow> \<not> q_shutdown (pool_queue (run_pool s)) \<and>
        q_count (pool_queue (run_pool s)) = q_capacity (pool_queue (run_pool s))))"
proof -
  have "list_all reply_503 (run_replies s) \<and> length (run_replies s) = length (run_rejected s)"
    by (rule server_steps_replies [OF assms]) (simp add: running_def)
  moreover have "run_main t = Rejecting fd \<longleftrightarrow> \<not> q_shutdown (pool_queue (run_pool s)) \<and>
      q_count (pool_queue (run_pool s)) = q_capacity (pool_queue (run_pool s))"
    if "run_step s t" "run_main s = Holding fd" "run_main t \<noteq> Holding fd" for t fd
    using holding_decides [OF that] by (auto split: if_splits)
  ultimately show ?thesis unfolding reply_503_def by blast
qed

text \<open>The example: a machine on which the first address cannot be bound.\<close>

definition example_net :: net where
  "example_net = \<lparr>net_getaddrinfo = (\<lambda>host port.
       Some [\<lparr>at_socket = None, at_bind = True, at_listen = True\<rparr>, \<lparr>at_socket = Some 5, at_bind = False, at_listen = True\<rparr>,
             \<lparr>at_socket = Some 6, at_bind = True, at_listen = True\<rparr>]),
     net_fopen_append = (\<lambda>path. Some [])\<rparr>"

definition example_config :: server_config where
  "example_config = \<lparr>cfg_host = ''0.0.0.0'', cfg_port = 8080, cfg_thread_count = 2, cfg_queue_capacity = 2,
     cfg_doc_root = ''www'', cfg_access_log = ''access.log''\<rparr>"

definition example_server :: server where
  "example_server = \<lparr>srv_config = example_config, listen_fd = 6, should_stop = False,
     srv_queue = Some example_queue, srv_log = Some \<lparr>log_file = []\<rparr>\<rparr>"

lemma example_net_valid: "valid_net example_net"
  by (simp add: valid_net_def example_net_def)

lemma example_init:
  "server_init example_net example_config \<lparr>sys_heap = [], sys_streams = 3, sys_queues = 0, sys_fds = [0]\<rparr> =
    (0, example_server, \<lparr>sys_heap = [], sys_streams = 4, sys_queues = 1, sys_fds = [6, 0]\<rparr>)"
proof -
  have "replicate 2 (0 :: fd) = [0, 0]" by (simp add: numeral_2_eq_2)
  then show ?thesis
    by (simp add: server_init_def socket_queue_init_def access_log_open_def create_listening_socket_def example_net_def
        example_config_def example_server_def example_queue_def close_fd_def)
qed

theorem server_resources_balanced_witness:
  "resources (snd (server_destroy (fst (server_stop example_server \<lparr>sys_heap = [], sys_streams = 4, sys_queues = 1, sys_fds = [6, 0]\<rparr>))
      (snd (server_stop example_server \<lparr>sys_heap = [], sys_streams = 4, sys_queues = 1, sys_fds = [6, 0]\<rparr>)))) = (3, 0, [0])"
  using server_resources_balanced [OF example_net_valid example_init, of _ _ True, OF surjective_pairing [symmetric, THEN trans]]
  by (simp add: resources_def)

lemma example_start: "reachable (new_pool example_queue 2)" "accepted (new_pool example_queue 2) = []"
  "workers (new_pool example_queue 2) \<noteq> []"
  using reachable.start [OF example_queue_wf, of 2] by (simp_all add: new_pool_def)

lemma example_run:
  "server_step\<^sup>*\<^sup>* (running example_server (new_pool example_queue 2) [6])
     ((running example_server (new_pool example_queue 2) [6])\<lparr>run_main := Holding 9, run_accepted := [9], run_fds := [9, 6]\<rparr>)"
  by (rule accept_run) (simp_all add: example_server_def)

theorem server_loses_no_connection_witness:
  "\<exists>s. server_step\<^sup>*\<^sup>* (running example_server (new_pool example_queue 2) [6]) s \<and> run_accepted s = [9] \<and>
    mset (run_accepted s) = mset (finished (run_pool s)) + mset (handling (workers (run_pool s))) +
      mset (queue_list (pool_queue (run_pool s))) + mset (run_rejected s) + mset (run_dropped s) + mset (held (run_main s))"
proof -
  define s where "s = (running example_server (new_pool example_queue 2) [6])\<lparr>run_main := Holding 9, run_accepted := [9], run_fds := [9, 6]\<rparr>"
  have "run_accepted s = [9]" by (simp add: s_def)
  with server_loses_no_connection [OF example_start example_run, folded s_def] example_run [folded s_def] show ?thesis by blast
qed

theorem server_returns_after_stop_witness:
  "\<exists>s. server_step\<^sup>*\<^sup>* (running example_server (new_pool example_queue 2) [6]) s \<and> run_accepted s = [9] \<and>
     (\<forall>m t. (run_step ^^ m) s t \<longrightarrow> m \<le> stop_work s \<and>
        (run_main t = Returned \<and> all_done (run_pool t) \<or> (\<exists>u. run_step t u)))"
proof -
  obtain s where s: "server_step\<^sup>*\<^sup>* (running example_server (new_pool example_queue 2) [6]) s"
    "run_accepted s = [9]" "run_stop s" "\<not> run_locked s" "q_shutdown (pool_queue (run_pool s))"
    using accept_then_stop [of example_server 9 "[6]"] by (auto simp: example_server_def)
  have "\<not> should_stop example_server" by (simp add: example_server_def)
  from server_returns_after_stop [OF example_start(1,2) this s(1,3)] s show ?thesis by blast
qed

text \<open>A run in which the queue is full, so that the connection just accepted is answered 503.\<close>

lemma example_reject_run:
  assumes "server_step\<^sup>*\<^sup>* s0 s" "run_main s = Holding x" "\<not> run_locked s"
    "q_count (pool_queue (run_pool s)) = q_capacity (pool_queue (run_pool s))" "\<not> q_shutdown (pool_queue (run_pool s))"
    "run_replies s = []"
  shows "\<exists>t entry c'. server_step\<^sup>*\<^sup>* s0 t \<and> run_replies t = [(example_conn, entry, c')]"
proof -
  obtain entry c' where r: "reject_client None tm example_conn = (entry, c')" by fastforce
  have "submit_step (run_pool s) x QUEUE_FULL (run_pool s)"
    by (rule submit_step.refused) (use assms(4,5) in \<open>simp_all add: enqueue_locked_def\<close>)
  from run_step.full [OF assms(2,3) this]
  have 1: "server_step s (s\<lparr>run_main := Rejecting x, run_pool := run_pool s\<rparr>)" by (simp add: server_step_def)
  have "run_step (s\<lparr>run_main := Rejecting x, run_pool := run_pool s\<rparr>)
      ((s\<lparr>run_main := Rejecting x, run_pool := run_pool s\<rparr>)\<lparr>run_main := Testing, run_rejected := run_rejected s @ [x],
        run_fds := close_times (closes c') x (run_fds s), run_replies := run_replies s @ [(example_conn, entry, c')]\<rparr>)"
    (is "run_step _ ?t")
    using run_step.reject [of "s\<lparr>run_main := Rejecting x, run_pool := run_pool s\<rparr>", OF _ _ r]
    by (simp add: fresh_conn_def example_conn_def)
  then have "server_step\<^sup>*\<^sup>* s0 ?t" using assms(1) 1
    by (meson rtranclp.rtrancl_into_rtrancl server_step_def)
  moreover have "run_replies ?t = [(example_conn, entry, c')]" by (simp add: assms(6))
  ultimately show ?thesis by blast
qed

theorem overload_is_answered_witness:
  "\<exists>s entry c' head. server_step\<^sup>*\<^sup>* (running example_server (new_pool (example_queue\<lparr>q_count := q_capacity example_queue\<rparr>) 2) [6]) s \<and>
     run_replies s = [(example_conn, entry, c')] \<and> closes c' = 1 \<and> announces head 503 \<and>
     outgoing c' = head @ unavailable_body"
proof -
  define pool where "pool = new_pool (example_queue\<lparr>q_count := q_capacity example_queue\<rparr>) 2"
  have run: "server_step\<^sup>*\<^sup>* (running example_server pool [6])
      ((running example_server pool [6])\<lparr>run_main := Holding 9, run_accepted := [9], run_fds := [9, 6]\<rparr>)"
    by (rule accept_run) (simp_all add: example_server_def)
  have "\<exists>t entry c'. server_step\<^sup>*\<^sup>* (running example_server pool [6]) t \<and> run_replies t = [(example_conn, entry, c')]"
    by (rule example_reject_run [OF run]) (simp_all add: running_def pool_def new_pool_def example_queue_def)
  then obtain t entry c' where t: "server_step\<^sup>*\<^sup>* (running example_server pool [6]) t"
    "run_replies t = [(example_conn, entry, c')]" by blast
  have "link_up (send_script example_conn)" by (simp add: example_conn_def link_up_def)
  with overload_is_answered [OF t(1)] t show ?thesis unfolding pool_def by auto
qed

end
