(* ===== verification/Cli.thy ===== *)
theory Cli
  imports Server
begin

text \<open>
  The program, \<^verbatim>\<open>src/main.c\<close>: options, numbers, start and end.

  \<^verbatim>\<open>getopt\<close> is its result: the options with their arguments in the order of the command line,
  with the letter \<^verbatim>\<open>?\<close> for what it does not accept. \<^verbatim>\<open>strtol\<close> is modelled for base 10 as the C
  standard describes it, with the result and the rest of the text.
\<close>

section \<open>Numbers\<close>

definition isspace :: "char \<Rightarrow> bool" where
  "isspace c \<longleftrightarrow> c = CHR '' '' \<or> (9 \<le> byte c \<and> byte c \<le> 13)"

definition LONG_MAX :: int where "LONG_MAX = 2 ^ 63 - 1"

definition LONG_MIN :: int where "LONG_MIN = - (2 ^ 63)"

definition strtol_sign :: "string \<Rightarrow> bool \<times> string" where
  "strtol_sign s =
     (case s of
        [] \<Rightarrow> (False, [])
      | c # rest \<Rightarrow> if c = CHR ''-'' then (True, rest) else if c = CHR ''+'' then (False, rest) else (False, s))"

definition strtol :: "string \<Rightarrow> int \<times> string" where
  "strtol s =
     (let (negative, body) = strtol_sign (dropWhile isspace s);
          digits = takeWhile isdigit body;
          magnitude = int (dec_value digits)
      in if digits = [] then (0, s)
         else (max LONG_MIN (min LONG_MAX (if negative then - magnitude else magnitude)), dropWhile isdigit body))"

definition parse_positive_int :: "string \<Rightarrow> int option" where
  "parse_positive_int arg =
     (let (parsed, rest) = strtol arg
      in if arg = [] \<or> rest \<noteq> [] \<or> parsed \<le> 0 \<or> parsed > 65535 then None else Some parsed)"

section \<open>Options\<close>

definition default_config :: server_config where
  "default_config = \<lparr>cfg_host = ''0.0.0.0'', cfg_port = 8080, cfg_thread_count = 4, cfg_queue_capacity = 64,
     cfg_doc_root = ''www'', cfg_access_log = ''access.log''\<rparr>"

text \<open>One turn of the option loop; \<open>None\<close> stands for the usage message and exit code 1.\<close>

definition apply_option :: "char \<times> string \<Rightarrow> server_config \<Rightarrow> server_config option" where
  "apply_option opt config =
     (case opt of (option, optarg) \<Rightarrow>
        if option = CHR ''h'' then Some (config\<lparr>cfg_host := optarg\<rparr>)
        else if option = CHR ''p'' then
          (case parse_positive_int optarg of None \<Rightarrow> None | Some n \<Rightarrow> Some (config\<lparr>cfg_port := n\<rparr>))
        else if option = CHR ''r'' then Some (config\<lparr>cfg_doc_root := optarg\<rparr>)
        else if option = CHR ''t'' then
          (case parse_positive_int optarg of None \<Rightarrow> None | Some n \<Rightarrow> Some (config\<lparr>cfg_thread_count := n\<rparr>))
        else if option = CHR ''q'' then
          (case parse_positive_int optarg of None \<Rightarrow> None | Some n \<Rightarrow> Some (config\<lparr>cfg_queue_capacity := n\<rparr>))
        else if option = CHR ''l'' then Some (config\<lparr>cfg_access_log := optarg\<rparr>)
        else None)"

fun apply_options :: "(char \<times> string) list \<Rightarrow> server_config \<Rightarrow> server_config option" where
  "apply_options [] config = Some config"
| "apply_options (opt # opts) config =
     (case apply_option opt config of None \<Rightarrow> None | Some config \<Rightarrow> apply_options opts config)"

section \<open>The program\<close>

text \<open>
  \<^verbatim>\<open>main\<close>: exit code 1 for bad options or a failed start, else the value of \<^verbatim>\<open>server_run\<close>, after
  which the server is destroyed.
\<close>

inductive main_program :: "(char \<times> string) list \<Rightarrow> net \<Rightarrow> sys \<Rightarrow> int \<Rightarrow> sys \<Rightarrow> bool" where
  usage: "apply_options opts default_config = None \<Longrightarrow> main_program opts net sys 1 sys"
| no_init: "apply_options opts default_config = Some config \<Longrightarrow>
    server_init net config sys = (code, server, sys1) \<Longrightarrow> code \<noteq> 0 \<Longrightarrow> main_program opts net sys 1 sys1"
| run: "apply_options opts default_config = Some config \<Longrightarrow>
    server_init net config sys = (0, server, sys1) \<Longrightarrow>
    server_run server sys1 exit_code server2 sys2 \<Longrightarrow>
    main_program opts net sys exit_code (snd (server_destroy server2 sys2))"

section \<open>Lemmas\<close>

lemma takeWhile_all_digits: "list_all isdigit ds \<Longrightarrow> takeWhile isdigit ds = ds \<and> dropWhile isdigit ds = []"
  by (auto simp: list_all_iff takeWhile_eq_all_conv dropWhile_eq_Nil_conv)

text \<open>The accepted texts: blanks, an optional plus, digits.\<close>

definition plus_number :: "string \<Rightarrow> string \<Rightarrow> bool" where
  "plus_number s ds \<longleftrightarrow>
     (\<exists>blanks. list_all isspace blanks \<and> ds \<noteq> [] \<and> list_all isdigit ds \<and> (s = blanks @ ds \<or> s = blanks @ ''+'' @ ds))"

lemma isspace_not_digit: "isdigit c \<Longrightarrow> \<not> isspace c"
  by (auto simp: isdigit_def isspace_def byte_def)

lemma skip_blanks: "list_all isspace blanks \<Longrightarrow> \<not> isspace c \<Longrightarrow> dropWhile isspace (blanks @ c # s) = c # s"
  by (induction blanks) auto

lemma strtol_plus_number:
  assumes "plus_number s ds"
  shows "strtol s = (min LONG_MAX (int (dec_value ds)), [])"
proof -
  from assms obtain blanks where b: "list_all isspace blanks" "ds \<noteq> []" "list_all isdigit ds"
    "s = blanks @ ds \<or> s = blanks @ ''+'' @ ds"
    by (auto simp: plus_number_def)
  from b(2,3) obtain d ds' where ds: "ds = d # ds'" "isdigit d" by (cases ds) auto
  have "d \<noteq> CHR ''-''" "d \<noteq> CHR ''+''" using ds(2) by (auto simp: isdigit_def byte_def)
  have blank: "\<not> isspace d" "\<not> isspace (CHR ''+'')"
    using isspace_not_digit [OF ds(2)] by (simp_all add: isspace_def byte_def)
  have "dropWhile isspace s = ds \<or> dropWhile isspace s = CHR ''+'' # ds"
    using b(4) skip_blanks [OF b(1) blank(1), of ds'] skip_blanks [OF b(1) blank(2), of ds] ds(1) by auto
  then have sign: "strtol_sign (dropWhile isspace s) = (False, ds)"
    using \<open>d \<noteq> CHR ''-''\<close> \<open>d \<noteq> CHR ''+''\<close> by (elim disjE) (simp_all add: strtol_sign_def ds(1))
  have span: "takeWhile isdigit ds = ds" "dropWhile isdigit ds = []"
    using takeWhile_all_digits [OF b(3)] by simp_all
  have "max LONG_MIN (min LONG_MAX (int (dec_value ds))) = min LONG_MAX (int (dec_value ds))"
    by (simp add: LONG_MIN_def LONG_MAX_def)
  with b(2) show ?thesis unfolding strtol_def Let_def sign prod.case span by simp
qed

lemma strtol_positive:
  assumes "strtol s = (n, [])" "0 < n"
  shows "\<exists>ds. plus_number s ds"
proof -
  define body where "body = snd (strtol_sign (dropWhile isspace s))"
  have dig: "takeWhile isdigit body \<noteq> []" "dropWhile isdigit body = []" "\<not> fst (strtol_sign (dropWhile isspace s))"
    using assms by (auto simp: strtol_def Let_def body_def LONG_MIN_def LONG_MAX_def split: prod.splits if_splits)
  then have d: "list_all isdigit body" "body \<noteq> []"
    by (auto simp: list_all_iff dropWhile_eq_Nil_conv)
  have "s = takeWhile isspace s @ dropWhile isspace s" "list_all isspace (takeWhile isspace s)"
    by (auto simp: list_all_iff dest: set_takeWhileD)
  moreover have "dropWhile isspace s = body \<or> dropWhile isspace s = ''+'' @ body"
    using dig(3) d(2) by (auto simp: body_def strtol_sign_def split: list.splits if_splits)
  ultimately have "plus_number s body" using d unfolding plus_number_def by metis
  then show ?thesis ..
qed

lemma parse_positive_int_iff:
  "parse_positive_int s = Some n \<longleftrightarrow> (\<exists>ds. plus_number s ds \<and> n = int (dec_value ds) \<and> 1 \<le> n \<and> n \<le> 65535)"
proof
  assume a: "parse_positive_int s = Some n"
  then have st: "strtol s = (n, [])" "0 < n" "n \<le> 65535"
    by (auto simp: parse_positive_int_def split: prod.splits if_splits)
  from strtol_positive [OF st(1,2)] obtain ds where ds: "plus_number s ds" by blast
  with strtol_plus_number [OF ds] st show "\<exists>ds. plus_number s ds \<and> n = int (dec_value ds) \<and> 1 \<le> n \<and> n \<le> 65535"
    by (intro exI [of _ ds]) (auto simp: LONG_MAX_def min_def split: if_splits)
next
  assume "\<exists>ds. plus_number s ds \<and> n = int (dec_value ds) \<and> 1 \<le> n \<and> n \<le> 65535"
  then obtain ds where ds: "plus_number s ds" "n = int (dec_value ds)" "1 \<le> n" "n \<le> 65535" by blast
  then have "s \<noteq> []" by (auto simp: plus_number_def)
  with strtol_plus_number [OF ds(1)] ds show "parse_positive_int s = Some n"
    by (simp add: parse_positive_int_def LONG_MAX_def)
qed

text \<open>The numbers of the configuration stay in range, whatever the options.\<close>

definition config_ranges :: "server_config \<Rightarrow> bool" where
  "config_ranges config \<longleftrightarrow>
     list_all (\<lambda>n. 1 \<le> n \<and> n \<le> 65535) [cfg_port config, cfg_thread_count config, cfg_queue_capacity config]"

lemma default_ranges: "config_ranges default_config"
  by (simp add: config_ranges_def default_config_def)

lemma apply_option_ranges: "apply_option opt config = Some config' \<Longrightarrow> config_ranges config \<Longrightarrow> config_ranges config'"
  by (auto simp: apply_option_def config_ranges_def parse_positive_int_iff split: prod.splits if_splits option.splits)

lemma apply_options_config_ranges:
  "apply_options opts config = Some config' \<Longrightarrow> config_ranges config \<Longrightarrow> config_ranges config'"
  by (induction opts config rule: apply_options.induct) (auto split: option.splits dest: apply_option_ranges)

section \<open>Properties\<close>

text \<open>C39: A numeric option is accepted exactly when it is a decimal number from 1 to 65535 (with
  leading blanks or a plus sign allowed, as \<^verbatim>\<open>strtol\<close> does), and then with its value; no
  text, however long, wraps around into the range.\<close>

theorem parse_positive_int_exact:
  "parse_positive_int s = Some n \<longleftrightarrow> (\<exists>ds. plus_number s ds \<and> n = int (dec_value ds) \<and> 1 \<le> n \<and> n \<le> 65535)"
  by (rule parse_positive_int_iff)

text \<open>C40: \<^verbatim>\<open>main\<close> leaves nothing open, on every path and after every run: when it ends, with exit
  code 0 or 1, the log stream and the queue are gone, and the open descriptors of the process
  are those of before, so that the listening socket and every connection that was accepted,
  whether handled, answered 503 or dropped, has been closed, and nothing else. Bad options end
  it with 1 before the system is touched, and it only ever runs (exit code 0) with a port, a
  number of threads and a capacity between 1 and 65535.\<close>

theorem main_program_cleans_up:
  assumes "main_program opts net sys exit_code sys'" "valid_net net"
  shows "sys_streams sys' = sys_streams sys \<and> sys_queues sys' = sys_queues sys \<and>
    mset (sys_fds sys') = mset (sys_fds sys) \<and> (exit_code = 0 \<or> exit_code = 1) \<and>
    (apply_options opts default_config = None \<longrightarrow> exit_code = 1 \<and> sys' = sys) \<and>
    (exit_code = 0 \<longrightarrow> (\<exists>config. apply_options opts default_config = Some config \<and>
      list_all (\<lambda>n. 1 \<le> n \<and> n \<le> 65535) [cfg_port config, cfg_thread_count config, cfg_queue_capacity config]))"
  using assms
proof (induction rule: main_program.induct)
  case (no_init opts config net sys code server sys1)
  with server_init_resources [OF no_init(2,4)] show ?case by (simp add: resources_def)
next
  case (run opts config net sys server sys1 exit_code server2 sys2)
  have "exit_code = 0 \<or> exit_code = 1" using run(3) by (cases rule: server_run.cases) auto
  with server_run_resources [OF run(4,2,3)] run(1) apply_options_config_ranges [OF run(1) default_ranges] show ?case by (simp add: config_ranges_def)
qed simp

text \<open>The example: the defaults; one connection is accepted, and a signal stops the server.\<close>

lemma default_init:
  "\<exists>server sys1. server_init example_net default_config \<lparr>sys_heap = [], sys_streams = 3, sys_queues = 0, sys_fds = [0]\<rparr> =
    (0, server, sys1) \<and> sys_heap sys1 = [] \<and> sys_fds sys1 = [6, 0]"
  by (simp add: server_init_def socket_queue_init_def access_log_open_def create_listening_socket_def example_net_def
      default_config_def close_fd_def)

theorem main_program_cleans_up_witness:
  "\<exists>sys'. main_program [] example_net \<lparr>sys_heap = [], sys_streams = 3, sys_queues = 0, sys_fds = [0]\<rparr> 0 sys' \<and>
    sys_streams sys' = 3 \<and> sys_queues sys' = 0 \<and> mset (sys_fds sys') = {#0#}"
proof -
  define sys where "sys = \<lparr>sys_heap = [], sys_streams = 3, sys_queues = 0, sys_fds = [0]\<rparr>"
  obtain server sys1 where init: "server_init example_net default_config sys = (0, server, sys1)"
    "sys_heap sys1 = []" "sys_fds sys1 = [6, 0]"
    using default_init unfolding sys_def by blast
  note fresh = server_init_fresh [OF init(1)]
  then obtain q where q: "srv_queue server = Some q" "wf_queue q" "queue_list q = []" "\<not> q_shutdown q" by blast
  have four: "cfg_thread_count (srv_config server) = 4" by (simp add: fresh(2) default_config_def)
  obtain code pool heap where start: "thread_pool_start q 4 [] = (code, pool, heap)" by (metis prod_cases3)
  with thread_pool_start_cases [OF q(2-4) start] have ok: "code = 0" "pool = Some (new_pool q 4)" "reachable (new_pool q 4)"
    by simp_all
  obtain s where s: "server_step\<^sup>*\<^sup>* (running server (new_pool q 4) [6, 0]) s" "run_stop s" "\<not> run_locked s"
    "q_shutdown (pool_queue (run_pool s))"
    using accept_then_stop [OF fresh(3), of 9 "[6, 0]"] by auto
  have "accepted (new_pool q 4) = []" by (simp add: new_pool_def)
  from stopped_server_returns [OF server_steps_inv [OF s(1) running_inv [OF ok(3) this]] s(2,4,3)] obtain t where
    t: "run_step\<^sup>*\<^sup>* s t" "run_main t = Returned" by blast
  from server_run.returned [OF q(1), of sys1 "new_pool q 4" heap t] start ok s(1) run_steps_server [OF t(1)] t(2) init(2,3) four
  have "\<exists>server2 sys2. server_run server sys1 0 server2 sys2" by (auto intro: rtranclp_trans)
  then obtain sys' where m: "main_program [] example_net sys 0 sys'"
    using main_program.run [of "[]" default_config example_net sys server sys1] init(1) by auto
  from main_program_cleans_up [OF m example_net_valid] m show ?thesis by (auto simp: sys_def)
qed

end
