(* ===== verification/Spec2Isabelle.thy ===== *)
theory Spec2Isabelle
  imports Http Paths Listing ThreadPool AccessLog Response Connection Server Cli
begin

text \<open>
  A verification library for the multi-threaded HTTP file server of this repository.

  \<^bold>\<open>The program.\<close> \<^verbatim>\<open>main\<close> reads the options and starts the server: a bounded queue of sockets,
  an access log, a listening socket. The main thread accepts connections and puts the
  sockets into the queue, or answers 503 when it is full. A fixed number of worker threads
  take them out and serve them: they read requests, map the path to a file below the document
  root, and send the file, a part of it, a directory listing or an error, with keep-alive.
  Each answer is logged. A signal stops the server: the queue is closed, the workers finish
  what was accepted, and the threads are joined.

  \<^bold>\<open>The theories\<close>, in the order of their dependencies, with the sources they model:

  \<^item> Prelude: what all share. C strings and arrays (\<open>c_str\<close>, \<open>memcpy_at\<close>), ASCII classes,
    decimal numbers, machine words (\<^verbatim>\<open>size_t\<close> is \<open>64 word\<close>).
  \<^item> Http (\<^verbatim>\<open>src/http.c\<close>, \<^verbatim>\<open>include/http.h\<close>): \<open>http_request\<close> is \<^verbatim>\<open>http_request_t\<close> with its
    arrays as lists of their lengths; one definition per function. Shown: which byte strings
    are accepted and what the fields hold, memory safety of the copies, the exact values of
    number tokens and ranges.
  \<^item> Builder (\<^verbatim>\<open>src/files.c\<close>): the growing buffer and the escapers. The locale \<open>appender\<close> is the
    contract of an append (well-formedness, exact effect, failure leaves the contents); it is
    interpreted for text, characters and both escapers, and chains of appends are proved once.
  \<^item> Paths (\<^verbatim>\<open>src/files.c\<close>): percent decoding, the two traversal checks, resolution, MIME types.
    \<open>os_view\<close> holds what \<^verbatim>\<open>realpath\<close>, \<^verbatim>\<open>stat\<close>, \<^verbatim>\<open>readdir\<close> and \<^verbatim>\<open>fopen\<close> answer. Shown: confinement
    to the root, no overrun, decoding inverts the escaping of links.
  \<^item> Listing (\<^verbatim>\<open>src/files.c\<close>): the directory page. Shown: it has exactly the visible names, in
    the lexicographic order of their bytes (directories and files mixed), escaped.
  \<^item> SocketQueue (\<^verbatim>\<open>src/thread_pool.c\<close>): the ring buffer. The locale \<open>bounded_queue\<close> is the
    interface (a list with a capacity that can be closed); the ring buffer interprets it.
  \<^item> ThreadPool (\<^verbatim>\<open>src/thread_pool.c\<close>): workers, wake-ups and shutdown as a step relation over
    all schedules. Shown by an invariant: each socket is in one place, in order; no lost
    wake-up; shutdown ends within \<open>pool_work\<close> steps with everything handled.
  \<^item> AccessLog (\<^verbatim>\<open>src/log.c\<close>): entries, their text and their reading back.
  \<^item> Response (\<^verbatim>\<open>src/server.c\<close>): \<^verbatim>\<open>send_all\<close>, ranges, and the functions that send. The locale
    \<open>byte_sink\<close> is the contract of sending (a prefix goes out, all of it exactly on success).
    \<open>file_reply\<close> says what the answer for a file should be; \<open>framed\<close> what a client needs to find
    the end of a message, and \<open>announces\<close> which status its first line has.
  \<^item> Connection (\<^verbatim>\<open>src/server.c\<close>): \<^verbatim>\<open>read_next_request\<close> and \<^verbatim>\<open>handle_client\<close>. \<open>conversation\<close> is the
    abstract specification: the messages and log entries for a byte stream. \<^verbatim>\<open>handle_client\<close>
    refines it for every cut into chunks, always closes once, sends framed messages only, and
    logs the status each of them announces.
  \<^item> Server (\<^verbatim>\<open>src/server.c\<close>): start with its error paths, the running server, release. The
    running server is the step relation \<open>server_step\<close> over \<open>server_state\<close>: \<open>run_step\<close> has the steps
    of the accept loop and of the workers, with the sockets they open and close; \<open>signal_step\<close>
    has the signals, whose handler runs \<^verbatim>\<open>server_stop\<close> in two steps (the flag and the listening
    socket, then the mutex and the queue). Shown: resources balance, no connection is lost, a
    full queue is answered; after a signal the server returns within \<open>stop_work\<close> steps, except
    when the handler interrupts a thread that holds the mutex, and then it never returns.
  \<^item> Cli (\<^verbatim>\<open>src/main.c\<close>): numbers, options, and the program, which leaves nothing open.
  \<^item> This theory, below: what follows for the server as a whole. Nothing outside the document
    root influences what \<^verbatim>\<open>handle_client\<close> sends, and the log tells each conversation.

  \<^bold>\<open>How the environment enters.\<close> Allocations, and the creation of mutexes and threads, take their
  outcome from a list of booleans (\<open>allocate\<close>), which succeeds when exhausted. Sockets are
  scripts: a list of \<^verbatim>\<open>recv\<close> and of \<^verbatim>\<open>send\<close> outcomes; the end of the first is the end of the
  stream, and an exhausted send script accepts everything. The file system may differ from one
  request to the next (\<open>env_os\<close>). No hypothesis says that calls succeed unless a property
  names it (\<open>link_up\<close>: the socket takes bytes; \<open>steady\<close>: receiving does not fail;
  \<open>stable_files\<close>: a file does not shrink between \<^verbatim>\<open>stat\<close> and reading).

  \<^bold>\<open>Loops and bounds.\<close> No loop has fuel. The builder's doubling is \<open>while\<close> with a proof that it
  ends; the parsers and the copy loop recurse on lengths; the reading loop on the bytes and
  events to come, and the loop of a connection on the bytes not yet read, which every request
  reduces (\<open>read_loop_progress\<close>). So \<^verbatim>\<open>handle_client\<close> is a total function of a finite input; a
  peer that stays silent forever is not a finite input, and then the worker waits, since the
  code sets no timeout.

  \<^bold>\<open>Not modelled.\<close> Releasing memory (\<^verbatim>\<open>free\<close>, \<^verbatim>\<open>free_directory_entries\<close>), NULL arguments that no
  caller passes, errors of writing the log file (ignored by the code), the text on stderr, and
  \<^verbatim>\<open>getopt\<close>, \<^verbatim>\<open>getaddrinfo\<close>, \<^verbatim>\<open>getpeername\<close>, \<^verbatim>\<open>realpath\<close> and the like, which are arguments. The
  byte count of the table of directory entries (\<open>entry_bytes\<close>) would wrap around for more than
  \<open>2 ^ 60\<close> entries, which the code does not check and no memory holds; the table is then modelled
  as if it had been allocated. Signals that arrive while the threads are being created, or
  after \<^verbatim>\<open>server_run\<close> has returned, are not steps. In the steps of the running server a handler
  returns and \<^verbatim>\<open>accept\<close> comes back: a peer that stays silent, and an \<^verbatim>\<open>accept\<close> that sleeps on after
  another thread has closed its socket, can delay both without end, and the bounds on steps say
  nothing about that.
\<close>

section \<open>Properties of the whole server\<close>

text \<open>
  What may influence the server: two views of the system agree below the document root when
  they resolve the paths that start there in the same way, and answer \<^verbatim>\<open>stat\<close>, \<^verbatim>\<open>readdir\<close> and
  \<^verbatim>\<open>fopen\<close> equally for every path in the resolved root. Outside of it they may differ in
  everything.
\<close>

definition below :: "string \<Rightarrow> string \<Rightarrow> bool" where
  "below root p \<longleftrightarrow> p = root \<or> prefix (root @ ''/'') p"

definition agree_at :: "os_view \<Rightarrow> os_view \<Rightarrow> string \<Rightarrow> bool" where
  "agree_at os os' p \<longleftrightarrow> os_stat os' p = os_stat os p \<and> os_readdir os' p = os_readdir os p \<and>
     os_fopen os' p = os_fopen os p \<and> os_seekable os' p = os_seekable os p"

definition agree_below :: "string \<Rightarrow> os_view \<Rightarrow> os_view \<Rightarrow> bool" where
  "agree_below doc_root os os' \<longleftrightarrow>
     os_heap os' = os_heap os \<and> (\<forall>s. os_realpath os' (doc_root @ s) = os_realpath os (doc_root @ s)) \<and>
     (\<forall>root p. os_realpath os doc_root = Inr root \<longrightarrow> below root p \<longrightarrow> agree_at os os' p)"

lemma agree_belowD:
  assumes "agree_below doc_root os os'"
  shows "os_heap os' = os_heap os" "os_realpath os' doc_root = os_realpath os doc_root"
    "os_realpath os' (doc_root @ ''/'' @ s) = os_realpath os (doc_root @ ''/'' @ s)"
    "os_realpath os doc_root = Inr root \<Longrightarrow> below root p \<Longrightarrow> agree_at os os' p"
proof -
  have r: "os_realpath os' (doc_root @ s) = os_realpath os (doc_root @ s)" for s
    using assms by (simp add: agree_below_def)
  show "os_heap os' = os_heap os" using assms by (simp add: agree_below_def)
  show "os_realpath os' doc_root = os_realpath os doc_root" using r [of "[]"] by simp
  show "os_realpath os' (doc_root @ ''/'' @ s) = os_realpath os (doc_root @ ''/'' @ s)" by (rule r)
  show "agree_at os os' p" if "os_realpath os doc_root = Inr root" "below root p"
    using assms that by (simp add: agree_below_def)
qed

lemma below_child: "below root p \<Longrightarrow> below root (p @ ''/'' @ name)"
  by (auto simp: below_def prefix_def)

lemma resolved_agree:
  assumes "agree_below doc_root os os'" "realpath_c_strings os"
    "file_resolve_path os doc_root request_path osize = (FILE_RESULT_OK, p)"
  shows "agree_at os os' p" "agree_at os os' (p @ ''/'' @ name)"
proof -
  from assms(3) obtain root decoded where r: "os_realpath os doc_root = Inr root"
    "os_realpath os (doc_root @ ''/'' @ skip_slashes decoded) = Inr p" "path_has_prefix p root"
    by (auto simp: file_resolve_path_OK)
  have "NUL \<notin> set p" by (rule realpath_c_stringsD [OF assms(2) r(2)])
  with r(3) have b: "below root p" by (auto simp: path_has_prefix_iff below_def prefix_def)
  from agree_belowD(4) [OF assms(1) r(1) b] show "agree_at os os' p" .
  from agree_belowD(4) [OF assms(1) r(1) below_child [OF b]] show "agree_at os os' (p @ ''/'' @ name)" .
qed

lemma file_resolve_path_agree:
  assumes "agree_below doc_root os os'"
  shows "file_resolve_path os' doc_root request_path osize = file_resolve_path os doc_root request_path osize"
  by (auto simp: file_resolve_path_def Let_def agree_belowD(2) [OF assms] agree_belowD(3) [OF assms, simplified]
      split: prod.split sum.split)

lemma file_stat_path_agree:
  assumes "agree_below doc_root os os'" "realpath_c_strings os"
  shows "file_stat_path os' doc_root request_path = file_stat_path os doc_root request_path"
proof -
  obtain r p where f: "file_resolve_path os doc_root request_path FILE_PATH_MAX = (r, p)" by fastforce
  show ?thesis
  proof (cases "r = FILE_RESULT_OK")
    case True
    with resolved_agree(1) [OF assms] f have "os_stat os' p = os_stat os p" by (simp add: agree_at_def)
    with f show ?thesis by (simp add: file_stat_path_def Let_def zero_info_def file_resolve_path_agree [OF assms(1)])
  qed (simp add: file_stat_path_def Let_def file_resolve_path_agree [OF assms(1)] f)
qed

lemma read_entries_agree:
  assumes "\<And>name. os_stat os' (resolved @ ''/'' @ name) = os_stat os (resolved @ ''/'' @ name)"
  shows "read_entries os' resolved names entries capacity heap = read_entries os resolved names entries capacity heap"
proof -
  have d: "child_is_directory os' resolved name = child_is_directory os resolved name" for name
    using assms [of name] by (simp add: child_is_directory_def)
  show ?thesis
    by (induction names arbitrary: entries capacity heap) (auto simp: d split: prod.splits)
qed

lemma file_stat_path_resolved:
  "file_stat_path os doc_root p = (FILE_RESULT_OK, info) \<Longrightarrow>
   file_resolve_path os doc_root p FILE_PATH_MAX = (FILE_RESULT_OK, resolved_path info)"
  by (auto simp: file_stat_path_def Let_def zero_info_def split: prod.splits if_splits sum.splits st_mode.splits)

lemma answer_request_agree:
  assumes "agree_below doc_root os os'" "realpath_c_strings os"
  shows "answer_request os' doc_root c request keep_going = answer_request os doc_root c request keep_going"
proof -
  obtain result info where st: "file_stat_path os doc_root (c_str (path request)) = (result, info)" by fastforce
  show ?thesis
  proof (cases "result = FILE_RESULT_OK")
    case True
    note ag = resolved_agree [OF assms file_stat_path_resolved [OF st [unfolded True]]]
    have "send_file_response os' c request info keep_going no_result = send_file_response os c request info keep_going no_result"
    proof -
      from ag(1) have "os_fopen os' (resolved_path info) = os_fopen os (resolved_path info)"
        "fseeko_ok os' (resolved_path info) = fseeko_ok os (resolved_path info)"
        by (simp_all add: agree_at_def fseeko_ok_def fun_eq_iff)
      then show ?thesis unfolding send_file_response_def by (simp only:)
    qed
    moreover have "file_build_directory_listing os' p (resolved_path info) = file_build_directory_listing os p (resolved_path info)" for p
    proof -
      from ag(1) have r: "os_readdir os' (resolved_path info) = os_readdir os (resolved_path info)"
        by (simp add: agree_at_def)
      from ag(2) have e: "read_entries os' (resolved_path info) = read_entries os (resolved_path info)"
        by (intro ext read_entries_agree) (simp add: agree_at_def)
      show ?thesis unfolding file_build_directory_listing_def r e agree_belowD(1) [OF assms(1)] ..
    qed
    ultimately show ?thesis
      by (simp add: answer_request_def file_stat_path_agree [OF assms] st send_directory_response_def)
  qed (simp add: answer_request_def file_stat_path_agree [OF assms] st)
qed

lemma handle_loop_agree:
  assumes "\<And>k. agree_below (env_doc_root env) (env_os env k) (os' k)" "\<And>k. realpath_c_strings (env_os env k)"
  shows "handle_loop (env\<lparr>env_os := os'\<rparr>) k c buffer request line = handle_loop env k c buffer request line"
  using assms
proof (induction env k c buffer request line rule: handle_loop.induct)
  case (1 env k c buffer request line)
  obtain x es b1 r1 l1 where rd: "read_loop (incoming c) buffer request line = (x, es, b1, r1, l1)" by (metis prod_cases5)
  define c1 where "c1 = c\<lparr>incoming := es\<rparr>"
  have rn: "read_next_request c buffer request line = (x, c1, b1, r1, l1)" by (simp add: read_next_request_def rd c1_def)
  obtain sent answer c2 where ans: "answer_request (env_os env k) (env_doc_root env) c1 r1 (keep_alive_requested r1) = (sent, answer, c2)"
    by (metis prod_cases3)
  have log: "log_call (env\<lparr>env_os := os'\<rparr>) k l r = log_call env k l r" for l r by (simp add: log_call_def)
  have "handle_loop (env\<lparr>env_os := os'\<rparr>) (Suc k) c2 b1 r1 l1 = handle_loop env (Suc k) c2 b1 r1 l1"
    if "x \<noteq> 0" "\<not> x < 0" "sent = 0" "keep_alive_requested r1"
    using "1.IH" [OF rn [symmetric] refl refl refl refl _ _ refl] that ans "1.prems"
    by (simp add: http_should_keep_alive_def)
  then show ?case
    by (auto simp: handle_loop_step [OF rd] c1_def [symmetric] ans log answer_request_agree [OF "1.prems"] split: prod.split)
qed

text \<open>C3: Nothing outside the document root is served, nor anything about it: two systems that
  agree below the document root, and differ in what files and directories they have anywhere
  else, make \<^verbatim>\<open>handle_client\<close> send the same bytes and log the same entries, for every peer and
  every behaviour of the socket.\<close>

theorem only_document_root_is_served:
  assumes "\<And>k. agree_below (env_doc_root env) (env_os env k) (os' k)" "\<And>k. realpath_c_strings (env_os env k)"
  shows "handle_client (env\<lparr>env_os := os'\<rparr>) request line c = handle_client env request line c"
  unfolding handle_client_def handle_loop_agree [OF assms] ..

text \<open>C15: What a client did can be read in the log: after a connection has been served, the lines of
  the log are those of before and one line for each message of its conversation, with the
  client's address, the request line, the status and the size of the body sent, provided no
  request line has a bare line feed.\<close>

theorem connections_are_logged:
  assumes "\<And>k. stable_files (env_os env k)" "steady (incoming c)" "link_up (send_script c)" "length request_line = 256"
    "handle_client env request request_line c = (entries, c')" "complete_lines (log_file l)" "list_all plain_entry entries"
  shows "map_option (\<lambda>l. split_lines (log_file l)) (fold write_entry entries (Some l)) =
    Some (split_lines (log_file l) @ map (\<lambda>(message, entry). entry_line entry) (conversation env 0 (stream_of (incoming c))))"
proof -
  from handle_client_carries_out [OF assms(1-5)]
  have "map entry_line entries = map (\<lambda>(message, entry). entry_line entry) (conversation env 0 (stream_of (incoming c)))"
    by (simp add: case_prod_beta)
  with fold_write_entry [OF assms(6,7)] show ?thesis by auto
qed

text \<open>A system with a secret where the link of the sample system leads, beside the root.\<close>

definition secret_os :: os_view where
  "secret_os = sample_os\<lparr>os_stat := (os_stat sample_os)(''/srv/wwwx'' := Inr \<lparr>st_mode = S_REG, st_size = 6\<rparr>),
     os_fopen := (os_fopen sample_os)(''/srv/wwwx'' := Some ''secret'')\<rparr>"

lemma secret_os_agrees: "agree_below ''www'' sample_os secret_os"
proof -
  have "p \<noteq> ''/srv/wwwx''" if "below ''/srv/www'' p" for p using that by (auto simp: below_def)
  moreover have "os_realpath sample_os ''www'' = Inr ''/srv/www''" by (simp add: sample_os_def)
  ultimately show ?thesis by (auto simp: agree_below_def agree_at_def secret_os_def)
qed

theorem only_document_root_is_served_witness:
  "os_realpath secret_os ''www/link'' = Inr ''/srv/wwwx'' \<and> os_fopen secret_os ''/srv/wwwx'' = Some ''secret'' \<and>
    (\<forall>bytes. handle_client (example_env\<lparr>env_os := \<lambda>_. secret_os\<rparr>) zero_request (zeroed 256)
        (example_conn\<lparr>incoming := [Recv_bytes bytes]\<rparr>) =
      handle_client example_env zero_request (zeroed 256) (example_conn\<lparr>incoming := [Recv_bytes bytes]\<rparr>))"
proof -
  have "agree_below (env_doc_root example_env) (env_os example_env k) secret_os" "realpath_c_strings (env_os example_env k)" for k
    using secret_os_agrees sample_os_c_strings by (simp_all add: example_env_def)
  from only_document_root_is_served [where os' = "\<lambda>_. secret_os", OF this] show ?thesis
    by (simp add: secret_os_def sample_os_def)
qed

theorem connections_are_logged_witness:
  "\<exists>entries. map_option (\<lambda>l. split_lines (log_file l)) (fold write_entry entries (Some \<lparr>log_file = []\<rparr>)) =
    Some (map (\<lambda>(message, entry). entry_line entry) (conversation example_env 0 ''GET'')) \<and> length entries = 1"
proof -
  define c where "c = example_conn\<lparr>incoming := [Recv_bytes ''GET'']\<rparr>"
  have f: "steady (incoming c)" "link_up (send_script c)" "length (zeroed 256) = 256" and b: "stream_of (incoming c) = ''GET''"
    by (simp_all add: c_def example_conn_def link_up_def)
  obtain entries c' where h: "handle_client example_env zero_request (zeroed 256) c = (entries, c')" by fastforce
  have "conversation example_env 0 ''GET'' = [bad_request_reply example_env 0 ''GET'']"
    by (simp add: conversation.simps READ_BUFFER_SIZE_def)
  with handle_client_carries_out [OF example_env_stable f h] b
  have e: "entries = [snd (bad_request_reply example_env 0 ''GET'')]" by simp
  then have p: "list_all plain_entry entries"
    by (simp add: bad_request_reply_def example_env_def wf_tm_def get_client_ip_def request_line_text_def)
  have l: "complete_lines (log_file \<lparr>log_file = []\<rparr>)" by (simp add: complete_lines_def)
  have "length entries = 1" using e by simp
  with connections_are_logged [OF example_env_stable f h l p] show ?thesis
    unfolding b by (intro exI [of _ entries]) simp
qed

end
